(* ===== verification/FxPrelude.thy ===== *)
theory FxPrelude
  imports Main "HOL-Library.Word" "HOL-Library.AList" "HOL-Library.Multiset" "HOL-Library.Sublist"
begin

text \<open>
  The prelude of the development: the types that every component shares (machine integers, byte
  strings, addresses and hashes), the data that the blocks package of the Fabric-X SDK hands to the
  components (read and write records, transactions, blocks), Go's error results as sums, Go's
  big-endian integer encodings, and the generic lemmas on lists, maps and bytes that the component
  theories use.

  Go maps whose size the code asks for, or over which it ranges, are association lists with distinct
  keys (\<^theory_text>\<open>HOL-Library.AList\<close>): the code may visit the entries in any order, and every
  property is proved for every association list, hence for every order.  Maps that are only looked up
  and written are HOL maps.  A Go byte slice that may be nil is a \<open>bytes option\<close>.
\<close>

section \<open>Types\<close>

type_synonym u8 = "8 word"
type_synonym u32 = "32 word"
type_synonym u64 = "64 word"
type_synonym u256 = "256 word"
type_synonym bytes = "u8 list"
type_synonym address = "160 word"
type_synonym hash = "256 word"

text \<open>A Go function that can fail or panic returns a sum, the error message on the left.\<close>

type_synonym 'a result = "string + 'a"

definition glen :: "bytes option \<Rightarrow> nat" where
  "glen b = (case b of None \<Rightarrow> 0 | Some xs \<Rightarrow> length xs)"

definition gbytes :: "bytes option \<Rightarrow> bytes" where
  "gbytes b = (case b of None \<Rightarrow> [] | Some xs \<Rightarrow> xs)"

section \<open>Data of the SDK's blocks package\<close>

record version =
  ver_block :: u64
  ver_tx :: u64

record kvread =
  kr_key :: string
  kr_version :: "version option"

record kvwrite =
  kw_key :: string
  kw_isdelete :: bool
  kw_value :: "bytes option"

record write_record =
  wr_namespace :: string
  wr_key :: string
  wr_block :: u64
  wr_tx :: u64
  wr_version :: u64
  wr_value :: "bytes option"
  wr_isdelete :: bool
  wr_txid :: string

record rwset =
  rws_reads :: "kvread list"
  rws_writes :: "kvwrite list"

record ns_rwset =
  nr_namespace :: string
  nr_rws :: rwset

text \<open>\<open>bt_valid\<close> is what the SDK's \<open>Transaction.Valid\<close> answers for the transaction's status.\<close>

record block_tx =
  bt_id :: string
  bt_number :: int
  bt_valid :: bool
  bt_nsrws :: "ns_rwset list"
  bt_eventname :: string
  bt_event :: bytes
  bt_inputargs :: "bytes list"
  bt_payload :: bytes

record block =
  bk_number :: u64
  bk_hash :: bytes
  bk_parent :: bytes
  bk_timestamp :: int
  bk_txs :: "block_tx list"

section \<open>Big-endian encodings of Go's standard library\<close>

text \<open>
  \<open>be n v\<close> is the \<open>n\<close>-byte big-endian encoding of \<open>v\<close> (\<open>binary.BigEndian.PutUint64\<close> is
  \<open>be 8\<close>), \<open>unbe\<close> reads one (\<open>big.Int.SetBytes\<close>), and \<open>min_be\<close> is the minimal encoding
  that \<open>big.Int.Bytes\<close> returns: no leading zero byte, the empty string for zero.
\<close>

primrec be :: "nat \<Rightarrow> nat \<Rightarrow> bytes" where
  "be 0 v = []"
| "be (Suc n) v = be n (v div 256) @ [of_nat (v mod 256)]"

definition unbe :: "bytes \<Rightarrow> nat" where
  "unbe bs = foldl (\<lambda>acc b. acc * 256 + unat b) 0 bs"

fun min_be :: "nat \<Rightarrow> bytes" where
  "min_be v = (if v = 0 then [] else min_be (v div 256) @ [of_nat (v mod 256)])"

declare min_be.simps [simp del]

lemma unbe_Nil [simp]: "unbe [] = 0"
  by (simp add: unbe_def)

lemma unbe_snoc [simp]: "unbe (bs @ [b]) = unbe bs * 256 + unat b"
  by (simp add: unbe_def)

lemma unat_byte_mod [simp]: "unat (of_nat (v mod 256) :: u8) = v mod 256"
  by (simp add: unat_of_nat)

lemma length_be [simp]: "length (be n v) = n"
  by (induction n arbitrary: v) auto

lemma unbe_be: "unbe (be n v) = v mod 256 ^ n"
proof (induction n arbitrary: v)
  case 0
  then show ?case by simp
next
  case (Suc n)
  have "unbe (be (Suc n) v) = (v div 256) mod 256 ^ n * 256 + v mod 256"
    by (simp add: Suc)
  also have "\<dots> = v mod (256 * 256 ^ n)"
    by (simp add: mod_mult2_eq algebra_simps)
  finally show ?case by simp
qed

lemma unbe_min_be [simp]: "unbe (min_be v) = v"
proof (induction v rule: min_be.induct)
  case (1 v)
  show ?case
  proof (cases "v = 0")
    case True
    then show ?thesis by (simp add: min_be.simps)
  next
    case False
    then have "unbe (min_be (v div 256)) = v div 256" by (rule 1)
    with False show ?thesis by (simp add: min_be.simps [of v])
  qed
qed

lemma min_be_Nil_iff [simp]: "min_be v = [] \<longleftrightarrow> v = 0"
  by (subst min_be.simps) simp

lemma be_inj: "v < 256 ^ n \<Longrightarrow> w < 256 ^ n \<Longrightarrow> be n v = be n w \<Longrightarrow> v = w"
  by (metis mod_less unbe_be)

lemma min_be_0 [simp]: "min_be 0 = []"
  by (simp add: min_be.simps)

lemma min_be_byte: "0 < v \<Longrightarrow> v < 256 \<Longrightarrow> min_be v = [of_nat v]"
  by (simp add: min_be.simps [of v])

section \<open>Machine integers\<close>

lemma unat_of_nat_u32: "n < 2 ^ 32 \<Longrightarrow> unat (of_nat n :: u32) = n"
  by (simp add: unat_of_nat)

lemma unat_of_nat_u64: "n < 2 ^ 64 \<Longrightarrow> unat (of_nat n :: u64) = n"
  by (simp add: unat_of_nat)

section \<open>Strings as bytes\<close>

text \<open>A Go string is a byte sequence: conversion to \<open>[]byte\<close> and back.\<close>

definition byte_string :: "bytes \<Rightarrow> string" where
  "byte_string bs = map (\<lambda>b. char_of (unat b)) bs"

definition str_bytes :: "string \<Rightarrow> bytes" where
  "str_bytes s = map (\<lambda>c. of_nat (of_char c)) s"

lemma inj_byte_string: "inj byte_string"
proof (rule injI)
  fix xs ys
  assume "byte_string xs = byte_string ys"
  moreover have "inj (\<lambda>b :: u8. char_of (unat b) :: char)"
  proof (rule injI)
    fix b c :: u8
    assume eq: "(char_of (unat b) :: char) = char_of (unat c)"
    have "unat b < 256" "unat c < 256"
      using unsigned_less [of b] unsigned_less [of c] by simp_all
    then have "unat b = unat c"
      using arg_cong [OF eq, of "of_char :: char \<Rightarrow> nat"] by simp
    then show "b = c" by (rule unsigned_word_eqI)
  qed
  ultimately show "xs = ys"
    by (simp add: byte_string_def inj_map_eq_map)
qed

lemma length_str_bytes [simp]: "length (str_bytes s) = length s"
  by (simp add: str_bytes_def)

lemma byte_string_str_bytes [simp]: "byte_string (str_bytes s) = s"
proof -
  have "unat (of_nat (of_char c) :: u8) = of_char c" for c :: char
    by (simp add: unat_of_nat)
  then show ?thesis
    by (simp add: byte_string_def str_bytes_def map_idI)
qed

lemma str_bytes_eq_iff [simp]: "str_bytes s = str_bytes t \<longleftrightarrow> s = t"
  by (metis byte_string_str_bytes)

text \<open>The verb \<open>%d\<close> of \<open>fmt\<close>.\<close>

fun dec_nat :: "nat \<Rightarrow> string" where
  "dec_nat n = (if n < 10 then [char_of (48 + n)] else dec_nat (n div 10) @ [char_of (48 + n mod 10)])"

declare dec_nat.simps [simp del]

definition dec :: "int \<Rightarrow> string" where
  "dec i = (if i < 0 then ''-'' @ dec_nat (nat (- i)) else dec_nat (nat i))"

end
