(* ===== verification/StateDB.thy ===== *)
theory StateDB
  imports FxPrelude
begin

text \<open>
  The model of \<open>endorser/execution/statedb.go\<close>: the \<open>StateDB\<close> that the EVM executes against and
  whose journal becomes the Fabric read-write set.  The record \<open>statedb\<close> has the fields of the Go
  struct; every method is a function that takes the state and returns the result with the new state.
  A panic is the left side of the result (\<open>'a sm\<close>), a Go error value is a result of its own.

  Code outside the repository is a parameter, collected in the record \<open>sdb_env\<close>: go-ethereum's
  \<open>Address.Hex\<close>, \<open>Hash.Hex\<close>, \<open>BytesToHash\<close>, \<open>Hash.Bytes\<close>, \<open>Address.Bytes\<close> and \<open>Keccak256Hash\<close>,
  and the \<open>ReadStore\<close> the state is backed by, as the function its \<open>Get\<close> computes (a pinned
  snapshot answers the same question the same way every time).
\<close>

section \<open>Data\<close>

record sdb_env =
  env_hexA :: "address \<Rightarrow> string"
  env_hexH :: "hash \<Rightarrow> string"
  env_bytesToHash :: "bytes \<Rightarrow> hash"
  env_hashBytes :: "hash \<Rightarrow> bytes"
  env_addrBytes :: "address \<Rightarrow> bytes"
  env_keccak :: "bytes \<Rightarrow> hash"
  env_get :: "string \<Rightarrow> string \<Rightarrow> write_record option result"

record log =
  lg_address :: bytes
  lg_topics :: "bytes list"
  lg_data :: bytes

record eth_log =
  el_address :: address
  el_topics :: "hash list"
  el_data :: bytes

record revision =
  rv_id :: int
  rv_journalIndex :: nat
  rv_logIndex :: nat

record access_list =
  al_addresses :: "address \<rightharpoonup> int"
  al_slots :: "hash set list"

datatype entry =
    ReadEntry kvread
  | WriteEntry kvwrite
  | RefundEntry u64
  | SelfDestructEntry address
  | NewContractEntry address
  | TransientStorageChange address hash hash
  | AccessListAddAddressEntry address
  | AccessListAddSlotEntry address hash

record statedb =
  sdb_writeIdx :: "(string \<rightharpoonup> nat) option"
  sdb_namespace :: string
  sdb_monotonic :: bool
  sdb_logs :: "log list"
  sdb_refund :: u64
  sdb_selfDestructed :: "address set"
  sdb_newContracts :: "address set"
  sdb_accessList :: access_list
  sdb_transient :: "address \<rightharpoonup> (hash \<rightharpoonup> hash)"
  sdb_journal :: "entry list"
  sdb_validRevisions :: "revision list"
  sdb_nextRevisionId :: int

section \<open>State passing with panics\<close>

type_synonym 'a sm = "statedb \<Rightarrow> ('a \<times> statedb) result"

definition sret :: "'a \<Rightarrow> 'a sm" where
  "sret v s = Inr (v, s)"

definition spanic :: "string \<Rightarrow> 'a sm" where
  "spanic e s = Inl e"

definition sbind :: "'a sm \<Rightarrow> ('a \<Rightarrow> 'b sm) \<Rightarrow> 'b sm" where
  "sbind m f s = (case m s of Inl e \<Rightarrow> Inl e | Inr (v, s') \<Rightarrow> f v s')"

definition sappend :: "entry \<Rightarrow> unit sm" where
  "sappend e s = Inr ((), s\<lparr>sdb_journal := sdb_journal s @ [e]\<rparr>)"

section \<open>The access list\<close>

definition newAccessList :: access_list where
  "newAccessList = \<lparr>al_addresses = Map.empty, al_slots = []\<rparr>"

definition containsAddress :: "access_list \<Rightarrow> address \<Rightarrow> bool" where
  "containsAddress al addr = (al_addresses al addr \<noteq> None)"

text \<open>
  Indexing \<open>al.slots\<close> out of range panics in Go: the operations below return None there.
\<close>

definition al_contains :: "access_list \<Rightarrow> address \<Rightarrow> hash \<Rightarrow> (bool \<times> bool) option" where
  "al_contains al addr slot =
     (case al_addresses al addr of
        None \<Rightarrow> Some (False, False)
      | Some idx \<Rightarrow>
          if idx = -1 then Some (True, False)
          else if 0 \<le> idx \<and> nat idx < length (al_slots al)
               then Some (True, slot \<in> al_slots al ! nat idx)
               else None)"

definition addAddress :: "access_list \<Rightarrow> address \<Rightarrow> access_list" where
  "addAddress al addr =
     (case al_addresses al addr of
        Some _ \<Rightarrow> al
      | None \<Rightarrow> al\<lparr>al_addresses := (al_addresses al)(addr \<mapsto> -1)\<rparr>)"

definition addSlot :: "access_list \<Rightarrow> address \<Rightarrow> hash \<Rightarrow> access_list option" where
  "addSlot al addr slot =
     (let fresh = al\<lparr>al_addresses := (al_addresses al)(addr \<mapsto> int (length (al_slots al))),
                     al_slots := al_slots al @ [{slot}]\<rparr>
      in case al_addresses al addr of
           None \<Rightarrow> Some fresh
         | Some idx \<Rightarrow>
             if idx = -1 then Some fresh
             else if 0 \<le> idx \<and> nat idx < length (al_slots al)
                  then Some (al\<lparr>al_slots :=
                         (al_slots al)[nat idx := insert slot (al_slots al ! nat idx)]\<rparr>)
                  else None)"

definition deleteAddress :: "access_list \<Rightarrow> address \<Rightarrow> access_list" where
  "deleteAddress al addr = al\<lparr>al_addresses := (al_addresses al)(addr := None)\<rparr>"

definition deleteSlot :: "access_list \<Rightarrow> address \<Rightarrow> hash \<Rightarrow> access_list option" where
  "deleteSlot al addr slot =
     (case al_addresses al addr of
        None \<Rightarrow> Some al
      | Some idx \<Rightarrow>
          if idx = -1 then Some al
          else if 0 \<le> idx \<and> nat idx < length (al_slots al)
               then Some (al\<lparr>al_slots :=
                      (al_slots al)[nat idx := al_slots al ! nat idx - {slot}]\<rparr>)
               else None)"

section \<open>Keys and byte encodings\<close>

definition accKey :: "sdb_env \<Rightarrow> address \<Rightarrow> string \<Rightarrow> string" where
  "accKey E addr typ = ''acc:'' @ env_hexA E addr @ '':'' @ typ"

definition storeKey :: "sdb_env \<Rightarrow> address \<Rightarrow> hash \<Rightarrow> string" where
  "storeKey E addr slot = ''str:'' @ env_hexA E addr @ '':'' @ env_hexH E slot"

definition uint256ToBytes :: "u256 \<Rightarrow> bytes option" where
  "uint256ToBytes u = Some (min_be (unat u))"

definition bytesToUint256 :: "bytes option \<Rightarrow> u256" where
  "bytesToUint256 b = (if glen b = 0 then 0 else of_nat (unbe (gbytes b)))"

definition uint64ToBytes :: "u64 \<Rightarrow> bytes option" where
  "uint64ToBytes v = Some (be 8 (unat v))"

text \<open>\<open>binary.BigEndian.Uint64\<close> reads the first eight bytes and panics on a shorter slice.\<close>

definition bytesToUint64 :: "bytes option \<Rightarrow> u64 result" where
  "bytesToUint64 b =
     (if glen b = 0 then Inr 0
      else if glen b < 8 then Inl ''index out of range''
      else Inr (of_nat (unbe (take 8 (gbytes b)))))"

section \<open>Reads and writes of the journal\<close>

definition NewStateDB :: "string \<Rightarrow> bool \<Rightarrow> statedb" where
  "NewStateDB ns monoV =
     \<lparr>sdb_writeIdx = None, sdb_namespace = ns, sdb_monotonic = monoV, sdb_logs = [],
      sdb_refund = 0, sdb_selfDestructed = {}, sdb_newContracts = {},
      sdb_accessList = newAccessList, sdb_transient = Map.empty,
      sdb_journal = [], sdb_validRevisions = [], sdb_nextRevisionId = 0\<rparr>"

fun index_writes :: "nat \<Rightarrow> entry list \<Rightarrow> (string \<rightharpoonup> nat) \<Rightarrow> (string \<rightharpoonup> nat)" where
  "index_writes i [] m = m"
| "index_writes i (WriteEntry w # es) m = index_writes (Suc i) es (m(kw_key w \<mapsto> i))"
| "index_writes i (e # es) m = index_writes (Suc i) es m"

definition getStateFromJournal :: "string \<Rightarrow> (bytes option \<times> bool) sm" where
  "getStateFromJournal key s =
     (let m = (case sdb_writeIdx s of
                 None \<Rightarrow> index_writes 0 (sdb_journal s) Map.empty
               | Some m \<Rightarrow> m);
          s' = s\<lparr>sdb_writeIdx := Some m\<rparr>
      in case m key of
           None \<Rightarrow> Inr ((None, False), s')
         | Some i \<Rightarrow>
             if i < length (sdb_journal s) then
               (case sdb_journal s ! i of
                  WriteEntry w \<Rightarrow>
                    if kw_isdelete w then Inr ((None, True), s')
                    else Inr ((kw_value w, True), s')
                | _ \<Rightarrow> Inl ''interface conversion'')
             else Inl ''index out of range'')"

definition read_of :: "bool \<Rightarrow> string \<Rightarrow> write_record option \<Rightarrow> kvread" where
  "read_of monoV key rec =
     \<lparr>kr_key = key,
      kr_version =
        (case rec of
           None \<Rightarrow> None
         | Some r \<Rightarrow>
             if wr_isdelete r then None
             else if monoV then Some \<lparr>ver_block = wr_version r, ver_tx = 0\<rparr>
             else Some \<lparr>ver_block = wr_block r, ver_tx = wr_tx r\<rparr>)\<rparr>"

definition getStateFromStore :: "sdb_env \<Rightarrow> string \<Rightarrow> bytes option result sm" where
  "getStateFromStore E key s =
     (case env_get E (sdb_namespace s) key of
        Inl e \<Rightarrow> Inr (Inl e, s)
      | Inr rec \<Rightarrow>
          Inr (Inr (case rec of None \<Rightarrow> None | Some r \<Rightarrow> wr_value r),
               s\<lparr>sdb_journal := sdb_journal s @ [ReadEntry (read_of (sdb_monotonic s) key rec)]\<rparr>))"

definition getState :: "sdb_env \<Rightarrow> string \<Rightarrow> bytes option result sm" where
  "getState E key =
     sbind (getStateFromJournal key) (\<lambda>(val, found).
       if found then sret (Inr val) else getStateFromStore E key)"

definition putState :: "string \<Rightarrow> bytes option \<Rightarrow> unit sm" where
  "putState key value s =
     (let write = (if glen value = 0
                   then \<lparr>kw_key = key, kw_isdelete = True, kw_value = None\<rparr>
                   else \<lparr>kw_key = key, kw_isdelete = False, kw_value = value\<rparr>);
          idx = (case sdb_writeIdx s of
                   None \<Rightarrow> None
                 | Some m \<Rightarrow> Some (m(key \<mapsto> length (sdb_journal s))))
      in Inr ((), s\<lparr>sdb_writeIdx := idx, sdb_journal := sdb_journal s @ [WriteEntry write]\<rparr>))"

text \<open>A getter of the vm.StateDB interface panics when the store read failed.\<close>

definition orPanic :: "string \<Rightarrow> bytes option result sm \<Rightarrow> bytes option sm" where
  "orPanic what m =
     sbind m (\<lambda>r. case r of Inl e \<Rightarrow> spanic (what @ '' failed: '' @ e) | Inr v \<Rightarrow> sret v)"

section \<open>The vm.StateDB interface\<close>

definition markNewContract :: "address \<Rightarrow> unit sm" where
  "markNewContract addr s =
     (if addr \<in> sdb_newContracts s then Inr ((), s)
      else Inr ((), s\<lparr>sdb_journal := sdb_journal s @ [NewContractEntry addr],
                      sdb_newContracts := insert addr (sdb_newContracts s)\<rparr>))"

definition CreateAccount :: "sdb_env \<Rightarrow> address \<Rightarrow> unit sm" where
  "CreateAccount E addr =
     sbind (putState (accKey E addr ''bal'') (uint256ToBytes 0)) (\<lambda>_.
     sbind (putState (accKey E addr ''nonce'') (uint64ToBytes 0)) (\<lambda>_.
     markNewContract addr))"

definition CreateContract :: "sdb_env \<Rightarrow> address \<Rightarrow> unit sm" where
  "CreateContract E addr =
     sbind (putState (accKey E addr ''code'') (Some [])) (\<lambda>_. markNewContract addr)"

definition GetBalance :: "sdb_env \<Rightarrow> address \<Rightarrow> u256 sm" where
  "GetBalance E addr =
     sbind (orPanic ''GetBalance'' (getState E (accKey E addr ''bal''))) (\<lambda>val.
     sret (bytesToUint256 val))"

definition AddBalance :: "sdb_env \<Rightarrow> address \<Rightarrow> u256 \<Rightarrow> u256 sm" where
  "AddBalance E addr amount =
     (if amount = 0 then sret 0
      else sbind (GetBalance E addr) (\<lambda>prev.
           sbind (putState (accKey E addr ''bal'') (uint256ToBytes (prev + amount))) (\<lambda>_.
           sret prev)))"

definition SubBalance :: "sdb_env \<Rightarrow> address \<Rightarrow> u256 \<Rightarrow> u256 sm" where
  "SubBalance E addr amount =
     (if amount = 0 then sret 0
      else sbind (GetBalance E addr) (\<lambda>prev.
           sbind (putState (accKey E addr ''bal'') (uint256ToBytes (prev - amount))) (\<lambda>_.
           sret prev)))"

definition GetNonce :: "sdb_env \<Rightarrow> address \<Rightarrow> u64 sm" where
  "GetNonce E addr =
     sbind (orPanic ''GetNonce'' (getState E (accKey E addr ''nonce''))) (\<lambda>val.
     case bytesToUint64 val of Inl e \<Rightarrow> spanic e | Inr n \<Rightarrow> sret n)"

definition SetNonce :: "sdb_env \<Rightarrow> address \<Rightarrow> u64 \<Rightarrow> unit sm" where
  "SetNonce E addr nonce = putState (accKey E addr ''nonce'') (uint64ToBytes nonce)"

definition GetCode :: "sdb_env \<Rightarrow> address \<Rightarrow> bytes option sm" where
  "GetCode E addr = orPanic ''GetCode'' (getState E (accKey E addr ''code''))"

text \<open>\<open>Exist\<close> ignores a failed store read and tries the next field.\<close>

definition exist_field :: "sdb_env \<Rightarrow> address \<Rightarrow> string \<Rightarrow> bool sm \<Rightarrow> bool sm" where
  "exist_field E addr typ next =
     sbind (getState E (accKey E addr typ)) (\<lambda>r.
     case r of Inr (Some _) \<Rightarrow> sret True | _ \<Rightarrow> next)"

definition Exist :: "sdb_env \<Rightarrow> address \<Rightarrow> bool sm" where
  "Exist E addr =
     exist_field E addr ''bal'' (exist_field E addr ''nonce'' (exist_field E addr ''code''
       (sret False)))"

definition GetCodeHash :: "sdb_env \<Rightarrow> address \<Rightarrow> hash sm" where
  "GetCodeHash E addr =
     sbind (Exist E addr) (\<lambda>ex.
     if \<not> ex then sret 0
     else sbind (GetCode E addr) (\<lambda>code. sret (env_keccak E (gbytes code))))"

definition GetCodeSize :: "sdb_env \<Rightarrow> address \<Rightarrow> nat sm" where
  "GetCodeSize E addr = sbind (GetCode E addr) (\<lambda>code. sret (glen code))"

definition SetCode :: "sdb_env \<Rightarrow> address \<Rightarrow> bytes option \<Rightarrow> bytes option sm" where
  "SetCode E addr code =
     sbind (GetCode E addr) (\<lambda>prev.
     sbind (putState (accKey E addr ''code'') code) (\<lambda>_. sret prev))"

definition hashOf :: "sdb_env \<Rightarrow> bytes option \<Rightarrow> hash" where
  "hashOf E val = (if glen val = 0 then 0 else env_bytesToHash E (gbytes val))"

definition GetState :: "sdb_env \<Rightarrow> address \<Rightarrow> hash \<Rightarrow> hash sm" where
  "GetState E addr slot =
     sbind (orPanic ''GetState'' (getState E (storeKey E addr slot))) (\<lambda>val.
     sret (hashOf E val))"

definition GetStateAndCommittedState :: "sdb_env \<Rightarrow> address \<Rightarrow> hash \<Rightarrow> (hash \<times> hash) sm" where
  "GetStateAndCommittedState E addr slot =
     (let key = storeKey E addr slot in
      sbind (getStateFromJournal key) (\<lambda>(currentVal, found).
      sbind (orPanic ''GetStateAndCommittedState'' (getStateFromStore E key)) (\<lambda>committedVal.
      let committed = hashOf E committedVal;
          current = (if found then hashOf E currentVal else committed)
      in sret (current, committed))))"

definition SetState :: "sdb_env \<Rightarrow> address \<Rightarrow> hash \<Rightarrow> hash \<Rightarrow> hash sm" where
  "SetState E addr slot value =
     (let key = storeKey E addr slot in
      sbind (getStateFromJournal key) (\<lambda>(prevVal, found).
      sbind (if found then sret (hashOf E prevVal)
             else (\<lambda>s. case env_get E (sdb_namespace s) key of
                         Inl e \<Rightarrow> Inl (''SetState failed to get previous value: '' @ e)
                       | Inr None \<Rightarrow> Inr (0, s)
                       | Inr (Some r) \<Rightarrow>
                           Inr (if wr_isdelete r then 0 else hashOf E (wr_value r), s)))
        (\<lambda>prev.
      sbind (putState key (if value = 0 then None else Some (env_hashBytes E value))) (\<lambda>_.
      sret prev))))"

definition GetStorageRoot :: "address \<Rightarrow> hash" where
  "GetStorageRoot addr = 0"

definition markSelfDestructed :: "address \<Rightarrow> unit sm" where
  "markSelfDestructed addr s =
     (if addr \<in> sdb_newContracts s
      then Inr ((), s\<lparr>sdb_journal := sdb_journal s @ [SelfDestructEntry addr],
                      sdb_selfDestructed := insert addr (sdb_selfDestructed s)\<rparr>)
      else Inr ((), s))"

definition SelfDestruct :: "sdb_env \<Rightarrow> address \<Rightarrow> unit sm" where
  "SelfDestruct E addr =
     sbind (GetBalance E addr) (\<lambda>prevBalance.
     sbind (if prevBalance \<noteq> 0 then putState (accKey E addr ''bal'') (uint256ToBytes 0)
            else sret ()) (\<lambda>_.
     markSelfDestructed addr))"

definition HasSelfDestructed :: "address \<Rightarrow> statedb \<Rightarrow> bool" where
  "HasSelfDestructed addr s = (addr \<in> sdb_selfDestructed s)"

definition Empty :: "sdb_env \<Rightarrow> address \<Rightarrow> bool sm" where
  "Empty E addr =
     sbind (GetBalance E addr) (\<lambda>balance.
     if balance \<noteq> 0 then sret False
     else sbind (GetNonce E addr) (\<lambda>nonce.
          if nonce > 0 then sret False
          else sbind (GetCodeSize E addr) (\<lambda>codeSize. sret (codeSize = 0))))"

definition GetRefund :: "statedb \<Rightarrow> u64" where
  "GetRefund s = sdb_refund s"

definition AddRefund :: "u64 \<Rightarrow> unit sm" where
  "AddRefund gas s =
     Inr ((), s\<lparr>sdb_journal := sdb_journal s @ [RefundEntry (sdb_refund s)],
                sdb_refund := sdb_refund s + gas\<rparr>)"

definition SubRefund :: "u64 \<Rightarrow> unit sm" where
  "SubRefund gas s =
     (if gas > sdb_refund s then Inl ''Refund counter below zero''
      else Inr ((), s\<lparr>sdb_journal := sdb_journal s @ [RefundEntry (sdb_refund s)],
                      sdb_refund := sdb_refund s - gas\<rparr>))"

definition AddLog :: "sdb_env \<Rightarrow> eth_log \<Rightarrow> unit sm" where
  "AddLog E l s =
     Inr ((), s\<lparr>sdb_logs := sdb_logs s @
       [\<lparr>lg_address = env_addrBytes E (el_address l),
         lg_topics = map (env_hashBytes E) (el_topics l),
         lg_data = el_data l\<rparr>]\<rparr>)"

section \<open>Transient storage and access list methods\<close>

definition GetTransientState :: "address \<Rightarrow> hash \<Rightarrow> statedb \<Rightarrow> hash" where
  "GetTransientState addr key s =
     (case sdb_transient s addr of
        None \<Rightarrow> 0
      | Some storage \<Rightarrow> (case storage key of None \<Rightarrow> 0 | Some v \<Rightarrow> v))"

definition set_transient :: "address \<Rightarrow> hash \<Rightarrow> hash \<Rightarrow> statedb \<Rightarrow> statedb" where
  "set_transient addr key value s =
     (let storage = (case sdb_transient s addr of None \<Rightarrow> Map.empty | Some m \<Rightarrow> m)
      in s\<lparr>sdb_transient := (sdb_transient s)(addr \<mapsto> storage(key \<mapsto> value))\<rparr>)"

definition SetTransientState :: "address \<Rightarrow> hash \<Rightarrow> hash \<Rightarrow> unit sm" where
  "SetTransientState addr key value s =
     (let prev = GetTransientState addr key s;
          s1 = s\<lparr>sdb_journal := sdb_journal s @ [TransientStorageChange addr key prev]\<rparr>
      in Inr ((), set_transient addr key value s1))"

definition AddressInAccessList :: "address \<Rightarrow> statedb \<Rightarrow> bool" where
  "AddressInAccessList addr s = containsAddress (sdb_accessList s) addr"

definition SlotInAccessList :: "address \<Rightarrow> hash \<Rightarrow> statedb \<Rightarrow> (bool \<times> bool) option" where
  "SlotInAccessList addr slot s = al_contains (sdb_accessList s) addr slot"

definition AddAddressToAccessList :: "address \<Rightarrow> unit sm" where
  "AddAddressToAccessList addr s =
     (if containsAddress (sdb_accessList s) addr then Inr ((), s)
      else Inr ((), s\<lparr>sdb_journal := sdb_journal s @ [AccessListAddAddressEntry addr],
                      sdb_accessList := addAddress (sdb_accessList s) addr\<rparr>))"

definition AddSlotToAccessList :: "address \<Rightarrow> hash \<Rightarrow> unit sm" where
  "AddSlotToAccessList addr slot s =
     (case al_contains (sdb_accessList s) addr slot of
        None \<Rightarrow> Inl ''index out of range''
      | Some (addrOk, slotOk) \<Rightarrow>
          if addrOk \<and> slotOk then Inr ((), s)
          else (case addSlot (sdb_accessList s) addr slot of
                  None \<Rightarrow> Inl ''index out of range''
                | Some al \<Rightarrow>
                    Inr ((), s\<lparr>sdb_journal := sdb_journal s
                                 @ (if addrOk then [] else [AccessListAddAddressEntry addr])
                                 @ [AccessListAddSlotEntry addr slot],
                               sdb_accessList := al\<rparr>)))"

fun addSlots :: "access_list \<Rightarrow> address \<Rightarrow> hash list \<Rightarrow> access_list option" where
  "addSlots al addr [] = Some al"
| "addSlots al addr (k # ks) =
     (case addSlot al addr k of None \<Rightarrow> None | Some al' \<Rightarrow> addSlots al' addr ks)"

fun addAccesses :: "access_list \<Rightarrow> (address \<times> hash list) list \<Rightarrow> access_list option" where
  "addAccesses al [] = Some al"
| "addAccesses al ((addr, ks) # els) =
     (case addSlots (addAddress al addr) addr ks of
        None \<Rightarrow> None | Some al' \<Rightarrow> addAccesses al' els)"

definition Prepare ::
    "bool \<Rightarrow> address \<Rightarrow> address \<Rightarrow> address option \<Rightarrow> address list
       \<Rightarrow> (address \<times> hash list) list \<Rightarrow> unit sm" where
  "Prepare isShanghai sender coinbase dest precompiles txAccesses s =
     (let al1 = addAddress newAccessList sender;
          al2 = (case dest of None \<Rightarrow> al1 | Some d \<Rightarrow> addAddress al1 d);
          al3 = foldl addAddress al2 precompiles
      in case addAccesses al3 txAccesses of
           None \<Rightarrow> Inl ''index out of range''
         | Some al4 \<Rightarrow>
             Inr ((), s\<lparr>sdb_accessList :=
                        (if isShanghai then addAddress al4 coinbase else al4)\<rparr>))"

section \<open>Snapshots, reverts and the read-write set\<close>

definition Snapshot :: "int sm" where
  "Snapshot s =
     (let sid = sdb_nextRevisionId s in
      Inr (sid, s\<lparr>sdb_nextRevisionId := sid + 1,
                  sdb_validRevisions := sdb_validRevisions s @
                    [\<lparr>rv_id = sid, rv_journalIndex = length (sdb_journal s),
                      rv_logIndex = length (sdb_logs s)\<rparr>]\<rparr>))"

fun revert_entry :: "entry \<Rightarrow> statedb \<Rightarrow> statedb option" where
  "revert_entry (RefundEntry prevRefund) s = Some (s\<lparr>sdb_refund := prevRefund\<rparr>)"
| "revert_entry (SelfDestructEntry addr) s =
     Some (s\<lparr>sdb_selfDestructed := sdb_selfDestructed s - {addr}\<rparr>)"
| "revert_entry (NewContractEntry addr) s =
     Some (s\<lparr>sdb_newContracts := sdb_newContracts s - {addr}\<rparr>)"
| "revert_entry (TransientStorageChange account key prevalue) s =
     Some (set_transient account key prevalue s)"
| "revert_entry (AccessListAddAddressEntry addr) s =
     Some (s\<lparr>sdb_accessList := deleteAddress (sdb_accessList s) addr\<rparr>)"
| "revert_entry (AccessListAddSlotEntry addr slot) s =
     (case deleteSlot (sdb_accessList s) addr slot of
        None \<Rightarrow> None
      | Some al \<Rightarrow> Some (s\<lparr>sdb_accessList := al\<rparr>))"
| "revert_entry (ReadEntry r) s = Some s"
| "revert_entry (WriteEntry w) s = Some s"

text \<open>The loop that undoes journal entries, from the last one backwards.\<close>

fun revert_entries :: "entry list \<Rightarrow> statedb \<Rightarrow> statedb option" where
  "revert_entries [] s = Some s"
| "revert_entries (e # es) s =
     (case revert_entry e s of None \<Rightarrow> None | Some s' \<Rightarrow> revert_entries es s')"

fun find_revision :: "int \<Rightarrow> revision list \<Rightarrow> nat option" where
  "find_revision revid [] = None"
| "find_revision revid (r # rs) =
     (if rv_id r = revid then Some 0 else map_option Suc (find_revision revid rs))"

definition RevertToSnapshot :: "int \<Rightarrow> unit sm" where
  "RevertToSnapshot revid s =
     (case find_revision revid (sdb_validRevisions s) of
        None \<Rightarrow> Inr ((), s)
      | Some idx \<Rightarrow>
          let snapshot = sdb_validRevisions s ! idx;
              ji = rv_journalIndex snapshot
          in case revert_entries (rev (drop ji (sdb_journal s))) s of
               None \<Rightarrow> Inl ''index out of range''
             | Some s' \<Rightarrow>
                 if length (sdb_journal s) < ji \<or> length (sdb_logs s) < rv_logIndex snapshot
                 then Inl ''slice bounds out of range''
                 else Inr ((), s'\<lparr>sdb_journal := take ji (sdb_journal s),
                                  sdb_writeIdx := None,
                                  sdb_logs := take (rv_logIndex snapshot) (sdb_logs s),
                                  sdb_validRevisions := take idx (sdb_validRevisions s)\<rparr>))"

fun collect_reads :: "entry list \<Rightarrow> (string \<times> kvread) list \<Rightarrow> (string \<times> kvread) list" where
  "collect_reads [] m = m"
| "collect_reads (ReadEntry r # es) m = collect_reads es (AList.update (kr_key r) r m)"
| "collect_reads (e # es) m = collect_reads es m"

fun collect_writes :: "entry list \<Rightarrow> (string \<times> kvwrite) list \<Rightarrow> (string \<times> kvwrite) list" where
  "collect_writes [] m = m"
| "collect_writes (WriteEntry w # es) m = collect_writes es (AList.update (kw_key w) w m)"
| "collect_writes (e # es) m = collect_writes es m"

definition Result :: "statedb \<Rightarrow> rwset" where
  "Result s = \<lparr>rws_reads = map snd (collect_reads (sdb_journal s) []),
               rws_writes = map snd (collect_writes (sdb_journal s) [])\<rparr>"

definition Logs :: "statedb \<Rightarrow> log list" where
  "Logs s = sdb_logs s"

definition IsNewContract :: "address \<Rightarrow> statedb \<Rightarrow> bool" where
  "IsNewContract addr s = (addr \<in> sdb_newContracts s)"

end
