(* ===== verification/SdbJournal.thy ===== *)
theory SdbJournal
  imports StateDB
begin

text \<open>
  What the journal of a \<^typ>\<open>statedb\<close> means.  The reference for \<open>getStateFromJournal\<close> is the
  backward scan for the last write of a key (\<open>lastWrite\<close>) that the index \<open>writeIdx\<close> replaces; the
  invariant \<open>sdb_wf\<close> says that the index, when present, is the index of the journal, that the access
  list's slot indices are in range and not shared, and that the recorded revisions are ordered and
  within the journal.  \<open>visible\<close> is the key-value state the journal and the store stand for:
  \<open>getState\<close> reads it and \<open>putState\<close> updates it at one key, so the account methods are
  specified through it.
\<close>

section \<open>The reference semantics of the journal\<close>

fun lastWrite :: "string \<Rightarrow> entry list \<Rightarrow> kvwrite option" where
  "lastWrite key [] = None"
| "lastWrite key (WriteEntry w # es) =
     (case lastWrite key es of
        Some w' \<Rightarrow> Some w'
      | None \<Rightarrow> if kw_key w = key then Some w else None)"
| "lastWrite key (e # es) = lastWrite key es"

definition written :: "kvwrite \<Rightarrow> bytes option" where
  "written w = (if kw_isdelete w then None else kw_value w)"

definition normal :: "bytes option \<Rightarrow> bytes option" where
  "normal v = (if glen v = 0 then None else v)"

definition record_value :: "write_record option \<Rightarrow> bytes option" where
  "record_value rec = (case rec of None \<Rightarrow> None | Some r \<Rightarrow> wr_value r)"

definition visible :: "sdb_env \<Rightarrow> statedb \<Rightarrow> string \<Rightarrow> bytes option result" where
  "visible E s key =
     (case lastWrite key (sdb_journal s) of
        Some w \<Rightarrow> Inr (written w)
      | None \<Rightarrow> (case env_get E (sdb_namespace s) key of
                   Inl e \<Rightarrow> Inl e | Inr rec \<Rightarrow> Inr (record_value rec)))"

definition journal_index :: "entry list \<Rightarrow> string \<rightharpoonup> nat" where
  "journal_index es = index_writes 0 es Map.empty"

section \<open>The invariant\<close>

definition al_wf :: "access_list \<Rightarrow> bool" where
  "al_wf al \<longleftrightarrow>
     (\<forall>a i. al_addresses al a = Some i \<longrightarrow> i = -1 \<or> (0 \<le> i \<and> nat i < length (al_slots al))) \<and>
     (\<forall>a b i. al_addresses al a = Some i \<longrightarrow> al_addresses al b = Some i \<longrightarrow> i \<noteq> -1 \<longrightarrow> a = b)"

definition idx_ok :: "statedb \<Rightarrow> bool" where
  "idx_ok s \<longleftrightarrow>
     (case sdb_writeIdx s of None \<Rightarrow> True | Some m \<Rightarrow> m = journal_index (sdb_journal s))"

definition revs_ok :: "statedb \<Rightarrow> bool" where
  "revs_ok s \<longleftrightarrow>
     (\<forall>r \<in> set (sdb_validRevisions s).
        rv_id r < sdb_nextRevisionId s \<and>
        rv_journalIndex r \<le> length (sdb_journal s) \<and>
        rv_logIndex r \<le> length (sdb_logs s)) \<and>
     sorted (map rv_journalIndex (sdb_validRevisions s)) \<and>
     sorted (map rv_logIndex (sdb_validRevisions s))"

definition sdb_wf :: "statedb \<Rightarrow> bool" where
  "sdb_wf s \<longleftrightarrow> idx_ok s \<and> al_wf (sdb_accessList s) \<and> revs_ok s"

section \<open>The index and the backward scan\<close>

lemma lastWrite_append:
  "lastWrite key (xs @ ys) = (case lastWrite key ys of Some w \<Rightarrow> Some w | None \<Rightarrow> lastWrite key xs)"
  by (induction key xs rule: lastWrite.induct) (auto split: option.splits)

lemma lastWrite_key: "lastWrite key es = Some w \<Longrightarrow> kw_key w = key"
  by (induction key es rule: lastWrite.induct) (auto split: option.splits if_splits)

lemma lastWrite_mem: "lastWrite key es = Some w \<Longrightarrow> WriteEntry w \<in> set es"
  by (induction key es rule: lastWrite.induct) (auto split: option.splits if_splits)

lemma index_writes_append:
  "index_writes i (xs @ ys) m = index_writes (i + length xs) ys (index_writes i xs m)"
proof (induction xs arbitrary: i m)
  case Nil
  then show ?case by simp
next
  case (Cons e xs)
  then show ?case by (cases e) (simp_all add: fun_upd_def)
qed

lemma journal_index_snoc:
  "journal_index (es @ [e]) =
     (case e of WriteEntry w \<Rightarrow> (journal_index es)(kw_key w \<mapsto> length es) | _ \<Rightarrow> journal_index es)"
  by (cases e) (simp_all add: journal_index_def index_writes_append)

lemma journal_index_snoc_other:
  "\<forall>w. e \<noteq> WriteEntry w \<Longrightarrow> journal_index (es @ [e]) = journal_index es"
  by (cases e) (simp_all add: journal_index_snoc)

text \<open>The index points at the write the backward scan finds.\<close>

lemma journal_index_lastWrite:
  "case journal_index es key of
     None \<Rightarrow> lastWrite key es = None
   | Some i \<Rightarrow> i < length es \<and> (\<exists>w. es ! i = WriteEntry w \<and> lastWrite key es = Some w)"
proof (induction es rule: rev_induct)
  case Nil
  then show ?case by (simp add: journal_index_def)
next
  case (snoc e es)
  then show ?case
    by (cases e) (auto simp: journal_index_snoc lastWrite_append nth_append split: option.splits)
qed

lemma getStateFromJournal_scan:
  assumes "idx_ok s"
  shows "getStateFromJournal key s =
           Inr (case lastWrite key (sdb_journal s) of
                  None \<Rightarrow> (None, False) | Some w \<Rightarrow> (written w, True),
                s\<lparr>sdb_writeIdx := Some (journal_index (sdb_journal s))\<rparr>)"
  using assms journal_index_lastWrite [where es = "sdb_journal s" and key = key]
  by (auto simp: getStateFromJournal_def idx_ok_def journal_index_def [symmetric] written_def
      split: option.splits)

lemma idx_ok_indexed [simp]:
  "idx_ok (s\<lparr>sdb_writeIdx := Some (journal_index (sdb_journal s))\<rparr>)"
  by (simp add: idx_ok_def)

lemma visible_indexed [simp]: "visible E (s\<lparr>sdb_writeIdx := i\<rparr>) = visible E s"
  by (rule ext) (simp add: visible_def split: option.split)

lemma visible_snoc:
  "visible E (s\<lparr>sdb_journal := sdb_journal s @ [e]\<rparr>) =
     (case e of WriteEntry w \<Rightarrow> (visible E s)(kw_key w := Inr (written w)) | _ \<Rightarrow> visible E s)"
  by (rule ext)
    (cases e; simp add: visible_def lastWrite_append split: option.split)

lemma visible_cong:
  "sdb_journal s' = sdb_journal s \<Longrightarrow> sdb_namespace s' = sdb_namespace s \<Longrightarrow>
     visible E s' = visible E s"
  by (rule ext) (simp add: visible_def split: option.split)

section \<open>getState and putState as reads and updates of the visible state\<close>

lemma putState_eq:
  "putState key v s =
     Inr ((), s\<lparr>sdb_writeIdx := map_option (\<lambda>m. m(key \<mapsto> length (sdb_journal s))) (sdb_writeIdx s),
                sdb_journal := sdb_journal s @
                  [WriteEntry \<lparr>kw_key = key, kw_isdelete = (glen v = 0), kw_value = normal v\<rparr>]\<rparr>)"
  by (simp add: putState_def normal_def split: option.split)

lemma putState_idx_ok: "putState key v s = Inr (u, s') \<Longrightarrow> idx_ok s \<Longrightarrow> idx_ok s'"
  by (auto simp: putState_eq idx_ok_def journal_index_snoc split: option.splits)

lemma putState_visible:
  "putState key v s = Inr (u, s') \<Longrightarrow> visible E s' = (visible E s)(key := Inr (normal v))"
  by (rule ext)
    (auto simp: putState_eq visible_def lastWrite_append written_def normal_def split: option.splits)

lemma getStateFromStore_visible:
  "getStateFromStore E key s = Inr (r, s') \<Longrightarrow> visible E s' = visible E s"
  by (auto simp: getStateFromStore_def visible_snoc split: sum.splits)

lemma getState_visible:
  assumes "idx_ok s"
  shows "\<exists>s'. getState E key s = Inr (visible E s key, s') \<and> idx_ok s' \<and> visible E s' = visible E s \<and>
              sdb_namespace s' = sdb_namespace s"
proof (cases "lastWrite key (sdb_journal s)")
  case (Some w)
  with assms show ?thesis
    by (simp add: getState_def sbind_def getStateFromJournal_scan sret_def)
      (simp add: visible_def)
next
  case None
  let ?s = "s\<lparr>sdb_writeIdx := Some (journal_index (sdb_journal s))\<rparr>"
  have eq: "getState E key s = getStateFromStore E key ?s"
    using None assms by (simp add: getState_def sbind_def getStateFromJournal_scan)
  obtain r s' where store: "getStateFromStore E key ?s = Inr (r, s')"
    by (cases "env_get E (sdb_namespace s) key") (simp_all add: getStateFromStore_def)
  have "r = visible E s key" "idx_ok s'" "sdb_namespace s' = sdb_namespace s"
    using store None
    by (auto simp: getStateFromStore_def visible_def record_value_def idx_ok_def journal_index_snoc
        split: sum.splits option.splits)
  moreover have "visible E s' = visible E s"
    using getStateFromStore_visible [OF store] by simp
  ultimately show ?thesis
    using eq store by (intro exI [of _ s']) simp
qed

section \<open>Byte encodings\<close>

lemma bytesToUint256_normal [simp]: "bytesToUint256 (normal v) = bytesToUint256 v"
  by (simp add: bytesToUint256_def normal_def glen_def)

lemma bytesToUint64_normal [simp]: "bytesToUint64 (normal v) = bytesToUint64 v"
  by (simp add: bytesToUint64_def normal_def glen_def)

lemma bytesToUint256_uint256ToBytes [simp]: "bytesToUint256 (uint256ToBytes u) = u"
  by (simp add: bytesToUint256_def uint256ToBytes_def glen_def gbytes_def unsigned_eq_0_iff)

lemma bytesToUint64_uint64ToBytes [simp]: "bytesToUint64 (uint64ToBytes v) = Inr v"
proof -
  have "unat v < 256 ^ 8"
    using unsigned_less [of v] by simp
  then show ?thesis
    by (simp add: bytesToUint64_def uint64ToBytes_def glen_def gbytes_def unbe_be)
qed

section \<open>Account fields\<close>

lemma orPanic_getState:
  assumes "idx_ok s" and "visible E s key = Inr v"
  shows "\<exists>s'. orPanic what (getState E key) s = Inr (v, s') \<and> idx_ok s' \<and>
              visible E s' = visible E s"
  using getState_visible [OF assms(1), of E key] assms(2)
  by (auto simp: orPanic_def sbind_def sret_def)

lemma orPanic_getState_error:
  assumes "idx_ok s" and "visible E s key = Inl e"
  shows "orPanic what (getState E key) s = Inl (what @ '' failed: '' @ e)"
  using getState_visible [OF assms(1), of E key] assms(2)
  by (auto simp: orPanic_def sbind_def spanic_def)

lemma GetBalance_visible:
  assumes "idx_ok s" and "visible E s (accKey E a ''bal'') = Inr v"
  shows "\<exists>s'. GetBalance E a s = Inr (bytesToUint256 v, s') \<and> idx_ok s' \<and>
              visible E s' = visible E s"
  using orPanic_getState [OF assms, of "''GetBalance''"]
  by (auto simp: GetBalance_def sbind_def sret_def)

lemma GetNonce_visible:
  assumes "idx_ok s" and "visible E s (accKey E a ''nonce'') = Inr v" and "bytesToUint64 v = Inr n"
  shows "\<exists>s'. GetNonce E a s = Inr (n, s') \<and> idx_ok s' \<and> visible E s' = visible E s"
  using orPanic_getState [OF assms(1,2), of "''GetNonce''"] assms(3)
  by (auto simp: GetNonce_def sbind_def sret_def)

lemma GetCode_visible:
  assumes "idx_ok s" and "visible E s (accKey E a ''code'') = Inr v"
  shows "\<exists>s'. GetCode E a s = Inr (v, s') \<and> idx_ok s' \<and> visible E s' = visible E s"
  using orPanic_getState [OF assms, of "''GetCode''"] by (auto simp: GetCode_def)

lemma GetState_visible:
  assumes "idx_ok s" and "visible E s (storeKey E a sl) = Inr v"
  shows "\<exists>s'. GetState E a sl s = Inr (hashOf E v, s') \<and> idx_ok s' \<and>
              visible E s' = visible E s"
  using orPanic_getState [OF assms, of "''GetState''"]
  by (auto simp: GetState_def sbind_def sret_def)

lemma putState_total: "\<exists>s'. putState key v s = Inr ((), s')"
  by (simp add: putState_eq)

lemma putState_spec:
  "\<exists>s'. putState key v s = Inr ((), s') \<and> visible E s' = (visible E s)(key := Inr (normal v)) \<and>
        (idx_ok s \<longrightarrow> idx_ok s')"
  using putState_total [of key v s] putState_visible putState_idx_ok by blast

lemma AddBalance_visible:
  assumes "idx_ok s" and "visible E s (accKey E a ''bal'') = Inr v" and "x \<noteq> 0"
  shows "\<exists>s'. AddBalance E a x s = Inr (bytesToUint256 v, s') \<and> idx_ok s' \<and>
              visible E s' = (visible E s)(accKey E a ''bal'' :=
                Inr (normal (uint256ToBytes (bytesToUint256 v + x))))"
proof -
  obtain s1 where s1: "GetBalance E a s = Inr (bytesToUint256 v, s1)" "idx_ok s1"
    "visible E s1 = visible E s"
    using GetBalance_visible [OF assms(1,2)] by blast
  obtain s2 where "putState (accKey E a ''bal'') (uint256ToBytes (bytesToUint256 v + x)) s1 = Inr ((), s2)"
    "visible E s2 =
       (visible E s1)(accKey E a ''bal'' := Inr (normal (uint256ToBytes (bytesToUint256 v + x))))"
    "idx_ok s2"
    using putState_spec s1(2) by blast
  with s1 assms(3) show ?thesis
    by (simp add: AddBalance_def sbind_def sret_def)
qed

lemma SubBalance_AddBalance: "x \<noteq> 0 \<Longrightarrow> SubBalance E a x = AddBalance E a (- x)"
  by (simp add: SubBalance_def AddBalance_def)

section \<open>Keys\<close>

text \<open>Keys of different accounts, fields or slots differ when the hexadecimal forms are injective and
  of one length, as go-ethereum's checksummed 42-character addresses and 66-character hashes are.\<close>

definition hex_ok :: "sdb_env \<Rightarrow> bool" where
  "hex_ok E \<longleftrightarrow> inj (env_hexA E) \<and> inj (env_hexH E) \<and>
     (\<forall>a b. length (env_hexA E a) = length (env_hexA E b))"

lemma accKey_eq_iff [simp]:
  "hex_ok E \<Longrightarrow> accKey E a t = accKey E b u \<longleftrightarrow> a = b \<and> t = u"
  by (auto simp: accKey_def hex_ok_def inj_def)

lemma storeKey_eq_iff [simp]:
  "hex_ok E \<Longrightarrow> storeKey E a x = storeKey E b y \<longleftrightarrow> a = b \<and> x = y"
  by (auto simp: storeKey_def hex_ok_def inj_def)

lemma accKey_storeKey [simp]: "accKey E a t \<noteq> storeKey E b x" "storeKey E b x \<noteq> accKey E a t"
  by (simp_all add: accKey_def storeKey_def)

section \<open>A concrete environment\<close>

text \<open>The environment of the examples: addresses and hashes are printed as their bytes.\<close>

definition demo_env :: "(string \<Rightarrow> string \<Rightarrow> write_record option result) \<Rightarrow> sdb_env" where
  "demo_env get = \<lparr>env_hexA = (\<lambda>a. byte_string (be 20 (unat a))),
     env_hexH = (\<lambda>k. byte_string (be 32 (unat k))),
     env_bytesToHash = (\<lambda>bs. of_nat (unbe bs)), env_hashBytes = (\<lambda>k. be 32 (unat k)),
     env_addrBytes = (\<lambda>a. be 20 (unat a)), env_keccak = (\<lambda>bs. of_nat (length bs)), env_get = get\<rparr>"

definition demo_record :: "u64 \<Rightarrow> bytes \<Rightarrow> write_record" where
  "demo_record v bs = \<lparr>wr_namespace = ''ns'', wr_key = ''k'', wr_block = v, wr_tx = 0, wr_version = v,
     wr_value = Some bs, wr_isdelete = False, wr_txid = ''tx''\<rparr>"

definition no_records :: "string \<Rightarrow> string \<Rightarrow> write_record option result" where
  "no_records ns k = Inr None"

lemma hex_ok_demo [simp]: "hex_ok (demo_env get)"
proof -
  have "inj (\<lambda>a :: address. byte_string (be 20 (unat a)))"
  proof (rule injI)
    fix a b :: address
    assume "byte_string (be 20 (unat a)) = byte_string (be 20 (unat b))"
    then have "be 20 (unat a) = be 20 (unat b)" using inj_byte_string by (simp add: inj_eq)
    moreover have "unat a < 256 ^ 20" "unat b < 256 ^ 20"
      using unsigned_less [of a] unsigned_less [of b] by simp_all
    ultimately show "a = b" using be_inj by (metis unsigned_word_eqI)
  qed
  moreover have "inj (\<lambda>k :: hash. byte_string (be 32 (unat k)))"
  proof (rule injI)
    fix a b :: hash
    assume "byte_string (be 32 (unat a)) = byte_string (be 32 (unat b))"
    then have "be 32 (unat a) = be 32 (unat b)" using inj_byte_string by (simp add: inj_eq)
    moreover have "unat a < 256 ^ 32" "unat b < 256 ^ 32"
      using unsigned_less [of a] unsigned_less [of b] by simp_all
    ultimately show "a = b" using be_inj by (metis unsigned_word_eqI)
  qed
  ultimately show ?thesis
    by (simp add: hex_ok_def demo_env_def byte_string_def)
qed

lemma demo_env_simps [simp]:
  "env_get (demo_env get) = get" "demo_env get\<lparr>env_get := g\<rparr> = demo_env g"
  by (simp_all add: demo_env_def)

lemmas sdb_eval = sbind_def sret_def spanic_def Let_def NewStateDB_def getState_def
  getStateFromJournal_def getStateFromStore_def putState_def orPanic_def read_of_def glen_def gbytes_def
  bytesToUint256_def uint256ToBytes_def unbe_def demo_record_def no_records_def

end
