(* ===== verification/SdbCalls.thy ===== *)
theory SdbCalls
  imports SdbJournal
begin

text \<open>
  The \<open>vm.StateDB\<close> interface as the EVM sees it: one constructor of \<open>sdb_call\<close> per method, the value
  the caller receives as an \<open>sdb_ret\<close>, and \<open>sdb_exec\<close>, which dispatches a call to the model of the
  method.  The interpreter is outside the repository: it is any function \<open>next\<close> from the calls made so
  far and their results to the next call (\<open>evm_run\<close>).

  \<open>sm_sim\<close> compares the same computation on two stores, and the locale \<open>sdb_interface\<close> states what
  the methods rely on of the helpers \<open>getStateFromJournal\<close>, \<open>getStateFromStore\<close> and \<open>putState\<close> and
  of the methods that change the runtime state directly; every method, every call and every run is
  shown to satisfy the relation once, inside it.
\<close>

section \<open>Calls and runs\<close>

datatype sdb_call =
    CCreateAccount address
  | CCreateContract address
  | CGetBalance address
  | CAddBalance address u256
  | CSubBalance address u256
  | CGetNonce address
  | CSetNonce address u64
  | CGetCode address
  | CGetCodeHash address
  | CGetCodeSize address
  | CSetCode address "bytes option"
  | CGetState address hash
  | CGetStateAndCommittedState address hash
  | CSetState address hash hash
  | CGetStorageRoot address
  | CSelfDestruct address
  | CHasSelfDestructed address
  | CExist address
  | CEmpty address
  | CGetRefund
  | CAddRefund u64
  | CSubRefund u64
  | CAddLog eth_log
  | CSnapshot
  | CRevertToSnapshot int
  | CGetTransientState address hash
  | CSetTransientState address hash hash
  | CAddressInAccessList address
  | CSlotInAccessList address hash
  | CAddAddressToAccessList address
  | CAddSlotToAccessList address hash
  | CPrepare bool address address "address option" "address list" "(address \<times> hash list) list"
  | CIsNewContract address

datatype sdb_ret =
    RUnit
  | RBool bool
  | RBools bool bool
  | RU256 u256
  | RU64 u64
  | RSize nat
  | RBytes "bytes option"
  | RHash hash
  | RHashes hash hash
  | RId int

definition sreturns :: "('a \<Rightarrow> sdb_ret) \<Rightarrow> 'a sm \<Rightarrow> sdb_ret sm" where
  "sreturns k m = sbind m (\<lambda>v. sret (k v))"

definition sobserve :: "(statedb \<Rightarrow> sdb_ret) \<Rightarrow> sdb_ret sm" where
  "sobserve f s = Inr (f s, s)"

text \<open>
  The interpreter's SSTORE instruction drops the previous value that \<open>SetState\<close> returns (it prices the
  store with \<open>GetStateAndCommittedState\<close>), so the call returns nothing.
\<close>

fun sdb_exec :: "sdb_env \<Rightarrow> sdb_call \<Rightarrow> sdb_ret sm" where
  "sdb_exec E (CCreateAccount a) = sreturns (\<lambda>_. RUnit) (CreateAccount E a)"
| "sdb_exec E (CCreateContract a) = sreturns (\<lambda>_. RUnit) (CreateContract E a)"
| "sdb_exec E (CGetBalance a) = sreturns RU256 (GetBalance E a)"
| "sdb_exec E (CAddBalance a x) = sreturns RU256 (AddBalance E a x)"
| "sdb_exec E (CSubBalance a x) = sreturns RU256 (SubBalance E a x)"
| "sdb_exec E (CGetNonce a) = sreturns RU64 (GetNonce E a)"
| "sdb_exec E (CSetNonce a n) = sreturns (\<lambda>_. RUnit) (SetNonce E a n)"
| "sdb_exec E (CGetCode a) = sreturns RBytes (GetCode E a)"
| "sdb_exec E (CGetCodeHash a) = sreturns RHash (GetCodeHash E a)"
| "sdb_exec E (CGetCodeSize a) = sreturns RSize (GetCodeSize E a)"
| "sdb_exec E (CSetCode a c) = sreturns RBytes (SetCode E a c)"
| "sdb_exec E (CGetState a k) = sreturns RHash (GetState E a k)"
| "sdb_exec E (CGetStateAndCommittedState a k) =
     sreturns (\<lambda>(x, y). RHashes x y) (GetStateAndCommittedState E a k)"
| "sdb_exec E (CSetState a k v) = sreturns (\<lambda>_. RUnit) (SetState E a k v)"
| "sdb_exec E (CGetStorageRoot a) = sret (RHash (GetStorageRoot a))"
| "sdb_exec E (CSelfDestruct a) = sreturns (\<lambda>_. RUnit) (SelfDestruct E a)"
| "sdb_exec E (CHasSelfDestructed a) = sobserve (\<lambda>s. RBool (HasSelfDestructed a s))"
| "sdb_exec E (CExist a) = sreturns RBool (Exist E a)"
| "sdb_exec E (CEmpty a) = sreturns RBool (Empty E a)"
| "sdb_exec E CGetRefund = sobserve (\<lambda>s. RU64 (GetRefund s))"
| "sdb_exec E (CAddRefund g) = sreturns (\<lambda>_. RUnit) (AddRefund g)"
| "sdb_exec E (CSubRefund g) = sreturns (\<lambda>_. RUnit) (SubRefund g)"
| "sdb_exec E (CAddLog l) = sreturns (\<lambda>_. RUnit) (AddLog E l)"
| "sdb_exec E CSnapshot = sreturns RId Snapshot"
| "sdb_exec E (CRevertToSnapshot i) = sreturns (\<lambda>_. RUnit) (RevertToSnapshot i)"
| "sdb_exec E (CGetTransientState a k) = sobserve (\<lambda>s. RHash (GetTransientState a k s))"
| "sdb_exec E (CSetTransientState a k v) = sreturns (\<lambda>_. RUnit) (SetTransientState a k v)"
| "sdb_exec E (CAddressInAccessList a) = sobserve (\<lambda>s. RBool (AddressInAccessList a s))"
| "sdb_exec E (CSlotInAccessList a k) =
     (\<lambda>s. case SlotInAccessList a k s of
            None \<Rightarrow> Inl ''index out of range'' | Some (x, y) \<Rightarrow> Inr (RBools x y, s))"
| "sdb_exec E (CAddAddressToAccessList a) = sreturns (\<lambda>_. RUnit) (AddAddressToAccessList a)"
| "sdb_exec E (CAddSlotToAccessList a k) = sreturns (\<lambda>_. RUnit) (AddSlotToAccessList a k)"
| "sdb_exec E (CPrepare sh a c d ps tas) = sreturns (\<lambda>_. RUnit) (Prepare sh a c d ps tas)"
| "sdb_exec E (CIsNewContract a) = sobserve (\<lambda>s. RBool (IsNewContract a s))"

fun exec_all :: "sdb_env \<Rightarrow> sdb_call list \<Rightarrow> statedb \<Rightarrow> statedb result" where
  "exec_all E [] s = Inr s"
| "exec_all E (c # cs) s =
     (case sdb_exec E c s of Inl e \<Rightarrow> Inl e | Inr (r, s') \<Rightarrow> exec_all E cs s')"

type_synonym history = "(sdb_call \<times> sdb_ret) list"

primrec evm_run ::
    "sdb_env \<Rightarrow> (history \<Rightarrow> sdb_call option) \<Rightarrow> nat \<Rightarrow> history \<Rightarrow> statedb
       \<Rightarrow> (history \<times> statedb) result" where
  "evm_run E next 0 h s = Inr (h, s)"
| "evm_run E next (Suc n) h s =
     (case next h of
        None \<Rightarrow> Inr (h, s)
      | Some c \<Rightarrow> (case sdb_exec E c s of
                      Inl e \<Rightarrow> Inl e
                    | Inr (r, s') \<Rightarrow> evm_run E next n (h @ [(c, r)]) s'))"

section \<open>Comparing a computation on two stores\<close>

definition sm_sim ::
    "(statedb \<Rightarrow> statedb \<Rightarrow> bool) \<Rightarrow> (statedb \<Rightarrow> statedb \<Rightarrow> bool) \<Rightarrow> 'a sm \<Rightarrow> 'a sm \<Rightarrow> bool" where
  "sm_sim Q A m1 m2 \<longleftrightarrow>
     (\<forall>s v s'. m1 s = Inr (v, s') \<longrightarrow> Q s s' \<and> (A s s' \<longrightarrow> m2 s = Inr (v, s')))"

fun plain_call :: "sdb_call \<Rightarrow> bool" where
  "plain_call (CRevertToSnapshot i) = False"
| "plain_call (CPrepare sh a c d ps tas) = False"
| "plain_call c = True"

fun is_revert :: "sdb_call \<Rightarrow> bool" where
  "is_revert (CRevertToSnapshot i) = True"
| "is_revert c = False"

lemma exec_all_append:
  "exec_all E (xs @ ys) s = (case exec_all E xs s of Inl e \<Rightarrow> Inl e | Inr s' \<Rightarrow> exec_all E ys s')"
  by (induction E xs s rule: exec_all.induct) (auto split: sum.splits)

lemma evm_run_history: "evm_run E next n h s = Inr (h', s') \<Longrightarrow> prefix h h'"
proof (induction n arbitrary: h s)
  case 0
  then show ?case by simp
next
  case (Suc n)
  then show ?case
    by (auto split: option.splits sum.splits dest!: Suc.IH append_prefixD)
qed

lemma sm_simI:
  "(\<And>s v s'. m1 s = Inr (v, s') \<Longrightarrow> Q s s' \<and> (A s s' \<longrightarrow> m2 s = Inr (v, s'))) \<Longrightarrow> sm_sim Q A m1 m2"
  by (simp add: sm_sim_def)

lemma sm_simD:
  "sm_sim Q A m1 m2 \<Longrightarrow> m1 s = Inr (v, s') \<Longrightarrow> Q s s' \<and> (A s s' \<longrightarrow> m2 s = Inr (v, s'))"
  by (simp add: sm_sim_def)

text \<open>
  What the methods rely on.  \<open>Q\<close> is a reflexive and transitive relation that every primitive
  establishes between the state before and after; \<open>A\<close> is the condition under which the second store
  (\<open>E\<close> with \<open>g\<close> for its \<open>Get\<close>) gives the same step, and holds of the parts of a computation when it
  holds of the whole.
\<close>

locale sdb_interface =
  fixes Q :: "statedb \<Rightarrow> statedb \<Rightarrow> bool"
    and A :: "statedb \<Rightarrow> statedb \<Rightarrow> bool"
    and E :: sdb_env
    and g :: "string \<Rightarrow> string \<Rightarrow> write_record option result"
  assumes Q_refl: "Q s s"
    and Q_trans: "Q s t \<Longrightarrow> Q t u \<Longrightarrow> Q s u"
    and A_split: "Q s t \<Longrightarrow> Q t u \<Longrightarrow> A s u \<Longrightarrow> A s t \<and> A t u"
    and journal_read: "sm_sim Q A (getStateFromJournal key) (getStateFromJournal key)"
    and store_read: "sm_sim Q A (getStateFromStore E key) (getStateFromStore (E\<lparr>env_get := g\<rparr>) key)"
    and put: "sm_sim Q A (putState key val) (putState key val)"
    and blind_set: "sm_sim Q A (sreturns (\<lambda>_. RUnit) (SetState E a k v))
                               (sreturns (\<lambda>_. RUnit) (SetState (E\<lparr>env_get := g\<rparr>) a k v))"
    and mark_new: "sm_sim Q A (markNewContract a) (markNewContract a)"
    and mark_destroyed: "sm_sim Q A (markSelfDestructed a) (markSelfDestructed a)"
    and add_refund: "sm_sim Q A (AddRefund gas) (AddRefund gas)"
    and sub_refund: "sm_sim Q A (SubRefund gas) (SubRefund gas)"
    and add_log: "sm_sim Q A (AddLog E l) (AddLog E l)"
    and take_snapshot: "sm_sim Q A Snapshot Snapshot"
    and set_transient: "sm_sim Q A (SetTransientState a k v) (SetTransientState a k v)"
    and add_address: "sm_sim Q A (AddAddressToAccessList a) (AddAddressToAccessList a)"
    and add_slot: "sm_sim Q A (AddSlotToAccessList a k) (AddSlotToAccessList a k)"
begin

abbreviation sim :: "'a sm \<Rightarrow> 'a sm \<Rightarrow> bool" where
  "sim \<equiv> sm_sim Q A"

abbreviation E' :: sdb_env where
  "E' \<equiv> E\<lparr>env_get := g\<rparr>"

lemma sim_ret: "sim (sret v) (sret v)"
  by (simp add: sm_sim_def sret_def Q_refl)

lemma sim_panic: "sim (spanic e) m"
  by (simp add: sm_sim_def spanic_def)

lemma sim_observe: "sim (sobserve f) (sobserve f)"
  by (simp add: sm_sim_def sobserve_def Q_refl)

lemma sim_bind:
  assumes m: "sim m1 m2" and f: "\<And>v. sim (f1 v) (f2 v)"
  shows "sim (sbind m1 f1) (sbind m2 f2)"
proof (rule sm_simI)
  fix s v s'
  assume "sbind m1 f1 s = Inr (v, s')"
  then obtain w t where 1: "m1 s = Inr (w, t)" and 2: "f1 w t = Inr (v, s')"
    by (auto simp: sbind_def split: sum.splits prod.splits)
  from sm_simD [OF m 1] sm_simD [OF f 2]
  show "Q s s' \<and> (A s s' \<longrightarrow> sbind m2 f2 s = Inr (v, s'))"
    using Q_trans [of s t s'] A_split [of s t s'] by (auto simp: sbind_def)
qed

lemma sim_returns: "sim m1 m2 \<Longrightarrow> sim (sreturns k m1) (sreturns k m2)"
  unfolding sreturns_def by (intro sim_bind sim_ret)

lemma sim_if: "sim x1 x2 \<Longrightarrow> sim y1 y2 \<Longrightarrow> sim (if b then x1 else y1) (if b then x2 else y2)"
  by simp

lemma keys_env [simp]: "accKey E' a t = accKey E a t" "storeKey E' a sl = storeKey E a sl"
  "hashOf E' v = hashOf E v" "env_keccak E' = env_keccak E"
  by (simp_all add: accKey_def storeKey_def hashOf_def)

lemmas sim_rules = sim_bind sim_ret sim_panic sim_observe sim_returns sim_if
  journal_read store_read put mark_new mark_destroyed add_refund sub_refund add_log take_snapshot
  set_transient add_address add_slot

lemma sim_getState: "sim (getState E key) (getState E' key)"
  unfolding getState_def by (intro sim_rules) (auto intro!: sim_rules split: prod.split)

lemma sim_orPanic: "sim m1 m2 \<Longrightarrow> sim (orPanic what m1) (orPanic what m2)"
  unfolding orPanic_def by (intro sim_bind) (auto intro!: sim_rules split: sum.split)

lemma sim_GetBalance: "sim (GetBalance E a) (GetBalance E' a)"
  unfolding GetBalance_def keys_env by (intro sim_rules sim_orPanic sim_getState)

lemma sim_GetNonce: "sim (GetNonce E a) (GetNonce E' a)"
  unfolding GetNonce_def keys_env
  by (intro sim_bind sim_orPanic sim_getState) (auto intro!: sim_rules split: sum.split)

lemma sim_GetCode: "sim (GetCode E a) (GetCode E' a)"
  unfolding GetCode_def keys_env by (intro sim_orPanic sim_getState)

lemma sim_Exist: "sim (Exist E a) (Exist E' a)"
  unfolding Exist_def exist_field_def keys_env
  by (auto intro!: sim_rules sim_getState split: sum.split option.split)

lemma sim_CreateAccount: "sim (CreateAccount E a) (CreateAccount E' a)"
  unfolding CreateAccount_def keys_env by (intro sim_rules)

lemma sim_CreateContract: "sim (CreateContract E a) (CreateContract E' a)"
  unfolding CreateContract_def keys_env by (intro sim_rules)

lemma sim_AddBalance: "sim (AddBalance E a x) (AddBalance E' a x)"
  unfolding AddBalance_def keys_env by (intro sim_rules sim_GetBalance)

lemma sim_SubBalance: "sim (SubBalance E a x) (SubBalance E' a x)"
  unfolding SubBalance_def keys_env by (intro sim_rules sim_GetBalance)

lemma sim_SetNonce: "sim (SetNonce E a n) (SetNonce E' a n)"
  unfolding SetNonce_def keys_env by (intro sim_rules)

lemma sim_GetCodeHash: "sim (GetCodeHash E a) (GetCodeHash E' a)"
  unfolding GetCodeHash_def keys_env by (intro sim_rules sim_Exist sim_GetCode)

lemma sim_GetCodeSize: "sim (GetCodeSize E a) (GetCodeSize E' a)"
  unfolding GetCodeSize_def by (intro sim_rules sim_GetCode)

lemma sim_SetCode: "sim (SetCode E a c) (SetCode E' a c)"
  unfolding SetCode_def keys_env by (intro sim_rules sim_GetCode)

lemma sim_GetState: "sim (GetState E a k) (GetState E' a k)"
  unfolding GetState_def keys_env by (intro sim_rules sim_orPanic sim_getState)

lemma sim_GetStateAndCommittedState:
  "sim (GetStateAndCommittedState E a k) (GetStateAndCommittedState E' a k)"
  unfolding GetStateAndCommittedState_def keys_env Let_def
  by (auto intro!: sim_rules sim_orPanic split: prod.split)

lemma sim_SelfDestruct: "sim (SelfDestruct E a) (SelfDestruct E' a)"
  unfolding SelfDestruct_def keys_env by (intro sim_rules sim_GetBalance)

lemma sim_Empty: "sim (Empty E a) (Empty E' a)"
  unfolding Empty_def by (intro sim_rules sim_GetBalance sim_GetNonce sim_GetCodeSize)

lemma sim_AddLog: "sim (AddLog E l) (AddLog E' l)"
proof -
  have "AddLog E' l = AddLog E l"
    by (rule ext) (simp add: AddLog_def)
  then show ?thesis by (simp add: add_log)
qed

lemma sim_SlotInAccessList: "sim (sdb_exec E (CSlotInAccessList a k)) (sdb_exec E' (CSlotInAccessList a k))"
  by (auto simp: sm_sim_def Q_refl split: option.splits)

lemma sim_exec: "plain_call c \<Longrightarrow> sim (sdb_exec E c) (sdb_exec E' c)"
  by (cases c)
    (simp_all only: sdb_exec.simps plain_call.simps simp_thms,
     (intro sim_rules blind_set sim_GetBalance sim_GetNonce sim_GetCode sim_Exist sim_CreateAccount
       sim_CreateContract sim_AddBalance sim_SubBalance sim_SetNonce sim_GetCodeHash sim_GetCodeSize
       sim_SetCode sim_GetState sim_GetStateAndCommittedState sim_SelfDestruct sim_Empty sim_AddLog
       sim_SlotInAccessList [unfolded sdb_exec.simps])+)

lemma exec_Q: "plain_call c \<Longrightarrow> sdb_exec E c s = Inr (r, s') \<Longrightarrow> Q s s'"
  using sm_simD [OF sim_exec] by blast

end

text \<open>A relation that \<open>Prepare\<close> establishes too is established by every run without reverts.\<close>

locale sdb_program = sdb_interface +
  assumes prepare: "sm_sim Q A (Prepare sh sn cb d ps tas) (Prepare sh sn cb d ps tas)"
begin

lemma sim_call: "\<not> is_revert c \<Longrightarrow> sim (sdb_exec E c) (sdb_exec E' c)"
  by (cases "plain_call c", erule sim_exec, cases c) (simp_all add: sim_returns prepare)

lemma run_sim:
  "evm_run E next n h s = Inr (h', s') \<Longrightarrow> \<forall>(c, r) \<in> set h'. \<not> is_revert c \<Longrightarrow>
     Q s s' \<and> (A s s' \<longrightarrow> evm_run E' next n h s = Inr (h', s'))"
proof (induction n arbitrary: h s)
  case 0
  then show ?case by (simp add: Q_refl)
next
  case (Suc n)
  show ?case
  proof (cases "next h")
    case None
    with Suc.prems show ?thesis by (simp add: Q_refl)
  next
    case (Some c)
    with Suc.prems(1) obtain r t where step: "sdb_exec E c s = Inr (r, t)"
      and rest: "evm_run E next n (h @ [(c, r)]) t = Inr (h', s')"
      by (auto split: sum.splits)
    have "(c, r) \<in> set h'"
      using evm_run_history [OF rest] by (auto simp: prefix_def)
    with Suc.prems(2) have "\<not> is_revert c" by auto
    note 1 = sm_simD [OF sim_call [OF this] step] and 2 = Suc.IH [OF rest Suc.prems(2)]
    have "Q s s'" using 1 2 Q_trans [of s t s'] by simp
    moreover have "evm_run E' next (Suc n) h s = Inr (h', s')" if "A s s'"
      using 1 2 Some A_split [of s t s'] that by simp
    ultimately show ?thesis by simp
  qed
qed

end

end
