(* ===== verification/SdbRevert.thy ===== *)
theory SdbRevert
  imports SdbCalls
begin

text \<open>
  Snapshots and reverts.  \<open>sview\<close> is the runtime state that reverts restore (refund counter, newly
  created contracts, transient storage, access list) as plain functions and sets; \<open>vundo\<close> is what
  undoing one journal entry means for it.  The locale \<open>undo_journal\<close> states the contract of a
  journal with a truncating revert and derives that everything since a point is undone;
  \<open>StateDB\<close>'s journal is shown to meet it, and \<open>grows\<close> says that each method only appends entries
  that undo its effect.
\<close>

section \<open>Definitions\<close>

record sview =
  v_refund :: u64
  v_newContracts :: "address set"
  v_transient :: "address \<Rightarrow> hash \<Rightarrow> hash"
  v_addrs :: "address set"
  v_slots :: "(address \<times> hash) set"

definition al_addrs :: "access_list \<Rightarrow> address set" where
  "al_addrs al = dom (al_addresses al)"

definition al_pairs :: "access_list \<Rightarrow> (address \<times> hash) set" where
  "al_pairs al = {(a, k). \<exists>i. al_addresses al a = Some i \<and> i \<noteq> -1 \<and> k \<in> al_slots al ! nat i}"

definition sdb_view :: "statedb \<Rightarrow> sview" where
  "sdb_view s =
     \<lparr>v_refund = sdb_refund s, v_newContracts = sdb_newContracts s,
      v_transient = (\<lambda>a k. GetTransientState a k s),
      v_addrs = al_addrs (sdb_accessList s), v_slots = al_pairs (sdb_accessList s)\<rparr>"

fun vundo :: "entry \<Rightarrow> sview \<Rightarrow> sview" where
  "vundo (RefundEntry p) v = v\<lparr>v_refund := p\<rparr>"
| "vundo (NewContractEntry a) v = v\<lparr>v_newContracts := v_newContracts v - {a}\<rparr>"
| "vundo (TransientStorageChange a k p) v =
     v\<lparr>v_transient := (v_transient v)(a := (v_transient v a)(k := p))\<rparr>"
| "vundo (AccessListAddAddressEntry a) v =
     v\<lparr>v_addrs := v_addrs v - {a}, v_slots := v_slots v - {a} \<times> UNIV\<rparr>"
| "vundo (AccessListAddSlotEntry a k) v = v\<lparr>v_slots := v_slots v - {(a, k)}\<rparr>"
| "vundo (ReadEntry r) v = v"
| "vundo (WriteEntry w) v = v"
| "vundo (SelfDestructEntry a) v = v"

definition undone :: "('e \<Rightarrow> 'v \<Rightarrow> 'v) \<Rightarrow> 'e list \<Rightarrow> 'v \<Rightarrow> 'v" where
  "undone undo es v = foldr undo es v"

definition revert_to :: "nat \<Rightarrow> statedb \<Rightarrow> statedb option" where
  "revert_to n s =
     map_option (\<lambda>s'. s'\<lparr>sdb_journal := take n (sdb_journal s)\<rparr>)
       (revert_entries (rev (drop n (sdb_journal s))) s)"

definition grows :: "statedb \<Rightarrow> statedb \<Rightarrow> bool" where
  "grows s s' \<longleftrightarrow> (sdb_wf s \<longrightarrow>
     sdb_wf s' \<and>
     (\<exists>es. sdb_journal s' = sdb_journal s @ es \<and> sdb_view s = undone vundo es (sdb_view s')) \<and>
     prefix (sdb_logs s) (sdb_logs s') \<and>
     (\<exists>rs. sdb_validRevisions s' = sdb_validRevisions s @ rs \<and>
        (\<forall>r \<in> set rs. sdb_nextRevisionId s \<le> rv_id r \<and>
           length (sdb_journal s) \<le> rv_journalIndex r \<and> length (sdb_logs s) \<le> rv_logIndex r)) \<and>
     sdb_nextRevisionId s \<le> sdb_nextRevisionId s')"

text \<open>The calls allowed between a snapshot and the revert to it.\<close>

fun inner_call :: "int \<Rightarrow> sdb_call \<Rightarrow> bool" where
  "inner_call sid (CRevertToSnapshot i) \<longleftrightarrow> sid < i"
| "inner_call sid (CPrepare sh a c d ps tas) \<longleftrightarrow> False"
| "inner_call sid c \<longleftrightarrow> True"

section \<open>A journal with a truncating revert\<close>

locale undo_journal =
  fixes J :: "'s \<Rightarrow> 'e list"
    and view :: "'s \<Rightarrow> 'v"
    and undo :: "'e \<Rightarrow> 'v \<Rightarrow> 'v"
    and inv :: "'s \<Rightarrow> bool"
    and revert :: "nat \<Rightarrow> 's \<Rightarrow> 's option"
  assumes revert_law: "inv s \<Longrightarrow> n \<le> length (J s) \<Longrightarrow>
     \<exists>s'. revert n s = Some s' \<and> inv s' \<and> J s' = take n (J s) \<and>
          view s' = undone undo (drop n (J s)) (view s)"
begin

definition since :: "'s \<Rightarrow> 's \<Rightarrow> bool" where
  "since s0 s \<longleftrightarrow> (\<exists>es. J s = J s0 @ es \<and> view s0 = undone undo es (view s))"

lemma since_refl: "since s s"
  by (simp add: since_def undone_def)

lemma since_trans: "since s t \<Longrightarrow> since t u \<Longrightarrow> since s u"
  unfolding since_def undone_def by (force simp: foldr_append)

lemma since_revert:
  assumes "since s0 s" and "inv s" and "length (J s0) \<le> n" and "n \<le> length (J s)"
    and "revert n s = Some s'"
  shows "since s0 s'"
proof -
  obtain es where es: "J s = J s0 @ es" "view s0 = undone undo es (view s)"
    using assms(1) by (auto simp: since_def)
  define m where "m = n - length (J s0)"
  have "J s' = J s0 @ take m es" "view s' = undone undo (drop m es) (view s)"
    using revert_law [OF assms(2,4)] assms(3,5) es(1) by (auto simp: m_def)
  moreover have "undone undo (take m es) (undone undo (drop m es) (view s)) = view s0"
    by (metis es(2) append_take_drop_id comp_apply foldr_append undone_def)
  ultimately show ?thesis
    by (auto simp: since_def)
qed

lemma revert_restores:
  assumes "since s0 s" and "inv s"
  shows "\<exists>s'. revert (length (J s0)) s = Some s' \<and> inv s' \<and> J s' = J s0 \<and> view s' = view s0"
  using assms revert_law [OF assms(2), of "length (J s0)"] by (auto simp: since_def)

end

section \<open>The access list as a set\<close>

lemma al_wf_new: "al_wf newAccessList"
  by (simp add: al_wf_def newAccessList_def)

lemma containsAddress_iff: "containsAddress al a \<longleftrightarrow> a \<in> al_addrs al"
  by (auto simp: containsAddress_def al_addrs_def)

lemma al_contains_eq:
  "al_wf al \<Longrightarrow> al_contains al a k = Some (a \<in> al_addrs al, (a, k) \<in> al_pairs al)"
  by (auto simp: al_contains_def al_addrs_def al_pairs_def al_wf_def split: option.split)

lemma addAddress_set:
  assumes "al_wf al"
  shows "al_wf (addAddress al a)" "al_addrs (addAddress al a) = insert a (al_addrs al)"
    "al_pairs (addAddress al a) = al_pairs al"
  using assms
  by (auto simp: addAddress_def al_wf_def al_addrs_def al_pairs_def split: option.split if_splits)

lemma addSlot_set:
  assumes "al_wf al"
  shows "\<exists>al'. addSlot al a k = Some al' \<and> al_wf al' \<and>
     al_addrs al' = insert a (al_addrs al) \<and> al_pairs al' = insert (a, k) (al_pairs al)"
proof (cases "\<exists>i. al_addresses al a = Some i \<and> i \<noteq> -1")
  case True
  then obtain i where i: "al_addresses al a = Some i" "i \<noteq> -1" by auto
  with assms have r: "0 \<le> i" "nat i < length (al_slots al)"
    by (auto simp: al_wf_def)
  have other: "nat j \<noteq> nat i" if "al_addresses al b = Some j" "j \<noteq> -1" "b \<noteq> a" for b j
    using assms i r that unfolding al_wf_def by (metis eq_nat_nat_iff)
  show ?thesis
    using assms i r other
    by (auto simp: addSlot_def al_wf_def al_addrs_def al_pairs_def nth_list_update) metis+
next
  case False
  have lt: "nat j < length (al_slots al)" if "al_addresses al b = Some j" "j \<noteq> -1" for b j
    using assms that by (auto simp: al_wf_def)
  have ge: "j \<noteq> int (length (al_slots al))" if "al_addresses al b = Some j" for b j
    using assms that by (fastforce simp: al_wf_def)
  from False show ?thesis
    using assms lt ge
    by (cases "al_addresses al a")
      (auto simp: addSlot_def al_wf_def al_addrs_def al_pairs_def nth_append less_Suc_eq
        split: if_splits; fastforce)+
qed

lemma deleteAddress_set:
  assumes "al_wf al"
  shows "al_wf (deleteAddress al a)" "al_addrs (deleteAddress al a) = al_addrs al - {a}"
    "al_pairs (deleteAddress al a) = al_pairs al - {a} \<times> UNIV"
  using assms by (auto simp: deleteAddress_def al_wf_def al_addrs_def al_pairs_def split: if_splits)

lemma deleteSlot_set:
  assumes "al_wf al"
  shows "\<exists>al'. deleteSlot al a k = Some al' \<and> al_wf al' \<and>
     al_addrs al' = al_addrs al \<and> al_pairs al' = al_pairs al - {(a, k)}"
proof (cases "\<exists>i. al_addresses al a = Some i \<and> i \<noteq> -1")
  case True
  then obtain i where i: "al_addresses al a = Some i" "i \<noteq> -1" by auto
  with assms have r: "0 \<le> i" "nat i < length (al_slots al)"
    by (auto simp: al_wf_def)
  have other: "nat j \<noteq> nat i" if "al_addresses al b = Some j" "j \<noteq> -1" "b \<noteq> a" for b j
    using assms i r that unfolding al_wf_def by (metis eq_nat_nat_iff)
  show ?thesis
    using assms i r other
    by (auto simp: deleteSlot_def al_wf_def al_addrs_def al_pairs_def nth_list_update
        split: if_splits) metis
next
  case False
  with assms show ?thesis
    by (auto simp: deleteSlot_def al_wf_def al_addrs_def al_pairs_def split: option.split)
qed

section \<open>Undoing journal entries\<close>

lemma GetTransientState_set_transient:
  "GetTransientState a k (set_transient b l v s) = (if a = b \<and> k = l then v else GetTransientState a k s)"
  by (auto simp: GetTransientState_def set_transient_def Let_def split: option.split)

lemma GetTransientState_cong:
  "sdb_transient s = sdb_transient t \<Longrightarrow> GetTransientState a k s = GetTransientState a k t"
  by (simp add: GetTransientState_def)

lemma revert_entry_law:
  assumes "al_wf (sdb_accessList s)"
  shows "\<exists>s'. revert_entry e s = Some s' \<and> al_wf (sdb_accessList s') \<and>
     sdb_view s' = vundo e (sdb_view s) \<and> sdb_journal s' = sdb_journal s \<and>
     sdb_logs s' = sdb_logs s \<and> sdb_validRevisions s' = sdb_validRevisions s \<and>
     sdb_nextRevisionId s' = sdb_nextRevisionId s \<and> sdb_namespace s' = sdb_namespace s \<and>
     sdb_monotonic s' = sdb_monotonic s"
proof (cases e)
  case (AccessListAddSlotEntry a k)
  with deleteSlot_set [OF assms, of a k] show ?thesis
    by (auto simp: sdb_view_def GetTransientState_def)
next
  case (TransientStorageChange a k p)
  then show ?thesis
    using assms
    by (auto simp: sdb_view_def GetTransientState_set_transient fun_eq_iff set_transient_def Let_def
        GetTransientState_def split: option.split)
qed (use assms deleteAddress_set [OF assms] in \<open>auto simp: sdb_view_def GetTransientState_def\<close>)

lemma revert_entries_law:
  assumes "al_wf (sdb_accessList s)"
  shows "\<exists>s'. revert_entries es s = Some s' \<and> al_wf (sdb_accessList s') \<and>
     sdb_view s' = undone vundo (rev es) (sdb_view s) \<and> sdb_journal s' = sdb_journal s \<and>
     sdb_logs s' = sdb_logs s \<and> sdb_validRevisions s' = sdb_validRevisions s \<and>
     sdb_nextRevisionId s' = sdb_nextRevisionId s \<and> sdb_namespace s' = sdb_namespace s \<and>
     sdb_monotonic s' = sdb_monotonic s"
  using assms
proof (induction es arbitrary: s)
  case Nil
  then show ?case by (simp add: undone_def)
next
  case (Cons e es)
  obtain t where t: "revert_entry e s = Some t" "al_wf (sdb_accessList t)"
    "sdb_view t = vundo e (sdb_view s)" "sdb_journal t = sdb_journal s" "sdb_logs t = sdb_logs s"
    "sdb_validRevisions t = sdb_validRevisions s" "sdb_nextRevisionId t = sdb_nextRevisionId s"
    "sdb_namespace t = sdb_namespace s" "sdb_monotonic t = sdb_monotonic s"
    using revert_entry_law [OF Cons.prems, of e] by blast
  with Cons.IH [OF t(2)] show ?case
    by (auto simp: undone_def)
qed

lemma sdb_view_journal [simp]: "sdb_view (s\<lparr>sdb_journal := j\<rparr>) = sdb_view s"
  by (simp add: sdb_view_def GetTransientState_def)

interpretation sj: undo_journal sdb_journal sdb_view vundo "\<lambda>s. al_wf (sdb_accessList s)" revert_to
proof unfold_locales
  fix s :: statedb and n :: nat
  assume "al_wf (sdb_accessList s)"
  from revert_entries_law [OF this, of "rev (drop n (sdb_journal s))"]
  show "\<exists>s'. revert_to n s = Some s' \<and> al_wf (sdb_accessList s') \<and>
          sdb_journal s' = take n (sdb_journal s) \<and>
          sdb_view s' = undone vundo (drop n (sdb_journal s)) (sdb_view s)"
    by (auto simp: revert_to_def)
qed

section \<open>Every method appends entries that undo it\<close>

lemma sm_sim_unary:
  "sm_sim Q (\<lambda>_ _. False) m1 m2 \<longleftrightarrow> (\<forall>s v s'. m1 s = Inr (v, s') \<longrightarrow> Q s s')"
  by (simp add: sm_sim_def)

lemma undone_Nil [simp]: "undone undo [] v = v"
  by (simp add: undone_def)

lemma undone_Cons [simp]: "undone undo (e # es) v = undo e (undone undo es v)"
  by (simp add: undone_def)

lemma grows_refl: "grows s s"
  by (auto simp: grows_def)

lemma grows_since: "grows s s' \<Longrightarrow> sdb_wf s \<Longrightarrow> sj.since s s'"
  by (simp add: grows_def sj.since_def)

lemma grows_trans:
  assumes st: "grows s t" and tu: "grows t u"
  shows "grows s u"
  unfolding grows_def
proof (intro impI conjI)
  assume wf: "sdb_wf s"
  then have wt: "sdb_wf t" using st by (simp add: grows_def)
  from wt tu show "sdb_wf u" by (simp add: grows_def)
  have "sj.since s u"
    using grows_since [OF st wf] grows_since [OF tu wt] by (rule sj.since_trans)
  then show "\<exists>es. sdb_journal u = sdb_journal s @ es \<and> sdb_view s = undone vundo es (sdb_view u)"
    by (simp add: sj.since_def)
  show "prefix (sdb_logs s) (sdb_logs u)"
    using st tu wf wt by (auto simp: grows_def)
  have le: "length (sdb_journal s) \<le> length (sdb_journal t)" "length (sdb_logs s) \<le> length (sdb_logs t)"
    "sdb_nextRevisionId s \<le> sdb_nextRevisionId t"
    using st wf by (auto simp: grows_def dest: prefix_length_le)
  show "sdb_nextRevisionId s \<le> sdb_nextRevisionId u"
    using st tu wf wt by (auto simp: grows_def)
  obtain rs where rs: "sdb_validRevisions t = sdb_validRevisions s @ rs"
    "\<forall>r \<in> set rs. sdb_nextRevisionId s \<le> rv_id r \<and> length (sdb_journal s) \<le> rv_journalIndex r \<and>
       length (sdb_logs s) \<le> rv_logIndex r"
    using st wf by (auto simp: grows_def)
  obtain qs where qs: "sdb_validRevisions u = sdb_validRevisions t @ qs"
    "\<forall>r \<in> set qs. sdb_nextRevisionId t \<le> rv_id r \<and> length (sdb_journal t) \<le> rv_journalIndex r \<and>
       length (sdb_logs t) \<le> rv_logIndex r"
    using tu wt by (auto simp: grows_def)
  show "\<exists>rs. sdb_validRevisions u = sdb_validRevisions s @ rs \<and>
     (\<forall>r \<in> set rs. sdb_nextRevisionId s \<le> rv_id r \<and> length (sdb_journal s) \<le> rv_journalIndex r \<and>
        length (sdb_logs s) \<le> rv_logIndex r)"
    using rs qs le by (intro exI [of _ "rs @ qs"]) fastforce
qed

lemma journal_index_append_other:
  "\<forall>e \<in> set es. \<forall>w. e \<noteq> WriteEntry w \<Longrightarrow> journal_index (js @ es) = journal_index js"
proof (induction es rule: rev_induct)
  case Nil
  then show ?case by simp
next
  case (snoc e es)
  then show ?case
    using journal_index_snoc_other [of e "js @ es"] by simp
qed

lemma idx_ok_append:
  "idx_ok s \<Longrightarrow> sdb_writeIdx s' = sdb_writeIdx s \<Longrightarrow> sdb_journal s' = sdb_journal s @ es \<Longrightarrow>
     \<forall>e \<in> set es. \<forall>w. e \<noteq> WriteEntry w \<Longrightarrow> idx_ok s'"
  by (auto simp: idx_ok_def journal_index_append_other split: option.splits)

lemma grows_append:
  assumes "sdb_journal s' = sdb_journal s @ es"
    and "sdb_wf s \<Longrightarrow> sdb_view s = undone vundo es (sdb_view s')"
    and "sdb_logs s' = sdb_logs s" and "sdb_validRevisions s' = sdb_validRevisions s"
    and "sdb_nextRevisionId s' = sdb_nextRevisionId s"
    and "sdb_wf s \<Longrightarrow> idx_ok s'" and "sdb_wf s \<Longrightarrow> al_wf (sdb_accessList s')"
  shows "grows s s'"
  using assms by (fastforce simp: grows_def sdb_wf_def revs_ok_def)

lemma grows_runtime:
  assumes "sdb_journal s' = sdb_journal s @ es"
    and "sdb_wf s \<Longrightarrow> sdb_view s = undone vundo es (sdb_view s')"
    and "sdb_logs s' = sdb_logs s" and "sdb_validRevisions s' = sdb_validRevisions s"
    and "sdb_nextRevisionId s' = sdb_nextRevisionId s"
    and "sdb_writeIdx s' = sdb_writeIdx s" and "\<forall>e \<in> set es. \<forall>w. e \<noteq> WriteEntry w"
    and "sdb_wf s \<Longrightarrow> al_wf (sdb_accessList s')"
  shows "grows s s'"
  by (rule grows_append [OF assms(1-5)]) (use assms in \<open>auto simp: sdb_wf_def intro: idx_ok_append\<close>)

lemmas view_simps = sdb_view_def GetTransientState_def sdb_wf_def

lemma grows_journal_read: "getStateFromJournal key s = Inr (v, s') \<Longrightarrow> grows s s'"
proof (rule grows_append [where es = "[]"])
  assume r: "getStateFromJournal key s = Inr (v, s')"
  then have eq: "\<exists>m. s' = s\<lparr>sdb_writeIdx := m\<rparr>"
    by (auto simp: getStateFromJournal_def Let_def split: option.splits if_splits entry.splits)
  then show "sdb_journal s' = sdb_journal s @ []" "sdb_logs s' = sdb_logs s"
    "sdb_validRevisions s' = sdb_validRevisions s" "sdb_nextRevisionId s' = sdb_nextRevisionId s"
    by auto
  assume wf: "sdb_wf s"
  from eq wf show "sdb_view s = undone vundo [] (sdb_view s')" "al_wf (sdb_accessList s')"
    by (auto simp: view_simps)
  from wf r show "idx_ok s'"
    by (simp add: getStateFromJournal_scan sdb_wf_def) auto
qed

lemma grows_store_read: "getStateFromStore E key s = Inr (v, s') \<Longrightarrow> grows s s'"
  by (auto simp: getStateFromStore_def view_simps intro: grows_refl intro!: grows_runtime
      split: sum.splits)

lemma grows_put: "putState key val s = Inr (v, s') \<Longrightarrow> grows s s'"
  by (rule grows_append) (auto simp: putState_eq view_simps idx_ok_def journal_index_snoc
      split: option.splits)

lemma grows_blind_set: "SetState E a k v s = Inr (r, s') \<Longrightarrow> grows s s'"
  unfolding SetState_def sbind_def Let_def
  by (auto split: sum.splits prod.splits if_splits option.splits simp: sret_def
      dest!: grows_journal_read grows_put intro: grows_trans)

lemma grows_mark_new: "markNewContract a s = Inr (v, s') \<Longrightarrow> grows s s'"
  by (auto simp: markNewContract_def view_simps insert_Diff_if intro: grows_refl
      intro!: grows_runtime split: if_splits)

lemma grows_mark_destroyed: "markSelfDestructed a s = Inr (v, s') \<Longrightarrow> grows s s'"
  by (auto simp: markSelfDestructed_def view_simps intro: grows_refl intro!: grows_runtime
      split: if_splits)

lemma grows_add_refund: "AddRefund x s = Inr (v, s') \<Longrightarrow> grows s s'"
  by (auto simp: AddRefund_def view_simps intro!: grows_runtime)

lemma grows_sub_refund: "SubRefund x s = Inr (v, s') \<Longrightarrow> grows s s'"
  by (auto simp: SubRefund_def view_simps intro!: grows_runtime split: if_splits)

lemma grows_add_log: "AddLog E l s = Inr (v, s') \<Longrightarrow> grows s s'"
  by (auto simp: AddLog_def grows_def view_simps revs_ok_def idx_ok_def le_SucI split: option.splits)

lemma grows_snapshot: "Snapshot s = Inr (v, s') \<Longrightarrow> grows s s'"
  by (auto simp: Snapshot_def Let_def grows_def view_simps revs_ok_def idx_ok_def less_imp_le
        sorted_append
      split: option.splits)

lemma grows_set_transient: "SetTransientState a k x s = Inr (v, s') \<Longrightarrow> grows s s'"
proof (rule grows_runtime [where es = "[TransientStorageChange a k (GetTransientState a k s)]"])
  assume r: "SetTransientState a k x s = Inr (v, s')"
  then have s': "s' = set_transient a k x
      (s\<lparr>sdb_journal := sdb_journal s @ [TransientStorageChange a k (GetTransientState a k s)]\<rparr>)"
    by (simp add: SetTransientState_def Let_def)
  have tr: "GetTransientState b l s' = (if b = a \<and> l = k then x else GetTransientState b l s)" for b l
    unfolding s' GetTransientState_set_transient by (simp add: GetTransientState_def)
  show "sdb_view s = undone vundo [TransientStorageChange a k (GetTransientState a k s)] (sdb_view s')"
    by (simp add: sdb_view_def tr fun_eq_iff) (simp add: s' set_transient_def Let_def)
qed (auto simp: SetTransientState_def set_transient_def Let_def sdb_wf_def)

lemma grows_add_address: "AddAddressToAccessList a s = Inr (v, s') \<Longrightarrow> grows s s'"
proof (cases "containsAddress (sdb_accessList s) a")
  case False
  assume r: "AddAddressToAccessList a s = Inr (v, s')"
  show ?thesis
  proof (rule grows_runtime [where es = "[AccessListAddAddressEntry a]"])
    assume "sdb_wf s"
    then have al: "al_wf (sdb_accessList s)" by (simp add: sdb_wf_def)
    from False have A: "a \<notin> al_addrs (sdb_accessList s)"
      by (simp add: containsAddress_iff)
    then have P: "(a, k) \<notin> al_pairs (sdb_accessList s)" for k
      by (auto simp: al_pairs_def al_addrs_def)
    from r False al show "al_wf (sdb_accessList s')"
      by (auto simp: AddAddressToAccessList_def addAddress_set)
    from r False al A show "sdb_view s = undone vundo [AccessListAddAddressEntry a] (sdb_view s')"
      by (auto simp: AddAddressToAccessList_def sdb_view_def GetTransientState_def addAddress_set P)
  qed (use r False in \<open>auto simp: AddAddressToAccessList_def\<close>)
qed (auto simp: AddAddressToAccessList_def grows_refl)

lemma grows_add_slot:
  assumes r: "AddSlotToAccessList a k s = Inr (v, s')"
  shows "grows s s'"
proof (cases "al_wf (sdb_accessList s)")
  case False
  then show ?thesis by (simp add: grows_def sdb_wf_def)
next
  case al: True
  let ?A = "a \<in> al_addrs (sdb_accessList s)" and ?P = "(a, k) \<in> al_pairs (sdb_accessList s)"
  let ?es = "(if ?A then [] else [AccessListAddAddressEntry a]) @ [AccessListAddSlotEntry a k]"
  obtain al' where al': "addSlot (sdb_accessList s) a k = Some al'" "al_wf al'"
    "al_addrs al' = insert a (al_addrs (sdb_accessList s))"
    "al_pairs al' = insert (a, k) (al_pairs (sdb_accessList s))"
    using addSlot_set [OF al] by blast
  show ?thesis
  proof (cases "?A \<and> ?P")
    case True
    with r al show ?thesis by (auto simp: AddSlotToAccessList_def al_contains_eq intro: grows_refl)
  next
    case False
    then have s': "s' = s\<lparr>sdb_journal := sdb_journal s @ ?es, sdb_accessList := al'\<rparr>"
      using r al al' by (auto simp: AddSlotToAccessList_def al_contains_eq split: if_splits)
    have "?P \<Longrightarrow> ?A" "b \<noteq> a \<or> ?A" if "(b, l) \<in> al_pairs (sdb_accessList s)" for b l
      using that by (auto simp: al_pairs_def al_addrs_def)
    then have "sdb_view s = undone vundo ?es (sdb_view s')"
      using False by (auto simp: s' al' sdb_view_def GetTransientState_def)
    then show ?thesis
      using al' by (intro grows_runtime [where es = ?es]) (auto simp: s')
  qed
qed

interpretation gr: sdb_interface grows "\<lambda>_ _. False" E "env_get E" for E
  by unfold_locales
    (auto simp: sm_sim_unary sreturns_def sbind_def sret_def grows_refl split: sum.splits
      intro: grows_trans grows_journal_read grows_store_read grows_put grows_blind_set grows_mark_new
        grows_mark_destroyed grows_add_refund grows_sub_refund grows_add_log grows_snapshot
        grows_set_transient grows_add_address grows_add_slot)

section \<open>RevertToSnapshot\<close>

lemma find_revision_append:
  "\<forall>r \<in> set xs. rv_id r \<noteq> i \<Longrightarrow>
     find_revision i (xs @ ys) = map_option (\<lambda>k. length xs + k) (find_revision i ys)"
  by (cases "find_revision i ys"; induction xs) auto

lemma find_revision_Some:
  "find_revision i rs = Some idx \<Longrightarrow> idx < length rs \<and> rv_id (rs ! idx) = i"
  by (induction rs arbitrary: idx) (auto split: if_splits)

lemma revs_ok_truncate:
  assumes "revs_ok s" and "idx < length (sdb_validRevisions s)"
    and "rv = sdb_validRevisions s ! idx"
    and "sdb_validRevisions s' = take idx (sdb_validRevisions s)"
    and "sdb_nextRevisionId s' = sdb_nextRevisionId s"
    and "length (sdb_journal s') = rv_journalIndex rv" and "length (sdb_logs s') = rv_logIndex rv"
  shows "revs_ok s'"
proof -
  have "rv_journalIndex r \<le> rv_journalIndex rv \<and> rv_logIndex r \<le> rv_logIndex rv"
    if r: "r \<in> set (take idx (sdb_validRevisions s))" for r
  proof -
    obtain j where j: "j < idx" "r = sdb_validRevisions s ! j"
      using r assms(2) by (auto simp: in_set_conv_nth)
    have srt: "sorted (map rv_journalIndex (sdb_validRevisions s))"
      "sorted (map rv_logIndex (sdb_validRevisions s))"
      using assms(1) by (simp_all add: revs_ok_def)
    show ?thesis
      using sorted_nth_mono [OF srt(1), of j idx] sorted_nth_mono [OF srt(2), of j idx] j assms(2,3)
      by simp
  qed
  moreover have "\<forall>r \<in> set (take idx (sdb_validRevisions s)). rv_id r < sdb_nextRevisionId s"
    using assms(1) by (auto simp: revs_ok_def dest: in_set_takeD)
  moreover have "sorted (map rv_journalIndex (take idx (sdb_validRevisions s)))"
    "sorted (map rv_logIndex (take idx (sdb_validRevisions s)))"
    using assms(1) by (simp_all add: revs_ok_def take_map [symmetric] sorted_wrt_take)
  ultimately show ?thesis
    using assms(4-7) by (simp add: revs_ok_def)
qed

lemma RevertToSnapshot_law:
  assumes wf: "sdb_wf s" and f: "find_revision i (sdb_validRevisions s) = Some idx"
    and rv: "rv = sdb_validRevisions s ! idx"
  shows "\<exists>s' t. RevertToSnapshot i s = Inr ((), s') \<and> sdb_wf s' \<and>
     revert_to (rv_journalIndex rv) s = Some t \<and> sdb_view s' = sdb_view t \<and>
     sdb_journal s' = take (rv_journalIndex rv) (sdb_journal s) \<and>
     sdb_logs s' = take (rv_logIndex rv) (sdb_logs s) \<and>
     sdb_validRevisions s' = take idx (sdb_validRevisions s) \<and>
     sdb_nextRevisionId s' = sdb_nextRevisionId s \<and> sdb_namespace s' = sdb_namespace s"
proof -
  let ?ji = "rv_journalIndex rv" and ?li = "rv_logIndex rv"
  have idx: "idx < length (sdb_validRevisions s)"
    using find_revision_Some [OF f] by simp
  then have "rv \<in> set (sdb_validRevisions s)" using rv by simp
  then have le: "?ji \<le> length (sdb_journal s)" "?li \<le> length (sdb_logs s)"
    using wf by (simp_all add: sdb_wf_def revs_ok_def)
  from wf have "al_wf (sdb_accessList s)" by (simp add: sdb_wf_def)
  from revert_entries_law [OF this, of "rev (drop ?ji (sdb_journal s))"]
  obtain u where u: "revert_entries (rev (drop ?ji (sdb_journal s))) s = Some u"
    "al_wf (sdb_accessList u)" "sdb_nextRevisionId u = sdb_nextRevisionId s"
    "sdb_namespace u = sdb_namespace s"
    by (elim exE conjE) (rule that; assumption)
  define s' where "s' = u\<lparr>sdb_journal := take ?ji (sdb_journal s), sdb_writeIdx := None,
     sdb_logs := take ?li (sdb_logs s), sdb_validRevisions := take idx (sdb_validRevisions s)\<rparr>"
  have "RevertToSnapshot i s = Inr ((), s')"
    using f le u(1) by (simp add: RevertToSnapshot_def Let_def rv [symmetric] s'_def)
  moreover have "revs_ok s" using wf by (simp add: sdb_wf_def)
  then have "revs_ok s'"
    by (rule revs_ok_truncate [OF _ idx rv]) (use le u(3) in \<open>simp_all add: s'_def\<close>)
  then have "sdb_wf s'"
    using u(2) by (simp add: sdb_wf_def idx_ok_def s'_def)
  moreover have "revert_to ?ji s = Some (u\<lparr>sdb_journal := take ?ji (sdb_journal s)\<rparr>)"
    using u(1) by (simp add: revert_to_def)
  moreover have "sdb_view s' = sdb_view (u\<lparr>sdb_journal := take ?ji (sdb_journal s)\<rparr>)"
    by (simp add: s'_def sdb_view_def GetTransientState_def)
  moreover have "sdb_journal s' = take ?ji (sdb_journal s)" "sdb_logs s' = take ?li (sdb_logs s)"
    "sdb_validRevisions s' = take idx (sdb_validRevisions s)"
    "sdb_nextRevisionId s' = sdb_nextRevisionId s" "sdb_namespace s' = sdb_namespace s"
    using u(3,4) by (simp_all add: s'_def)
  ultimately show ?thesis
    by (intro exI [of _ s'] exI [of _ "u\<lparr>sdb_journal := take ?ji (sdb_journal s)\<rparr>"] conjI)
qed

text \<open>A revision recorded after a point is found behind those recorded before it.\<close>

lemma grows_found:
  assumes base: "sdb_wf s1" and g: "grows s1 s" and i: "sdb_nextRevisionId s1 \<le> i"
    and f: "find_revision i (sdb_validRevisions s) = Some idx"
  obtains rs j where "sdb_validRevisions s = sdb_validRevisions s1 @ rs"
    "idx = length (sdb_validRevisions s1) + j" "j < length rs"
    "\<forall>r \<in> set rs. sdb_nextRevisionId s1 \<le> rv_id r \<and>
       length (sdb_journal s1) \<le> rv_journalIndex r \<and> length (sdb_logs s1) \<le> rv_logIndex r"
proof -
  obtain rs where rs: "sdb_validRevisions s = sdb_validRevisions s1 @ rs"
    "\<forall>r \<in> set rs. sdb_nextRevisionId s1 \<le> rv_id r \<and>
       length (sdb_journal s1) \<le> rv_journalIndex r \<and> length (sdb_logs s1) \<le> rv_logIndex r"
    using g base by (auto simp: grows_def)
  have "\<forall>r \<in> set (sdb_validRevisions s1). rv_id r \<noteq> i"
    using base i by (fastforce simp: sdb_wf_def revs_ok_def)
  then obtain j where "idx = length (sdb_validRevisions s1) + j" "j < length rs"
    using f find_revision_append [of _ i rs] find_revision_Some [of i rs] by (auto simp: rs(1))
  with rs show thesis by (intro that)
qed

lemma RevertToSnapshot_since:
  assumes base: "sdb_wf s1" and g: "grows s1 s" and i: "sdb_nextRevisionId s1 \<le> i"
    and r: "RevertToSnapshot i s = Inr (u, s')"
  shows "grows s1 s'"
proof (cases "find_revision i (sdb_validRevisions s)")
  case None
  with r g show ?thesis by (simp add: RevertToSnapshot_def)
next
  case (Some idx)
  have wf: "sdb_wf s" using g base by (simp add: grows_def)
  define rv where "rv = sdb_validRevisions s ! idx"
  obtain t where s': "sdb_wf s'" "revert_to (rv_journalIndex rv) s = Some t" "sdb_view s' = sdb_view t"
    "sdb_journal s' = take (rv_journalIndex rv) (sdb_journal s)"
    "sdb_logs s' = take (rv_logIndex rv) (sdb_logs s)"
    "sdb_validRevisions s' = take idx (sdb_validRevisions s)"
    "sdb_nextRevisionId s' = sdb_nextRevisionId s"
    using RevertToSnapshot_law [OF wf Some rv_def] r by auto
  obtain rs j where rs: "sdb_validRevisions s = sdb_validRevisions s1 @ rs"
    and j: "idx = length (sdb_validRevisions s1) + j" "j < length rs"
    and all: "\<forall>r \<in> set rs. sdb_nextRevisionId s1 \<le> rv_id r \<and>
       length (sdb_journal s1) \<le> rv_journalIndex r \<and> length (sdb_logs s1) \<le> rv_logIndex r"
    using grows_found [OF base g i Some] .
  have mem: "rv \<in> set rs" using j by (simp add: rv_def rs nth_append)
  with all have ge: "length (sdb_journal s1) \<le> rv_journalIndex rv" "length (sdb_logs s1) \<le> rv_logIndex rv"
    by auto
  have le: "rv_journalIndex rv \<le> length (sdb_journal s)"
    using wf mem rs by (simp add: sdb_wf_def revs_ok_def)
  have "sj.since s1 t"
    by (rule sj.since_revert [OF grows_since [OF g base] _ ge(1) le s'(2)])
      (use wf in \<open>simp add: sdb_wf_def\<close>)
  then have "sj.since s1 s'"
    using s' by (auto simp: sj.since_def revert_to_def)
  moreover have "prefix (sdb_logs s1) (sdb_logs s')"
    using g base ge(2) s'(5) by (auto simp: grows_def prefix_def)
  moreover have "sdb_validRevisions s' = sdb_validRevisions s1 @ take j rs"
    using s'(6) j rs by simp
  ultimately show ?thesis
    using s'(1,7) g base all by (auto simp: grows_def sj.since_def dest: in_set_takeD)
qed

lemma exec_all_grows:
  assumes "sdb_wf s1" and "grows s1 s" and "\<forall>c \<in> set cs. inner_call sid c"
    and "sdb_nextRevisionId s1 = sid + 1" and "exec_all E cs s = Inr s'"
  shows "grows s1 s'"
  using assms(2,3,5)
proof (induction cs arbitrary: s)
  case Nil
  then show ?case by simp
next
  case (Cons c cs)
  then obtain r t where step: "sdb_exec E c s = Inr (r, t)" and rest: "exec_all E cs t = Inr s'"
    by (auto split: sum.splits)
  have "grows s1 t"
  proof (cases "plain_call c")
    case True
    then show ?thesis
      using gr.exec_Q [OF _ step] Cons.prems(1) grows_trans by blast
  next
    case False
    with Cons.prems(2) obtain i where "c = CRevertToSnapshot i" "sid < i"
      by (cases c) auto
    with step have "RevertToSnapshot i s = Inr ((), t)" and "sdb_nextRevisionId s1 \<le> i"
      using assms(4) by (auto simp: sreturns_def sbind_def sret_def split: sum.splits)
    then show ?thesis
      using RevertToSnapshot_since [OF assms(1) Cons.prems(1)] by blast
  qed
  with Cons.IH [OF _ _ rest] Cons.prems(2) show ?case by simp
qed

lemma sdb_wf_new: "sdb_wf (NewStateDB ns mv)"
  by (simp add: sdb_wf_def idx_ok_def revs_ok_def NewStateDB_def al_wf_new)

lemma addSlots_wf: "al_wf al \<Longrightarrow> \<exists>al'. addSlots al a ks = Some al' \<and> al_wf al'"
proof (induction ks arbitrary: al)
  case Nil
  then show ?case by simp
next
  case (Cons k ks)
  obtain al1 where "addSlot al a k = Some al1" "al_wf al1"
    using addSlot_set [OF Cons.prems, of a k] by blast
  with Cons.IH [of al1] show ?case by simp
qed

lemma addAccesses_wf: "al_wf al \<Longrightarrow> \<exists>al'. addAccesses al els = Some al' \<and> al_wf al'"
proof (induction els arbitrary: al)
  case Nil
  then show ?case by simp
next
  case (Cons el els)
  obtain a ks where el: "el = (a, ks)" by (cases el)
  obtain al1 where "addSlots (addAddress al a) a ks = Some al1" "al_wf al1"
    using addSlots_wf [OF addAddress_set(1) [OF Cons.prems]] by blast
  with Cons.IH [of al1] show ?case by (simp add: el)
qed

lemma foldl_addAddress_wf: "al_wf al \<Longrightarrow> al_wf (foldl addAddress al ps)"
  by (induction ps arbitrary: al) (simp_all add: addAddress_set)

lemma Prepare_total:
  "\<exists>al. al_wf al \<and> Prepare sh sn cb d ps tas s = Inr ((), s\<lparr>sdb_accessList := al\<rparr>)"
proof -
  let ?al2 = "case d of None \<Rightarrow> addAddress newAccessList sn
                      | Some b \<Rightarrow> addAddress (addAddress newAccessList sn) b"
  have "al_wf ?al2"
    by (simp add: addAddress_set al_wf_new split: option.split)
  from addAccesses_wf [OF foldl_addAddress_wf [OF this], of ps tas]
  obtain al4 where "addAccesses (foldl addAddress ?al2 ps) tas = Some al4" "al_wf al4"
    by blast
  then show ?thesis
    by (intro exI [of _ "if sh then addAddress al4 cb else al4"])
      (simp add: Prepare_def Let_def addAddress_set)
qed

lemma Prepare_wf:
  assumes "Prepare sh sn cb d ps tas s = Inr (u, s')" and "sdb_wf s"
  shows "sdb_wf s'"
  using Prepare_total [of sh sn cb d ps tas s] assms
  by (auto simp: sdb_wf_def idx_ok_def revs_ok_def split: option.splits)

lemma exec_wf:
  assumes "sdb_exec E c s = Inr (r, s')" and "sdb_wf s"
  shows "sdb_wf s'"
proof (cases "plain_call c")
  case True
  with gr.exec_Q [OF True assms(1)] assms(2) show ?thesis by (simp add: grows_def)
next
  case False
  then consider i where "c = CRevertToSnapshot i" | sh a b d ps tas where "c = CPrepare sh a b d ps tas"
    by (cases c) auto
  then show ?thesis
  proof cases
    case (1 i)
    then have "RevertToSnapshot i s = Inr ((), s')"
      using assms(1) by (auto simp: sreturns_def sbind_def sret_def split: sum.splits)
    then show ?thesis
      using RevertToSnapshot_law [OF assms(2), of i] assms(2)
      by (cases "find_revision i (sdb_validRevisions s)") (simp add: RevertToSnapshot_def, fastforce)
  next
    case 2
    then show ?thesis
      using assms Prepare_wf by (auto simp: sreturns_def sbind_def sret_def split: sum.splits)
  qed
qed

lemma exec_all_wf: "exec_all E cs s = Inr s' \<Longrightarrow> sdb_wf s \<Longrightarrow> sdb_wf s'"
  by (induction cs arbitrary: s) (auto split: sum.splits dest: exec_wf)

text \<open>
  A revert restores everything: the state when the snapshot was taken is what the revert leaves.
\<close>

lemma revert_restores_state:
  assumes wf: "sdb_wf s0" and snap: "Snapshot s0 = Inr (sid, s1)"
    and run: "exec_all E cs s1 = Inr s2" and inner: "\<forall>c \<in> set cs. inner_call sid c"
  shows "\<exists>s3. RevertToSnapshot sid s2 = Inr ((), s3) \<and> sdb_wf s3 \<and> sdb_view s3 = sdb_view s0 \<and>
     sdb_journal s3 = sdb_journal s0 \<and> sdb_logs s3 = sdb_logs s0 \<and>
     sdb_validRevisions s3 = sdb_validRevisions s0 \<and> sdb_namespace s3 = sdb_namespace s2 \<and>
     (\<exists>idx. find_revision sid (sdb_validRevisions s2) = Some idx \<and>
            rv_journalIndex (sdb_validRevisions s2 ! idx) = length (sdb_journal s0))"
proof -
  let ?n = "length (sdb_validRevisions s0)"
  let ?rv = "\<lparr>rv_id = sid, rv_journalIndex = length (sdb_journal s0), rv_logIndex = length (sdb_logs s0)\<rparr>"
  have s1: "sid = sdb_nextRevisionId s0" "s1 = s0\<lparr>sdb_nextRevisionId := sid + 1,
      sdb_validRevisions := sdb_validRevisions s0 @ [?rv]\<rparr>"
    using snap by (auto simp: Snapshot_def Let_def)
  have wf1: "sdb_wf s1" using grows_snapshot [OF snap] wf by (simp add: grows_def)
  have g: "grows s1 s2"
    using exec_all_grows [OF wf1 grows_refl inner _ run] by (simp add: s1)
  have wf2: "sdb_wf s2" using g wf1 by (simp add: grows_def)
  obtain rs where rs: "sdb_validRevisions s2 = sdb_validRevisions s0 @ ?rv # rs"
    using g wf1 by (auto simp: grows_def s1(2))
  have "\<forall>r \<in> set (sdb_validRevisions s0). rv_id r \<noteq> sid"
    using wf s1(1) by (auto simp: sdb_wf_def revs_ok_def)
  then have f: "find_revision sid (sdb_validRevisions s2) = Some ?n"
    by (simp add: rs find_revision_append)
  have rv: "?rv = sdb_validRevisions s2 ! ?n"
    by (simp add: rs)
  obtain es where es: "sdb_journal s2 = sdb_journal s0 @ es" "prefix (sdb_logs s0) (sdb_logs s2)"
    using g wf1 by (auto simp: grows_def s1(2))
  obtain t where t: "revert_to (length (sdb_journal s1)) s2 = Some t" "sdb_view t = sdb_view s1"
    using sj.revert_restores [OF grows_since [OF g wf1]] wf2 by (auto simp: sdb_wf_def)
  have v: "sdb_view s1 = sdb_view s0"
    by (simp add: s1(2) sdb_view_def GetTransientState_def)
  have "length (sdb_journal s1) = length (sdb_journal s0)" by (simp add: s1(2))
  with t v es f RevertToSnapshot_law [OF wf2 f rv] show ?thesis
    by (auto simp: rs prefix_def)
qed

end
