(* ===== verification/SdbMVCC.thy ===== *)
theory SdbMVCC
  imports SdbRevert
begin

text \<open>
  The read-write set and MVCC validation.  \<open>Result\<close> keeps one read and one write per key, the last
  write of each.  A run of any interpreter that does not revert is determined by the records at the
  keys of its read set: when the committed versions of those keys are the ones in the read set
  (\<open>mvcc_valid\<close>, the check the committer makes), executing again on the committed state gives the
  same calls, the same results and the same writes.
\<close>

section \<open>Definitions\<close>

fun lastRead :: "string \<Rightarrow> entry list \<Rightarrow> kvread option" where
  "lastRead key [] = None"
| "lastRead key (ReadEntry r # es) =
     (case lastRead key es of
        Some r' \<Rightarrow> Some r'
      | None \<Rightarrow> if kr_key r = key then Some r else None)"
| "lastRead key (e # es) = lastRead key es"

definition new_entries :: "statedb \<Rightarrow> statedb \<Rightarrow> entry list" where
  "new_entries s s' = drop (length (sdb_journal s)) (sdb_journal s')"

definition mvcc_valid ::
    "(string \<Rightarrow> string \<Rightarrow> write_record option result) \<Rightarrow> string \<Rightarrow> bool \<Rightarrow> kvread \<Rightarrow> bool" where
  "mvcc_valid g ns mv r \<longleftrightarrow>
     (case g ns (kr_key r) of
        Inl e \<Rightarrow> False
      | Inr rec \<Rightarrow> kr_version (read_of mv (kr_key r) rec) = kr_version r)"

text \<open>
  What the ledger guarantees: reads succeed, and two records of a key with the same version hold the
  same value (a version is written once; an absent and a deleted key hold none).
\<close>

definition reads_succeed :: "(string \<Rightarrow> string \<Rightarrow> write_record option result) \<Rightarrow> bool" where
  "reads_succeed g \<longleftrightarrow> (\<forall>ns k. \<exists>rec. g ns k = Inr rec)"

definition versions_faithful ::
    "(string \<Rightarrow> string \<Rightarrow> write_record option result)
       \<Rightarrow> (string \<Rightarrow> string \<Rightarrow> write_record option result) \<Rightarrow> bool \<Rightarrow> bool" where
  "versions_faithful f g mv \<longleftrightarrow>
     (\<forall>ns k r1 r2. f ns k = Inr r1 \<longrightarrow> g ns k = Inr r2 \<longrightarrow>
        kr_version (read_of mv k r1) = kr_version (read_of mv k r2) \<longrightarrow>
        record_value r1 = record_value r2)"

definition read_from :: "sdb_env \<Rightarrow> string \<Rightarrow> bool \<Rightarrow> kvread \<Rightarrow> bool" where
  "read_from E ns mv r \<longleftrightarrow>
     (\<exists>rec. env_get E ns (kr_key r) = Inr rec \<and> r = read_of mv (kr_key r) rec)"

definition mvcc_step :: "sdb_env \<Rightarrow> statedb \<Rightarrow> statedb \<Rightarrow> bool" where
  "mvcc_step E s s' \<longleftrightarrow>
     sdb_namespace s' = sdb_namespace s \<and> sdb_monotonic s' = sdb_monotonic s \<and>
     prefix (sdb_journal s) (sdb_journal s') \<and>
     (\<forall>r. ReadEntry r \<in> set (new_entries s s') \<longrightarrow>
        read_from E (sdb_namespace s) (sdb_monotonic s) r)"

definition mvcc_agree ::
    "sdb_env \<Rightarrow> (string \<Rightarrow> string \<Rightarrow> write_record option result) \<Rightarrow> statedb \<Rightarrow> statedb \<Rightarrow> bool" where
  "mvcc_agree E g s s' \<longleftrightarrow>
     reads_succeed (env_get E) \<and> reads_succeed g \<and>
     versions_faithful (env_get E) g (sdb_monotonic s) \<and>
     (\<forall>r. ReadEntry r \<in> set (new_entries s s') \<longrightarrow>
        mvcc_valid g (sdb_namespace s) (sdb_monotonic s) r)"

section \<open>The read-write set\<close>

lemma lastRead_append:
  "lastRead key (xs @ ys) = (case lastRead key ys of Some r \<Rightarrow> Some r | None \<Rightarrow> lastRead key xs)"
  by (induction key xs rule: lastRead.induct) (auto split: option.splits)

lemma lastRead_mem: "lastRead key es = Some r \<Longrightarrow> ReadEntry r \<in> set es \<and> kr_key r = key"
  by (induction key es rule: lastRead.induct) (auto split: option.splits if_splits)

lemma lastRead_None: "lastRead key es = None \<Longrightarrow> ReadEntry r \<in> set es \<Longrightarrow> kr_key r \<noteq> key"
  by (induction key es rule: lastRead.induct) (auto split: option.splits if_splits)

lemma map_of_collect_reads:
  "map_of (collect_reads es m) k = (case lastRead k es of Some r \<Rightarrow> Some r | None \<Rightarrow> map_of m k)"
  by (induction es m rule: collect_reads.induct) (auto simp: update_conv' split: option.splits)

lemma map_of_collect_writes:
  "map_of (collect_writes es m) k = (case lastWrite k es of Some w \<Rightarrow> Some w | None \<Rightarrow> map_of m k)"
  by (induction es m rule: collect_writes.induct) (auto simp: update_conv' split: option.splits)

lemma distinct_collect_reads: "distinct (map fst m) \<Longrightarrow> distinct (map fst (collect_reads es m))"
  by (induction es m rule: collect_reads.induct) (auto simp: distinct_update)

lemma distinct_collect_writes: "distinct (map fst m) \<Longrightarrow> distinct (map fst (collect_writes es m))"
  by (induction es m rule: collect_writes.induct) (auto simp: distinct_update)

lemma collect_reads_iff:
  "(k, r) \<in> set (collect_reads es []) \<longleftrightarrow> lastRead k es = Some r"
  using map_of_collect_reads [of es "[]" k]
    map_of_eq_Some_iff [OF distinct_collect_reads [of "[]" es], of k r]
  by (simp split: option.splits)

lemma collect_writes_iff:
  "(k, w) \<in> set (collect_writes es []) \<longleftrightarrow> lastWrite k es = Some w"
  using map_of_collect_writes [of es "[]" k]
    map_of_eq_Some_iff [OF distinct_collect_writes [of "[]" es], of k w]
  by (simp split: option.splits)

lemma Result_reads_iff: "r \<in> set (rws_reads (Result s)) \<longleftrightarrow> lastRead (kr_key r) (sdb_journal s) = Some r"
proof -
  have "r \<in> set (rws_reads (Result s)) \<longleftrightarrow> (\<exists>k. lastRead k (sdb_journal s) = Some r)"
    by (simp add: Result_def image_iff collect_reads_iff [symmetric] Bex_def)
  then show ?thesis using lastRead_mem by blast
qed

lemma Result_writes_iff:
  "w \<in> set (rws_writes (Result s)) \<longleftrightarrow> lastWrite (kw_key w) (sdb_journal s) = Some w"
proof -
  have "w \<in> set (rws_writes (Result s)) \<longleftrightarrow> (\<exists>k. lastWrite k (sdb_journal s) = Some w)"
    by (simp add: Result_def image_iff collect_writes_iff [symmetric] Bex_def)
  then show ?thesis using lastWrite_key by blast
qed

lemma Result_reads_distinct: "distinct (map kr_key (rws_reads (Result s)))"
proof -
  have "map kr_key (rws_reads (Result s)) = map fst (collect_reads (sdb_journal s) [])"
    by (auto simp: Result_def collect_reads_iff dest: lastRead_mem)
  then show ?thesis
    using distinct_collect_reads [of "[]" "sdb_journal s"] by (simp only: list.map distinct.simps)
qed

lemma Result_writes_distinct: "distinct (map kw_key (rws_writes (Result s)))"
proof -
  have "map kw_key (rws_writes (Result s)) = map fst (collect_writes (sdb_journal s) [])"
    by (auto simp: Result_def collect_writes_iff dest: lastWrite_key)
  then show ?thesis
    using distinct_collect_writes [of "[]" "sdb_journal s"] by (simp only: list.map distinct.simps)
qed

section \<open>Runs on two stores\<close>

lemma new_entries_split:
  assumes "prefix (sdb_journal s) (sdb_journal t)" and "prefix (sdb_journal t) (sdb_journal u)"
  shows "new_entries s u = new_entries s t @ new_entries t u"
  using assms by (auto simp: new_entries_def prefix_def)

lemma new_entries_same [simp]: "sdb_journal s' = sdb_journal s \<Longrightarrow> new_entries s s' = []"
  by (simp add: new_entries_def)

lemma mvcc_step_refl: "mvcc_step E s s"
  by (simp add: mvcc_step_def)

lemma mvcc_step_trans: "mvcc_step E s t \<Longrightarrow> mvcc_step E t u \<Longrightarrow> mvcc_step E s u"
  unfolding mvcc_step_def
  using new_entries_split [of s t u]
    prefix_order.trans [of "sdb_journal s" "sdb_journal t" "sdb_journal u"]
  by auto

lemma mvcc_agree_split:
  "mvcc_step E s t \<Longrightarrow> mvcc_step E t u \<Longrightarrow> mvcc_agree E g s u \<Longrightarrow>
     mvcc_agree E g s t \<and> mvcc_agree E g t u"
  using new_entries_split [of s t u] by (auto simp: mvcc_step_def mvcc_agree_def)

lemma mvcc_local:
  assumes "sdb_namespace s' = sdb_namespace s" and "sdb_monotonic s' = sdb_monotonic s"
    and "sdb_journal s' = sdb_journal s @ es" and "\<forall>r. ReadEntry r \<notin> set es"
  shows "mvcc_step E s s'"
  using assms by (simp add: mvcc_step_def new_entries_def)

text \<open>The primitives that do not read the store take the same step on every store.\<close>

lemma sm_sim_same:
  "(\<And>s v s'. m s = Inr (v, s') \<Longrightarrow> mvcc_step E s s') \<Longrightarrow> sm_sim (mvcc_step E) A m m"
  by (simp add: sm_sim_def)

lemma mvcc_journal_read: "getStateFromJournal key s = Inr (v, s') \<Longrightarrow> mvcc_step E s s'"
  by (rule mvcc_local [where es = "[]"])
    (auto simp: getStateFromJournal_def Let_def split: option.splits if_splits entry.splits)

lemma mvcc_put: "putState key val s = Inr (v, s') \<Longrightarrow> mvcc_step E s s'"
  by (auto simp: putState_eq intro!: mvcc_local)

lemma mvcc_store_read:
  "sm_sim (mvcc_step E) (mvcc_agree E g) (getStateFromStore E key)
     (getStateFromStore (E\<lparr>env_get := g\<rparr>) key)"
proof (rule sm_simI)
  fix s v s'
  assume r: "getStateFromStore E key s = Inr (v, s')"
  show "mvcc_step E s s' \<and>
        (mvcc_agree E g s s' \<longrightarrow> getStateFromStore (E\<lparr>env_get := g\<rparr>) key s = Inr (v, s'))"
  proof (cases "env_get E (sdb_namespace s) key")
    case (Inl e)
    with r have "s' = s" by (simp add: getStateFromStore_def)
    moreover have "\<not> mvcc_agree E g s s'"
      using Inl by (auto simp: mvcc_agree_def reads_succeed_def) (metis Inl_Inr_False)
    ultimately show ?thesis by (simp add: mvcc_step_refl)
  next
    case (Inr rec)
    let ?rd = "read_of (sdb_monotonic s) key rec"
    from r Inr have v: "v = Inr (record_value rec)" "s' = s\<lparr>sdb_journal := sdb_journal s @ [ReadEntry ?rd]\<rparr>"
      by (auto simp: getStateFromStore_def record_value_def)
    then have st: "mvcc_step E s s'"
      using Inr by (auto simp: mvcc_step_def new_entries_def read_from_def read_of_def)
    have "getStateFromStore (E\<lparr>env_get := g\<rparr>) key s = Inr (v, s')" if ag: "mvcc_agree E g s s'"
    proof -
      obtain rec' where g: "g (sdb_namespace s) key = Inr rec'"
        using ag unfolding mvcc_agree_def reads_succeed_def by blast
      have "mvcc_valid g (sdb_namespace s) (sdb_monotonic s) ?rd"
        using ag by (simp add: mvcc_agree_def v new_entries_def)
      with g have ver: "kr_version (read_of (sdb_monotonic s) key rec') = kr_version ?rd"
        by (simp add: mvcc_valid_def read_of_def)
      with g Inr ag have "record_value rec' = record_value rec"
        unfolding mvcc_agree_def versions_faithful_def by metis
      moreover have "read_of (sdb_monotonic s) key rec' = ?rd"
        using ver by (simp add: read_of_def)
      ultimately show ?thesis
        by (simp add: getStateFromStore_def g v record_value_def)
    qed
    with st show ?thesis by blast
  qed
qed

lemma mvcc_blind_set:
  "sm_sim (mvcc_step E) (mvcc_agree E g) (sreturns (\<lambda>_. RUnit) (SetState E a k v))
     (sreturns (\<lambda>_. RUnit) (SetState (E\<lparr>env_get := g\<rparr>) a k v))"
proof (rule sm_simI)
  fix s r s'
  let ?E' = "E\<lparr>env_get := g\<rparr>" and ?key = "storeKey E a k"
  let ?val = "if v = 0 then None else Some (env_hashBytes E v)"
  assume "sreturns (\<lambda>_. RUnit) (SetState E a k v) s = Inr (r, s')"
  then obtain w t where j: "getStateFromJournal ?key s = Inr (w, t)" and p: "putState ?key ?val t = Inr ((), s')"
    and r: "r = RUnit"
    by (auto simp: sreturns_def sbind_def sret_def SetState_def Let_def
        split: sum.splits prod.splits if_splits option.splits)
  have "mvcc_step E s s'"
    using mvcc_step_trans [OF mvcc_journal_read [OF j] mvcc_put [OF p]] .
  moreover have "sreturns (\<lambda>_. RUnit) (SetState ?E' a k v) s = Inr (r, s')" if ag: "mvcc_agree E g s s'"
  proof -
    have key: "storeKey ?E' a k = ?key" by (simp add: storeKey_def)
    obtain rec where "g (sdb_namespace t) ?key = Inr rec"
      using ag unfolding mvcc_agree_def reads_succeed_def by blast
    then show ?thesis
      using j p r
      by (cases w; cases rec)
        (auto simp: sreturns_def sbind_def sret_def SetState_def Let_def key)
  qed
  ultimately show "mvcc_step E s s' \<and>
      (mvcc_agree E g s s' \<longrightarrow> sreturns (\<lambda>_. RUnit) (SetState ?E' a k v) s = Inr (r, s'))"
    by blast
qed

lemma mvcc_runtime:
  "markNewContract a s = Inr (u, s') \<Longrightarrow> mvcc_step E s s'"
  "markSelfDestructed a s = Inr (u, s') \<Longrightarrow> mvcc_step E s s'"
  "AddRefund gas s = Inr (u, s') \<Longrightarrow> mvcc_step E s s'"
  "SubRefund gas s = Inr (u, s') \<Longrightarrow> mvcc_step E s s'"
  "AddLog E l s = Inr (u, s') \<Longrightarrow> mvcc_step E s s'"
  "Snapshot s = Inr (i, s') \<Longrightarrow> mvcc_step E s s'"
  "SetTransientState a k v s = Inr (u, s') \<Longrightarrow> mvcc_step E s s'"
  "AddAddressToAccessList a s = Inr (u, s') \<Longrightarrow> mvcc_step E s s'"
  "AddSlotToAccessList a k s = Inr (u, s') \<Longrightarrow> mvcc_step E s s'"
  "Prepare sh sn cb d ps tas s = Inr (u, s') \<Longrightarrow> mvcc_step E s s'"
  by (auto simp: markNewContract_def markSelfDestructed_def AddRefund_def SubRefund_def AddLog_def
      Snapshot_def SetTransientState_def set_transient_def AddAddressToAccessList_def
      AddSlotToAccessList_def Prepare_def Let_def mvcc_step_def new_entries_def
      split: if_splits option.splits)

interpretation mv: sdb_program "mvcc_step E" "mvcc_agree E g" E g for E g
proof unfold_locales
  fix s t u :: statedb
  show "mvcc_step E s s" by (rule mvcc_step_refl)
  show "mvcc_step E s t \<Longrightarrow> mvcc_step E t u \<Longrightarrow> mvcc_step E s u" by (rule mvcc_step_trans)
  show "mvcc_step E s t \<Longrightarrow> mvcc_step E t u \<Longrightarrow> mvcc_agree E g s u \<Longrightarrow>
      mvcc_agree E g s t \<and> mvcc_agree E g t u" by (rule mvcc_agree_split)
qed (rule mvcc_store_read mvcc_blind_set sm_sim_same; erule mvcc_journal_read mvcc_put mvcc_runtime)+

lemma run_read_set:
  assumes "evm_run E next n [] (NewStateDB ns mv) = Inr (h, s)"
    and "\<forall>(c, r) \<in> set h. \<not> is_revert c" and "ReadEntry r \<in> set (sdb_journal s)"
  shows "read_from E ns mv r \<and> r \<in> set (rws_reads (Result s))"
proof -
  have st: "mvcc_step E (NewStateDB ns mv) s"
    using mv.run_sim [OF assms(1,2)] by blast
  have all: "read_from E ns mv x" if "ReadEntry x \<in> set (sdb_journal s)" for x
    using st that by (simp add: mvcc_step_def new_entries_def NewStateDB_def)
  obtain q where q: "lastRead (kr_key r) (sdb_journal s) = Some q"
    using lastRead_None assms(3) by (cases "lastRead (kr_key r) (sdb_journal s)") auto
  then have "read_from E ns mv q" "kr_key q = kr_key r"
    using lastRead_mem [OF q] all by auto
  with all [OF assms(3)] have "q = r"
    by (auto simp: read_from_def)
  with q show ?thesis
    using all [OF assms(3)] by (simp add: Result_reads_iff)
qed

section \<open>Serializability\<close>

text \<open>A program that adds to a balance, the snapshot it is endorsed at and a later committed state.\<close>

definition demo_next :: "history \<Rightarrow> sdb_call option" where
  "demo_next h = (if length h = 0 then Some (CAddBalance 65 2) else None)"

definition demo_get :: "string \<Rightarrow> string \<Rightarrow> write_record option result" where
  "demo_get ns k = Inr (Some (demo_record 7 [5]))"

definition demo_get_later :: "string \<Rightarrow> string \<Rightarrow> write_record option result" where
  "demo_get_later ns k =
     (if k = accKey (demo_env no_records) 65 ''bal'' then Inr (Some (demo_record 7 [5]))
      else Inr (Some (demo_record 8 [6])))"

lemma accKey_demo: "accKey (demo_env get) a t = accKey (demo_env no_records) a t"
  by (simp add: accKey_def demo_env_def)

lemma demo_run:
  "\<exists>s. evm_run (demo_env demo_get) demo_next 3 [] (NewStateDB ''ns'' True) =
         Inr ([(CAddBalance 65 2, RU256 5)], s) \<and>
       rws_reads (Result s) = [\<lparr>kr_key = accKey (demo_env no_records) 65 ''bal'',
         kr_version = Some \<lparr>ver_block = 7, ver_tx = 0\<rparr>\<rparr>] \<and>
       rws_writes (Result s) = [\<lparr>kw_key = accKey (demo_env no_records) 65 ''bal'', kw_isdelete = False,
         kw_value = Some [7]\<rparr>]"
  by (simp add: numeral_3_eq_3 demo_next_def demo_get_def sdb_eval sreturns_def AddBalance_def
      GetBalance_def Result_def min_be_byte accKey_demo [of demo_get])

text \<open>
  C1. Endorsement at a stale snapshot is serializable.  Take any EVM program (\<open>next\<close>) that is run
  against a pinned store and does not revert to a snapshot.  If every entry of the resulting read set
  passes the committer's version check against the committed state \<open>g\<close>, then running the program on
  the committed state makes the same calls, gets the same answers and leaves the same \<open>StateDB\<close>, so
  the write set that was endorsed is the one a serial execution would have written.
\<close>

theorem mvcc_serializable:
  assumes "reads_succeed (env_get E)" and "reads_succeed g"
    and "versions_faithful (env_get E) g mv"
    and run: "evm_run E next n [] (NewStateDB ns mv) = Inr (h, s)"
    and norevert: "\<forall>(c, r) \<in> set h. \<not> is_revert c"
    and valid: "\<forall>r \<in> set (rws_reads (Result s)). mvcc_valid g ns mv r"
  shows "evm_run (E\<lparr>env_get := g\<rparr>) next n [] (NewStateDB ns mv) = Inr (h, s)"
proof -
  have "mvcc_agree E g (NewStateDB ns mv) s"
    using assms(1-3) valid run_read_set [OF run norevert]
    by (auto simp: mvcc_agree_def new_entries_def NewStateDB_def)
  with mv.run_sim [OF run norevert] show ?thesis by blast
qed

theorem mvcc_serializable_witness:
  "\<exists>h s. evm_run (demo_env demo_get) demo_next 3 [] (NewStateDB ''ns'' True) = Inr (h, s) \<and>
         evm_run (demo_env demo_get_later) demo_next 3 [] (NewStateDB ''ns'' True) = Inr (h, s) \<and>
         map kw_value (rws_writes (Result s)) = [Some [7]]"
proof -
  let ?h = "[(CAddBalance 65 2, RU256 5)]"
  let ?key = "accKey (demo_env no_records) 65 ''bal''"
  obtain s where run: "evm_run (demo_env demo_get) demo_next 3 [] (NewStateDB ''ns'' True) = Inr (?h, s)"
    and rd: "rws_reads (Result s) = [\<lparr>kr_key = ?key, kr_version = Some \<lparr>ver_block = 7, ver_tx = 0\<rparr>\<rparr>]"
    and wr: "rws_writes (Result s) = [\<lparr>kw_key = ?key, kw_isdelete = False, kw_value = Some [7]\<rparr>]"
    using demo_run by blast
  have "reads_succeed demo_get" "reads_succeed demo_get_later"
    by (simp_all add: reads_succeed_def demo_get_def demo_get_later_def)
  moreover have "versions_faithful demo_get demo_get_later True"
    by (auto simp: versions_faithful_def demo_get_def demo_get_later_def read_of_def demo_record_def
        record_value_def)
  moreover have "\<forall>r \<in> set (rws_reads (Result s)). mvcc_valid demo_get_later ''ns'' True r"
    by (simp add: rd mvcc_valid_def demo_get_later_def read_of_def demo_record_def)
  ultimately have "evm_run (demo_env demo_get_later) demo_next 3 [] (NewStateDB ''ns'' True) = Inr (?h, s)"
    using mvcc_serializable [of "demo_env demo_get" demo_get_later True demo_next 3 "''ns''" ?h s] run
    by simp
  with run wr show ?thesis by auto
qed

end
