(* ===== verification/SdbProps.thy ===== *)
theory SdbProps
  imports SdbMVCC
begin

text \<open>
  The properties of the \<open>StateDB\<close> as a whole, over every sequence of \<open>vm.StateDB\<close> calls from a new
  state: reverting to a snapshot restores the state, the write index is invisible, the read-write set
  is what the account methods read, and balances, nonces, code and storage behave as a key-value
  state with wrap-around 256-bit balances.
\<close>

section \<open>Self-destruct marks and the namespace\<close>

definition destroyed :: "entry list \<Rightarrow> address set" where
  "destroyed es = {a. SelfDestructEntry a \<in> set es}"

definition sd_step :: "statedb \<Rightarrow> statedb \<Rightarrow> bool" where
  "sd_step s s' \<longleftrightarrow>
     sdb_namespace s' = sdb_namespace s \<and>
     (\<exists>es. sdb_journal s' = sdb_journal s @ es \<and>
           sdb_selfDestructed s' = sdb_selfDestructed s \<union> destroyed es)"

definition sd_since :: "statedb \<Rightarrow> statedb \<Rightarrow> bool" where
  "sd_since s0 s \<longleftrightarrow>
     sdb_namespace s = sdb_namespace s0 \<and>
     (\<exists>es. sdb_journal s = sdb_journal s0 @ es \<and>
           sdb_selfDestructed s \<subseteq> sdb_selfDestructed s0 \<union> destroyed es)"

lemma destroyed_append [simp]: "destroyed (xs @ ys) = destroyed xs \<union> destroyed ys"
  by (auto simp: destroyed_def)

lemma destroyed_Cons [simp]:
  "destroyed (e # es) = (case e of SelfDestructEntry a \<Rightarrow> {a} | _ \<Rightarrow> {}) \<union> destroyed es"
  by (auto simp: destroyed_def split: entry.splits)

lemma destroyed_Nil [simp]: "destroyed [] = {}"
  by (simp add: destroyed_def)

lemma sd_step_refl: "sd_step s s"
  by (simp add: sd_step_def)

lemma sd_step_trans: "sd_step s t \<Longrightarrow> sd_step t u \<Longrightarrow> sd_step s u"
  by (force simp: sd_step_def)

lemma sd_step_put: "putState key val s = Inr (v, s') \<Longrightarrow> sd_step s s'"
  by (auto simp: putState_eq sd_step_def)

lemma sd_step_journal_read: "getStateFromJournal key s = Inr (v, s') \<Longrightarrow> sd_step s s'"
  by (auto simp: getStateFromJournal_def Let_def sd_step_def
      split: option.splits if_splits entry.splits)

lemma sd_step_store_read: "getStateFromStore E key s = Inr (v, s') \<Longrightarrow> sd_step s s'"
  by (auto simp: getStateFromStore_def sd_step_def split: sum.splits)

lemma sd_step_blind_set: "SetState E a k v s = Inr (r, s') \<Longrightarrow> sd_step s s'"
  unfolding SetState_def sbind_def Let_def
  by (auto split: sum.splits prod.splits if_splits option.splits simp: sret_def
      dest!: sd_step_journal_read sd_step_put intro: sd_step_trans)

lemma sd_step_runtime:
  "markNewContract a s = Inr (u, s') \<Longrightarrow> sd_step s s'"
  "markSelfDestructed a s = Inr (u, s') \<Longrightarrow> sd_step s s'"
  "AddRefund gas s = Inr (u, s') \<Longrightarrow> sd_step s s'"
  "SubRefund gas s = Inr (u, s') \<Longrightarrow> sd_step s s'"
  "AddLog E l s = Inr (u, s') \<Longrightarrow> sd_step s s'"
  "Snapshot s = Inr (i, s') \<Longrightarrow> sd_step s s'"
  "SetTransientState a k v s = Inr (u, s') \<Longrightarrow> sd_step s s'"
  "AddAddressToAccessList a s = Inr (u, s') \<Longrightarrow> sd_step s s'"
  "AddSlotToAccessList a k s = Inr (u, s') \<Longrightarrow> sd_step s s'"
  by (auto simp: markNewContract_def markSelfDestructed_def AddRefund_def SubRefund_def AddLog_def
      Snapshot_def SetTransientState_def set_transient_def AddAddressToAccessList_def
      AddSlotToAccessList_def Let_def sd_step_def split: if_splits option.splits)

interpretation sd: sdb_interface sd_step "\<lambda>_ _. False" E "env_get E" for E
  by unfold_locales
    (auto simp: sm_sim_unary sreturns_def sbind_def sret_def sd_step_refl split: sum.splits
      intro: sd_step_trans sd_step_journal_read sd_step_store_read sd_step_put sd_step_blind_set
        sd_step_runtime)

lemma revert_entries_destroyed:
  "revert_entries es s = Some s' \<Longrightarrow> sdb_selfDestructed s' = sdb_selfDestructed s - destroyed es"
proof (induction es s rule: revert_entries.induct)
  case (1 s)
  then show ?case by simp
next
  case (2 e es s)
  then obtain t where t: "revert_entry e s = Some t" "revert_entries es t = Some s'"
    by (auto split: option.splits)
  have "sdb_selfDestructed t = sdb_selfDestructed s - destroyed [e]"
    using t(1) by (cases e) (auto simp: set_transient_def Let_def split: option.splits)
  with 2 t show ?case by auto
qed

lemma revert_sd:
  assumes "RevertToSnapshot i s = Inr (u, s')" and "find_revision i (sdb_validRevisions s) = Some idx"
  shows "sdb_selfDestructed s' = sdb_selfDestructed s -
           destroyed (drop (rv_journalIndex (sdb_validRevisions s ! idx)) (sdb_journal s))"
proof -
  have "destroyed (rev es) = destroyed es" for es
    by (simp add: destroyed_def)
  then show ?thesis
    using assms by (auto simp: RevertToSnapshot_def Let_def split: option.splits if_splits
        dest!: revert_entries_destroyed)
qed

lemma sd_since_step: "sd_since s0 s \<Longrightarrow> sd_step s s' \<Longrightarrow> sd_since s0 s'"
  by (force simp: sd_since_def sd_step_def)

lemma sd_since_revert:
  assumes wf: "sdb_wf s" and sd: "sd_since s0 s"
    and len: "length (sdb_journal s0) \<le> rv_journalIndex (sdb_validRevisions s ! idx)"
    and f: "find_revision i (sdb_validRevisions s) = Some idx"
    and r: "RevertToSnapshot i s = Inr (u, s')"
  shows "sd_since s0 s'"
proof -
  let ?ji = "rv_journalIndex (sdb_validRevisions s ! idx)"
  obtain es where es: "sdb_journal s = sdb_journal s0 @ es"
    "sdb_selfDestructed s \<subseteq> sdb_selfDestructed s0 \<union> destroyed es"
    using sd by (auto simp: sd_since_def)
  let ?k = "?ji - length (sdb_journal s0)"
  have "sdb_journal s' = sdb_journal s0 @ take ?k es" "sdb_namespace s' = sdb_namespace s"
    using RevertToSnapshot_law [OF wf f refl] r len es(1) by auto
  moreover have "sdb_selfDestructed s' = sdb_selfDestructed s - destroyed (drop ?k es)"
    using revert_sd [OF r f] len es(1) by simp
  moreover have "destroyed es = destroyed (take ?k es) \<union> destroyed (drop ?k es)"
    by (metis append_take_drop_id destroyed_append)
  ultimately show ?thesis
    using sd es(2) by (auto simp: sd_since_def)
qed

lemma exec_all_sd:
  assumes wf: "sdb_wf s1" and inner: "\<forall>c \<in> set cs. inner_call sid c"
    and sid: "sdb_nextRevisionId s1 = sid + 1" and run: "exec_all E cs s = Inr s'"
    and "grows s1 s" and "sd_since s1 s"
  shows "sd_since s1 s'"
  using inner run assms(5,6)
proof (induction cs arbitrary: s)
  case Nil
  then show ?case by simp
next
  case (Cons c cs)
  then obtain r t where step: "sdb_exec E c s = Inr (r, t)" and rest: "exec_all E cs t = Inr s'"
    by (auto split: sum.splits)
  have "exec_all E [c] s = Inr t" using step by simp
  then have g: "grows s1 t"
    using exec_all_grows [OF wf Cons.prems(3) _ sid, of "[c]"] Cons.prems(1) by simp
  have "sd_since s1 t"
  proof (cases "plain_call c")
    case True
    show ?thesis
      using sd_since_step [OF Cons.prems(4) sd.exec_Q [OF True step]] .
  next
    case False
    with Cons.prems(1) obtain i where i: "c = CRevertToSnapshot i" "sid < i"
      by (cases c) auto
    with step have r: "RevertToSnapshot i s = Inr ((), t)"
      by (auto simp: sreturns_def sbind_def sret_def split: sum.splits)
    show ?thesis
    proof (cases "find_revision i (sdb_validRevisions s)")
      case None
      with r Cons.prems(4) show ?thesis by (simp add: RevertToSnapshot_def)
    next
      case (Some idx)
      have "sdb_nextRevisionId s1 \<le> i" using i sid by simp
      from grows_found [OF wf Cons.prems(3) this Some]
      have "length (sdb_journal s1) \<le> rv_journalIndex (sdb_validRevisions s ! idx)"
        by (metis nth_append_length_plus nth_mem)
      moreover have "sdb_wf s" using Cons.prems(3) wf by (simp add: grows_def)
      ultimately show ?thesis
        using sd_since_revert [OF _ Cons.prems(4) _ Some r] by blast
    qed
  qed
  with Cons.IH [OF _ rest g] Cons.prems(1) show ?case by simp
qed

section \<open>Snapshots\<close>


definition demo_before :: "sdb_call list" where
  "demo_before = [CAddAddressToAccessList 1, CAddRefund 5]"

definition demo_inner :: "sdb_call list" where
  "demo_inner = [CAddRefund 3, CSnapshot, CAddSlotToAccessList 2 3, CRevertToSnapshot 1,
     CSetTransientState 1 2 3, CSetNonce 1 7]"

lemma demo_trace:
  "\<exists>s0 s1 s2. exec_all (demo_env no_records) demo_before (NewStateDB ''ns'' True) = Inr s0 \<and>
     Snapshot s0 = Inr (0, s1) \<and> exec_all (demo_env no_records) demo_inner s1 = Inr s2 \<and>
     sdb_refund s0 = 5 \<and> sdb_refund s2 = 8 \<and> length (sdb_journal s0) = 2 \<and>
     GetTransientState 1 2 s0 = 0 \<and> GetTransientState 1 2 s2 = 3"
  by (simp add: demo_before_def demo_inner_def sreturns_def sdb_eval AddAddressToAccessList_def
      containsAddress_def addAddress_def newAccessList_def AddRefund_def Snapshot_def
      AddSlotToAccessList_def al_contains_def addSlot_def RevertToSnapshot_def deleteSlot_def
      deleteAddress_def SetTransientState_def set_transient_def GetTransientState_def SetNonce_def
      uint64ToBytes_def)


section \<open>The journal, the read-write set and the store\<close>

definition reached :: "sdb_env \<Rightarrow> string \<Rightarrow> bool \<Rightarrow> sdb_call list \<Rightarrow> statedb \<Rightarrow> bool" where
  "reached E ns mv cs s \<longleftrightarrow> exec_all E cs (NewStateDB ns mv) = Inr s"

definition balanceOf :: "sdb_env \<Rightarrow> statedb \<Rightarrow> address \<Rightarrow> u256" where
  "balanceOf E s a =
     (case visible E s (accKey E a ''bal'') of Inl e \<Rightarrow> 0 | Inr v \<Rightarrow> bytesToUint256 v)"

lemma reached_wf: "reached E ns mv cs s \<Longrightarrow> sdb_wf s"
  by (simp add: reached_def exec_all_wf sdb_wf_new)

lemma reached_idx: "reached E ns mv cs s \<Longrightarrow> idx_ok s"
  using reached_wf by (simp add: sdb_wf_def)

lemma exec_namespace:
  assumes "sdb_exec E c s = Inr (r, s')" and "sdb_wf s"
  shows "sdb_namespace s' = sdb_namespace s"
proof (cases "plain_call c")
  case True
  then show ?thesis using sd.exec_Q [OF True assms(1)] by (simp add: sd_step_def)
next
  case False
  then consider i where "c = CRevertToSnapshot i" | sh a b d ps tas where "c = CPrepare sh a b d ps tas"
    by (cases c) auto
  then show ?thesis
  proof cases
    case (1 i)
    then have "RevertToSnapshot i s = Inr ((), s')"
      using assms(1) by (auto simp: sreturns_def sbind_def sret_def split: sum.splits)
    then show ?thesis
      using RevertToSnapshot_law [OF assms(2), of i]
      by (cases "find_revision i (sdb_validRevisions s)") (simp add: RevertToSnapshot_def, fastforce)
  next
    case 2
    then show ?thesis
      using assms(1) by (auto simp: sreturns_def sbind_def sret_def Prepare_def Let_def
          split: sum.splits option.splits)
  qed
qed

lemma reached_namespace:
  assumes "reached E ns mv cs s"
  shows "sdb_namespace s = ns"
proof -
  have "exec_all E cs t = Inr s \<Longrightarrow> sdb_wf t \<Longrightarrow> sdb_namespace s = sdb_namespace t" for t
  proof (induction cs arbitrary: t)
    case (Cons c cs)
    then show ?case
      using exec_namespace [of E c t] exec_wf [of E c t] by (auto split: sum.splits)
  qed simp
  from this [of "NewStateDB ns mv"] assms show ?thesis
    by (simp add: reached_def sdb_wf_new) (simp add: NewStateDB_def)
qed

lemma visible_append:
  assumes "sdb_journal s' = sdb_journal s @ es" and "sdb_namespace s' = sdb_namespace s"
    and "\<forall>e \<in> set es. \<forall>w. e \<noteq> WriteEntry w"
  shows "visible E s' = visible E s"
proof -
  have "lastWrite k es = None" for k
    using assms(3) lastWrite_mem [of k es] by (cases "lastWrite k es") auto
  then show ?thesis
    by (auto simp: visible_def assms lastWrite_append fun_eq_iff split: option.split)
qed

lemma reads_succeed_visible: "reads_succeed (env_get E) \<Longrightarrow> \<exists>v. visible E s k = Inr v"
  unfolding reads_succeed_def visible_def
  by (metis (no_types, lifting) old.sum.simps(6) option.case_eq_if)

lemma visible_balance:
  "visible E s (accKey E a ''bal'') = Inr v \<Longrightarrow> balanceOf E s a = bytesToUint256 v"
  by (simp add: balanceOf_def)

lemma find_write:
  "find (\<lambda>w. kw_key w = k) (rws_writes (Result s)) = lastWrite k (sdb_journal s)"
proof (cases "find (\<lambda>w. kw_key w = k) (rws_writes (Result s))")
  case None
  have "lastWrite k (sdb_journal s) \<noteq> Some w" for w
  proof
    assume "lastWrite k (sdb_journal s) = Some w"
    then have "w \<in> set (rws_writes (Result s)) \<and> kw_key w = k"
      using lastWrite_key by (simp add: Result_writes_iff)
    with None show False unfolding find_None_iff by blast
  qed
  then have "lastWrite k (sdb_journal s) = None" by (metis not_None_eq)
  with None show ?thesis by simp
next
  case (Some w)
  then have "w \<in> set (rws_writes (Result s))" "kw_key w = k"
    unfolding find_Some_iff by auto
  with Some show ?thesis by (simp add: Result_writes_iff)
qed

text \<open>
  C11. The index from keys to journal positions is invisible: in every reachable state
  \<open>getStateFromJournal\<close> returns what a backward scan of the journal for the last write of the key
  returns, a deleting write as nil and found, and does not panic.
\<close>

theorem getStateFromJournal_is_scan:
  assumes "reached E ns mv cs s"
  shows "\<exists>s'. getStateFromJournal key s =
           Inr (case lastWrite key (sdb_journal s) of
                  None \<Rightarrow> (None, False) | Some w \<Rightarrow> (written w, True), s') \<and>
         sdb_journal s' = sdb_journal s"
  using getStateFromJournal_scan [OF reached_idx [OF assms]] by simp

theorem getStateFromJournal_is_scan_witness:
  "\<exists>s s'. reached (demo_env no_records) ''ns'' True [CSetNonce 1 2, CGetNonce 1, CSetNonce 1 3] s \<and>
     getStateFromJournal (accKey (demo_env no_records) 1 ''nonce'') s = Inr ((uint64ToBytes 3, True), s')"
proof -
  let ?E = "demo_env no_records"
  obtain s where s: "reached ?E ''ns'' True [CSetNonce 1 2, CGetNonce 1, CSetNonce 1 3] s"
    and j: "lastWrite (accKey ?E 1 ''nonce'') (sdb_journal s) =
      Some \<lparr>kw_key = accKey ?E 1 ''nonce'', kw_isdelete = False, kw_value = uint64ToBytes 3\<rparr>"
    by (simp add: reached_def sreturns_def SetNonce_def GetNonce_def sdb_eval uint64ToBytes_def
        bytesToUint64_def)
  from getStateFromJournal_is_scan [OF s, of "accKey ?E 1 ''nonce''"] j s show ?thesis
    by (auto simp: written_def)
qed

text \<open>
  C12. The read-write set is what execution saw.  In every reachable state \<open>Result\<close> has one read per
  key and one write per key, the write set holds the last write of each key, and reading any key
  through the state returns the write set's value (nil for a delete), or else the store's record.
\<close>

theorem Result_read_your_writes:
  assumes "reached E ns mv cs s"
  shows "distinct (map kr_key (rws_reads (Result s))) \<and> distinct (map kw_key (rws_writes (Result s))) \<and>
     (\<forall>key. \<exists>s'. getState E key s =
        Inr (case find (\<lambda>w. kw_key w = key) (rws_writes (Result s)) of
               Some w \<Rightarrow> Inr (written w)
             | None \<Rightarrow> map_sum id record_value (env_get E ns key), s'))"
proof -
  have "\<exists>s'. getState E key s =
        Inr (case find (\<lambda>w. kw_key w = key) (rws_writes (Result s)) of
               Some w \<Rightarrow> Inr (written w)
             | None \<Rightarrow> map_sum id record_value (env_get E ns key), s')" for key
  proof -
    have "visible E s key = (case find (\<lambda>w. kw_key w = key) (rws_writes (Result s)) of
               Some w \<Rightarrow> Inr (written w)
             | None \<Rightarrow> map_sum id record_value (env_get E ns key))"
      unfolding find_write visible_def reached_namespace [OF assms]
      by (auto split: option.split sum.split)
    with getState_visible [OF reached_idx [OF assms], of E key] show ?thesis by auto
  qed
  then show ?thesis
    by (simp add: Result_reads_distinct Result_writes_distinct)
qed

theorem Result_read_your_writes_witness:
  "\<exists>s s'. reached (demo_env no_records) ''ns'' True [CAddBalance 1 9, CSubBalance 1 9] s \<and>
     getState (demo_env no_records) (accKey (demo_env no_records) 1 ''bal'') s = Inr (Inr None, s') \<and>
     map kw_isdelete (rws_writes (Result s)) = [True]"
proof -
  let ?E = "demo_env no_records"
  obtain s where s: "reached ?E ''ns'' True [CAddBalance 1 9, CSubBalance 1 9] s"
    and w: "rws_writes (Result s) = [\<lparr>kw_key = accKey ?E 1 ''bal'', kw_isdelete = True, kw_value = None\<rparr>]"
    by (simp add: reached_def sreturns_def AddBalance_def SubBalance_def GetBalance_def Result_def sdb_eval
        min_be_byte)
  have "\<exists>s'. getState ?E (accKey ?E 1 ''bal'') s = Inr (Inr None, s')"
    using Result_read_your_writes [OF s, THEN conjunct2, THEN conjunct2, rule_format,
        of "accKey ?E 1 ''bal''"] w by (simp add: written_def)
  with w s show ?thesis by auto
qed

section \<open>Accounts\<close>

lemma AddBalance_balanceOf:
  assumes "idx_ok s" and "reads_succeed (env_get E)" and "hex_ok E"
  shows "\<exists>p s'. AddBalance E a x s = Inr (p, s') \<and> idx_ok s' \<and>
     (x \<noteq> 0 \<longrightarrow> p = balanceOf E s a) \<and> balanceOf E s' a = balanceOf E s a + x \<and>
     (\<forall>k. k \<noteq> accKey E a ''bal'' \<longrightarrow> visible E s' k = visible E s k)"
proof (cases "x = 0")
  case True
  then show ?thesis using assms by (simp add: AddBalance_def sret_def)
next
  case False
  obtain v where v: "visible E s (accKey E a ''bal'') = Inr v"
    using reads_succeed_visible [OF assms(2)] by blast
  from AddBalance_visible [OF assms(1) v False] obtain s' where s': "AddBalance E a x s = Inr (bytesToUint256 v, s')"
    "idx_ok s'" "visible E s' = (visible E s)(accKey E a ''bal'' :=
       Inr (normal (uint256ToBytes (bytesToUint256 v + x))))"
    by blast
  then show ?thesis
    using v by (simp add: balanceOf_def)
qed

lemma SubBalance_balanceOf:
  assumes "idx_ok s" and "reads_succeed (env_get E)" and "hex_ok E"
  shows "\<exists>p s'. SubBalance E a x s = Inr (p, s') \<and> idx_ok s' \<and>
     (x \<noteq> 0 \<longrightarrow> p = balanceOf E s a) \<and> balanceOf E s' a = balanceOf E s a - x \<and>
     (\<forall>k. k \<noteq> accKey E a ''bal'' \<longrightarrow> visible E s' k = visible E s k)"
proof (cases "x = 0")
  case True
  then show ?thesis using assms by (simp add: SubBalance_def sret_def)
next
  case False
  then show ?thesis
    using AddBalance_balanceOf [OF assms, of a "- x"] by (simp add: SubBalance_AddBalance)
qed

lemma balanceOf_cong: "visible E s' (accKey E a ''bal'') = visible E s (accKey E a ''bal'') \<Longrightarrow>
    balanceOf E s' a = balanceOf E s a"
  by (simp add: balanceOf_def)

text \<open>
  C21. A value transfer conserves balances.  In every reachable state, \<open>SubBalance\<close> of \<open>x\<close> from one
  account followed by \<open>AddBalance\<close> of \<open>x\<close> to another returns the two previous balances, moves
  exactly \<open>x\<close> (modulo 2 to the power 256, without an underflow check, as the code has none), keeps
  the sum, and changes no other account's balance and no nonce, code or storage value.
\<close>

theorem transfer_conserves:
  assumes "reached E ns mv cs s" and "reads_succeed (env_get E)" and "hex_ok E" and "a \<noteq> b" and "x \<noteq> 0"
  shows "\<exists>s1 s2. SubBalance E a x s = Inr (balanceOf E s a, s1) \<and>
     AddBalance E b x s1 = Inr (balanceOf E s b, s2) \<and>
     balanceOf E s2 a = balanceOf E s a - x \<and> balanceOf E s2 b = balanceOf E s b + x \<and>
     balanceOf E s2 a + balanceOf E s2 b = balanceOf E s a + balanceOf E s b \<and>
     (\<forall>k. k \<noteq> accKey E a ''bal'' \<and> k \<noteq> accKey E b ''bal'' \<longrightarrow> visible E s2 k = visible E s k)"
proof -
  note idx = reached_idx [OF assms(1)]
  obtain s1 where s1: "SubBalance E a x s = Inr (balanceOf E s a, s1)" "idx_ok s1"
    "balanceOf E s1 a = balanceOf E s a - x"
    "\<forall>k. k \<noteq> accKey E a ''bal'' \<longrightarrow> visible E s1 k = visible E s k"
    using SubBalance_balanceOf [OF idx assms(2,3), of a x] assms(5) by auto
  obtain s2 where s2: "AddBalance E b x s1 = Inr (balanceOf E s1 b, s2)"
    "balanceOf E s2 b = balanceOf E s1 b + x"
    "\<forall>k. k \<noteq> accKey E b ''bal'' \<longrightarrow> visible E s2 k = visible E s1 k"
    using AddBalance_balanceOf [OF s1(2) assms(2,3), of b x] assms(5) by auto
  have "balanceOf E s1 b = balanceOf E s b" "balanceOf E s2 a = balanceOf E s1 a"
    using s1(4) s2(3) assms(3,4) by (auto intro!: balanceOf_cong)
  with s1 s2 show ?thesis by (intro exI [of _ s1] exI [of _ s2]) simp
qed

theorem transfer_conserves_witness:
  "\<exists>s s1 s2. reached (demo_env no_records) ''ns'' True [CAddBalance 1 9] s \<and>
     SubBalance (demo_env no_records) 1 4 s = Inr (9, s1) \<and>
     AddBalance (demo_env no_records) 2 4 s1 = Inr (0, s2) \<and>
     balanceOf (demo_env no_records) s2 1 = 5 \<and> balanceOf (demo_env no_records) s2 2 = 4"
proof -
  let ?E = "demo_env no_records"
  obtain s where s: "reached ?E ''ns'' True [CAddBalance 1 9] s"
    and b: "balanceOf ?E s 1 = 9" "balanceOf ?E s 2 = 0"
    by (simp add: reached_def sreturns_def AddBalance_def GetBalance_def sdb_eval
        min_be_byte balanceOf_def visible_def written_def record_value_def)
  have "reads_succeed (env_get ?E)" by (simp add: reads_succeed_def no_records_def)
  from transfer_conserves [OF s this hex_ok_demo, of 1 2 4] s b show ?thesis
    by auto
qed

text \<open>What the code relies on of go-ethereum's hashes: 32 bytes, and converting back is the identity.\<close>

definition hash_bytes_ok :: "sdb_env \<Rightarrow> bool" where
  "hash_bytes_ok E \<longleftrightarrow> (\<forall>h. length (env_hashBytes E h) = 32 \<and> env_bytesToHash E (env_hashBytes E h) = h)"

lemma hash_bytes_ok_demo: "hash_bytes_ok (demo_env get)"
proof -
  have "unat h < 256 ^ 32" for h :: hash using unsigned_less [of h] by simp
  then show ?thesis by (simp add: hash_bytes_ok_def demo_env_def unbe_be)
qed

lemma SetState_visible:
  assumes "idx_ok s" and "reads_succeed (env_get E)"
  shows "\<exists>p s'. SetState E a k v s = Inr (p, s') \<and> idx_ok s' \<and> sdb_namespace s' = sdb_namespace s \<and>
     visible E s' = (visible E s)(storeKey E a k :=
       Inr (normal (if v = 0 then None else Some (env_hashBytes E v))))"
proof -
  let ?key = "storeKey E a k" and ?val = "if v = 0 then None else Some (env_hashBytes E v)"
  let ?s = "s\<lparr>sdb_writeIdx := Some (journal_index (sdb_journal s))\<rparr>"
  obtain rec where rec: "env_get E (sdb_namespace s) ?key = Inr rec"
    using assms(2) unfolding reads_succeed_def by blast
  obtain s' where s': "putState ?key ?val ?s = Inr ((), s')"
    "visible E s' = (visible E ?s)(?key := Inr (normal ?val))" "idx_ok s'"
    using putState_spec [of ?key ?val ?s E] by auto
  moreover have "\<exists>p. SetState E a k v s = Inr (p, s')"
    using getStateFromJournal_scan [OF assms(1), of ?key] rec s'(1)
    by (auto simp: SetState_def Let_def sbind_def sret_def split: option.split)
  moreover have "sdb_namespace s' = sdb_namespace s"
    using s'(1) by (auto simp: putState_eq)
  ultimately show ?thesis by auto
qed

text \<open>
  C22. Storage behaves as the EVM expects.  In every reachable state, after \<open>SetState\<close> of a slot,
  \<open>GetState\<close> returns the value written (zero included, which is journalled as a delete),
  \<open>GetStateAndCommittedState\<close> returns it with the value the store holds, and no other slot and no
  account field changes.
\<close>

theorem SetState_GetState:
  assumes "reached E ns mv cs s" and "reads_succeed (env_get E)" and "hash_bytes_ok E"
    and committed: "env_get E ns (storeKey E a k) = Inr rec"
  shows "\<exists>p s1 s2 s3. SetState E a k v s = Inr (p, s1) \<and> GetState E a k s1 = Inr (v, s2) \<and>
     GetStateAndCommittedState E a k s1 = Inr ((v, hashOf E (record_value rec)), s3) \<and>
     (\<forall>key. key \<noteq> storeKey E a k \<longrightarrow> visible E s1 key = visible E s key)"
proof -
  let ?key = "storeKey E a k" and ?val = "normal (if v = 0 then None else Some (env_hashBytes E v))"
  obtain p s1 where s1: "SetState E a k v s = Inr (p, s1)" "idx_ok s1" "sdb_namespace s1 = ns"
    "visible E s1 = (visible E s)(?key := Inr ?val)"
    using SetState_visible [OF reached_idx [OF assms(1)] assms(2), of a k v]
      reached_namespace [OF assms(1)] by auto
  have h: "hashOf E ?val = v"
    using assms(3) by (auto simp: hashOf_def normal_def glen_def gbytes_def hash_bytes_ok_def)
  have "visible E s1 ?key = Inr ?val" using s1(4) by simp
  from GetState_visible [OF s1(2) this] h have 1: "\<exists>s2. GetState E a k s1 = Inr (v, s2)" by auto
  have "lastWrite ?key (sdb_journal s1) \<noteq> None"
    using s1(1) by (auto simp: SetState_def Let_def sbind_def sret_def putState_eq lastWrite_append
        split: sum.splits prod.splits if_splits option.splits)
  then obtain w where w: "lastWrite ?key (sdb_journal s1) = Some w" "written w = ?val"
    using \<open>visible E s1 ?key = Inr ?val\<close> by (auto simp: visible_def)
  have "\<exists>s3. GetStateAndCommittedState E a k s1 = Inr ((v, hashOf E (record_value rec)), s3)"
    using getStateFromJournal_scan [OF s1(2), of ?key] w h committed s1(3)
    by (simp add: GetStateAndCommittedState_def Let_def sbind_def orPanic_def getStateFromStore_def
        sret_def record_value_def)
  with 1 s1 show ?thesis by simp
qed

theorem SetState_GetState_witness:
  "\<exists>s p s1 s2 s3. reached (demo_env no_records) ''ns'' True [CSetState 1 2 3] s \<and>
     SetState (demo_env no_records) 1 2 0 s = Inr (p, s1) \<and>
     GetState (demo_env no_records) 1 2 s1 = Inr (0, s2) \<and>
     GetStateAndCommittedState (demo_env no_records) 1 2 s1 = Inr ((0, 0), s3)"
proof -
  let ?E = "demo_env no_records"
  obtain s where s: "reached ?E ''ns'' True [CSetState 1 2 3] s"
    by (simp add: reached_def sreturns_def SetState_def sdb_eval)
  have rs: "reads_succeed (env_get ?E)" by (simp add: reads_succeed_def no_records_def)
  have "env_get ?E ''ns'' (storeKey ?E 1 2) = Inr None" by (simp add: no_records_def)
  from SetState_GetState [OF s rs hash_bytes_ok_demo this, of 0] s show ?thesis
    by (auto simp: record_value_def hashOf_def glen_def)
qed

text \<open>
  C23. SELFDESTRUCT follows EIP-6780.  In every reachable state \<open>SelfDestruct\<close> zeroes the account's
  balance and touches no other key; it marks the account as destroyed exactly when the account was
  created in the current transaction, and unmarks none.
\<close>

theorem SelfDestruct_eip6780:
  assumes "reached E ns mv cs s" and "reads_succeed (env_get E)" and "hex_ok E"
  shows "\<exists>s'. SelfDestruct E a s = Inr ((), s') \<and> balanceOf E s' a = 0 \<and>
     (\<forall>k. k \<noteq> accKey E a ''bal'' \<longrightarrow> visible E s' k = visible E s k) \<and>
     (\<forall>b. HasSelfDestructed b s' \<longleftrightarrow> HasSelfDestructed b s \<or> (b = a \<and> IsNewContract a s))"
proof -
  let ?key = "accKey E a ''bal''"
  obtain v where v: "visible E s ?key = Inr v"
    using reads_succeed_visible [OF assms(2)] by blast
  obtain s1 where s1: "GetBalance E a s = Inr (bytesToUint256 v, s1)" "idx_ok s1"
    "visible E s1 = visible E s"
    using GetBalance_visible [OF reached_idx [OF assms(1)] v] by blast
  have new1: "sdb_newContracts s1 = sdb_newContracts s" "sdb_selfDestructed s1 = sdb_selfDestructed s"
    using s1(1) by (auto simp: GetBalance_def sbind_def sret_def orPanic_def spanic_def getState_def
        getStateFromStore_def getStateFromJournal_def Let_def
        split: sum.splits option.splits if_splits entry.splits prod.splits)
  let ?m = "if bytesToUint256 v \<noteq> 0 then putState ?key (uint256ToBytes 0) else sret ()"
  obtain s2 where s2: "?m s1 = Inr ((), s2)" "balanceOf E s2 a = 0"
    "\<forall>k. k \<noteq> ?key \<longrightarrow> visible E s2 k = visible E s k"
    "sdb_newContracts s2 = sdb_newContracts s" "sdb_selfDestructed s2 = sdb_selfDestructed s"
  proof (cases "bytesToUint256 v = 0")
    case True
    with v s1(3) new1 show thesis by (intro that [of s1]) (simp_all add: sret_def balanceOf_def)
  next
    case False
    obtain s2 where "putState ?key (uint256ToBytes 0) s1 = Inr ((), s2)"
      "visible E s2 = (visible E s1)(?key := Inr (normal (uint256ToBytes 0)))"
      using putState_spec by blast
    with False s1(3) new1 show thesis
      by (intro that [of s2]) (auto simp: balanceOf_def putState_eq)
  qed
  have "\<exists>s'. markSelfDestructed a s2 = Inr ((), s') \<and> visible E s' = visible E s2 \<and>
      sdb_selfDestructed s' = sdb_selfDestructed s2 \<union> (if a \<in> sdb_newContracts s2 then {a} else {})"
    by (auto simp: markSelfDestructed_def intro: visible_append)
  with s1 s2 show ?thesis
    by (auto simp: SelfDestruct_def sbind_def HasSelfDestructed_def IsNewContract_def balanceOf_def)
qed

theorem SelfDestruct_eip6780_witness:
  "\<exists>s s'. reached (demo_env no_records) ''ns'' True [CCreateContract 1, CAddBalance 1 9] s \<and>
     balanceOf (demo_env no_records) s 1 = 9 \<and>
     SelfDestruct (demo_env no_records) 1 s = Inr ((), s') \<and>
     balanceOf (demo_env no_records) s' 1 = 0 \<and> HasSelfDestructed 1 s'"
proof -
  let ?E = "demo_env no_records"
  obtain s where s: "reached ?E ''ns'' True [CCreateContract 1, CAddBalance 1 9] s"
    and b: "balanceOf ?E s 1 = 9" "IsNewContract 1 s"
    by (simp add: reached_def sreturns_def CreateContract_def markNewContract_def AddBalance_def
        GetBalance_def sdb_eval min_be_byte balanceOf_def visible_def written_def record_value_def
        IsNewContract_def)
  have "reads_succeed (env_get ?E)" by (simp add: reads_succeed_def no_records_def)
  from SelfDestruct_eip6780 [OF s this hex_ok_demo, of 1] s b show ?thesis by auto
qed

text \<open>
  C24. A created account exists and is empty.  In every reachable state, after \<open>CreateAccount\<close> the
  account's balance and nonce read zero, \<open>Exist\<close> answers true although the zero balance is
  journalled as a delete, because the nonce is written as eight bytes, and the account counts as
  created in this transaction.
\<close>

theorem CreateAccount_exists:
  assumes "reached E ns mv cs s" and "hex_ok E"
  shows "\<exists>s1 s2 s3 s4. CreateAccount E a s = Inr ((), s1) \<and> GetBalance E a s1 = Inr (0, s2) \<and>
     GetNonce E a s1 = Inr (0, s3) \<and> Exist E a s1 = Inr (True, s4) \<and> IsNewContract a s1 \<and>
     (\<forall>k. k \<noteq> accKey E a ''bal'' \<and> k \<noteq> accKey E a ''nonce'' \<longrightarrow> visible E s1 k = visible E s k)"
proof -
  let ?b = "accKey E a ''bal''" and ?n = "accKey E a ''nonce''"
  obtain t where t: "putState ?b (uint256ToBytes 0) s = Inr ((), t)" "idx_ok t"
    "visible E t = (visible E s)(?b := Inr (normal (uint256ToBytes 0)))"
    using putState_spec [of ?b "uint256ToBytes 0" s E] reached_idx [OF assms(1)] by auto
  obtain u where u: "putState ?n (uint64ToBytes 0) t = Inr ((), u)" "idx_ok u"
    "visible E u = (visible E t)(?n := Inr (normal (uint64ToBytes 0)))"
    using putState_spec [of ?n "uint64ToBytes 0" t E] t(2) by auto
  have "\<exists>s1. markNewContract a u = Inr ((), s1) \<and> IsNewContract a s1 \<and> idx_ok s1 \<and>
      visible E s1 = visible E u"
    using u(2) by (auto simp: markNewContract_def IsNewContract_def intro: visible_append idx_ok_append)
  then obtain s1 where s1: "markNewContract a u = Inr ((), s1)" "IsNewContract a s1" "idx_ok s1"
    "visible E s1 = visible E u"
    by blast
  have vb: "visible E s1 ?b = Inr (normal (uint256ToBytes 0))"
    and vn: "visible E s1 ?n = Inr (normal (uint64ToBytes 0))"
    using s1(4) u(3) t(3) assms(2) by simp_all
  have nb: "normal (uint256ToBytes 0) = None" "normal (uint64ToBytes 0) = Some (be 8 0)"
    by (simp_all add: normal_def uint256ToBytes_def uint64ToBytes_def glen_def)
  have 1: "\<exists>s2. GetBalance E a s1 = Inr (0, s2)" "\<exists>s3. GetNonce E a s1 = Inr (0, s3)"
    using GetBalance_visible [OF s1(3) vb] GetNonce_visible [OF s1(3) vn, of 0] by auto
  obtain w where w: "getState E ?b s1 = Inr (Inr None, w)" "idx_ok w" "visible E w = visible E s1"
    using getState_visible [OF s1(3), of E ?b] vb nb by auto
  obtain x where "getState E ?n w = Inr (Inr (Some (be 8 0)), x)"
    using getState_visible [OF w(2), of E ?n] vn nb w(3) by auto
  with w(1) have "Exist E a s1 = Inr (True, x)"
    by (simp add: Exist_def exist_field_def sbind_def sret_def)
  moreover have "CreateAccount E a s = Inr ((), s1)"
    using t(1) u(1) s1(1) by (simp add: CreateAccount_def sbind_def)
  ultimately show ?thesis
    using 1 s1(2,4) u(3) t(3) by auto
qed

theorem CreateAccount_exists_witness:
  "\<exists>s s1 s4. reached (demo_env no_records) ''ns'' True [CSetNonce 1 4] s \<and>
     CreateAccount (demo_env no_records) 1 s = Inr ((), s1) \<and>
     Exist (demo_env no_records) 1 s1 = Inr (True, s4)"
proof -
  obtain s where s: "reached (demo_env no_records) ''ns'' True [CSetNonce 1 4] s"
    by (simp add: reached_def sreturns_def SetNonce_def sdb_eval)
  from CreateAccount_exists [OF s hex_ok_demo, of 1] s show ?thesis by blast
qed

section \<open>The access list\<close>

text \<open>
  C25. The access list is a set of addresses and of address-slot pairs.  In every reachable state no
  access-list method indexes \<open>al.slots\<close> out of range; \<open>AddSlotToAccessList\<close> adds exactly the
  address and the pair, and \<open>AddAddressToAccessList\<close> exactly the address.
\<close>

theorem access_list_is_a_set:
  assumes "reached E ns mv cs s"
  shows "(\<exists>s'. AddSlotToAccessList a k s = Inr ((), s') \<and>
       (\<forall>b l. SlotInAccessList b l s' =
          Some (b = a \<or> AddressInAccessList b s, (b, l) = (a, k) \<or> SlotInAccessList b l s = Some (True, True)))) \<and>
     (\<exists>s'. AddAddressToAccessList a s = Inr ((), s') \<and>
       (\<forall>b l. SlotInAccessList b l s' =
          Some (b = a \<or> AddressInAccessList b s, SlotInAccessList b l s = Some (True, True))))"
proof -
  let ?al = "sdb_accessList s"
  have al: "al_wf ?al" using reached_wf [OF assms] by (simp add: sdb_wf_def)
  have sub: "(b, l) \<in> al_pairs ?al \<Longrightarrow> b \<in> al_addrs ?al" for b l
    by (auto simp: al_pairs_def al_addrs_def)
  obtain al' where al': "addSlot ?al a k = Some al'" "al_wf al'" "al_addrs al' = insert a (al_addrs ?al)"
    "al_pairs al' = insert (a, k) (al_pairs ?al)"
    using addSlot_set [OF al] by blast
  have "\<exists>s'. AddSlotToAccessList a k s = Inr ((), s') \<and> al_wf (sdb_accessList s') \<and>
      al_addrs (sdb_accessList s') = insert a (al_addrs ?al) \<and>
      al_pairs (sdb_accessList s') = insert (a, k) (al_pairs ?al)"
    using al al' by (auto simp: AddSlotToAccessList_def al_contains_eq)
  moreover have "\<exists>s'. AddAddressToAccessList a s = Inr ((), s') \<and> al_wf (sdb_accessList s') \<and>
      al_addrs (sdb_accessList s') = insert a (al_addrs ?al) \<and>
      al_pairs (sdb_accessList s') = al_pairs ?al"
    using al by (auto simp: AddAddressToAccessList_def containsAddress_iff addAddress_set)
  ultimately show ?thesis
    using sub al
    by (auto simp: SlotInAccessList_def AddressInAccessList_def al_contains_eq containsAddress_iff)
qed

theorem access_list_is_a_set_witness:
  "\<exists>s s'. reached (demo_env no_records) ''ns'' True [CAddAddressToAccessList 1] s \<and>
     AddSlotToAccessList 1 2 s = Inr ((), s') \<and> SlotInAccessList 1 2 s' = Some (True, True)"
proof -
  obtain s where s: "reached (demo_env no_records) ''ns'' True [CAddAddressToAccessList 1] s"
    by (simp add: reached_def sreturns_def AddAddressToAccessList_def sdb_eval containsAddress_def
        newAccessList_def)
  from access_list_is_a_set [OF s, of 1 2] s show ?thesis by auto
qed

section \<open>Two limits of reverting\<close>


text \<open>A program that branches on a storage slot it read inside a call frame that it then reverts.\<close>

definition branch_next :: "history \<Rightarrow> sdb_call option" where
  "branch_next h =
     (if length h = 0 then Some CSnapshot
      else if length h = 1 then Some (CGetState 1 2)
      else if length h = 2 then Some (CRevertToSnapshot 0)
      else if length h = 3 \<and> snd (h ! 1) = RHash 0 then Some (CSetNonce 1 1)
      else None)"

definition slot_set :: "string \<Rightarrow> string \<Rightarrow> write_record option result" where
  "slot_set ns k = Inr (Some (demo_record 4 [9]))"


end
