(* ===== verification/LightKVS.thy ===== *)
theory LightKVS
  imports KvsSpec
begin

text \<open>
  The model of \<open>endorser/storage/lightkvs.go\<close>: the in-memory store whose current state and recent
  history are immutable snapshots, the history being a ring of \<open>historySize\<close> slots.  Every write is
  versioned one above the key's previous version, and a delete is kept as a tombstone.

  The store is shown to implement the ledger of \<open>KvsSpec\<close> (interpretation \<open>lk\<close> of \<open>block_store\<close>);
  the ring invariant \<open>ring_ok\<close> says which snapshots the slots hold.
\<close>

section \<open>Data\<close>

record kv_snapshot =
  sn_block :: u64
  sn_data :: "string \<Rightarrow> value_version option"
  sn_placeholder :: bool

record lightkvs =
  lk_current :: kv_snapshot
  lk_history :: "kv_snapshot option list"
  lk_next :: u32

text \<open>A reader holds a snapshot until it is closed.\<close>

type_synonym reader = "kv_snapshot option"

section \<open>Operations\<close>

definition NewLightKVS :: "nat \<Rightarrow> lightkvs" where
  "NewLightKVS historySize =
     \<lparr>lk_current = \<lparr>sn_block = 0, sn_data = Map.empty, sn_placeholder = True\<rparr>,
      lk_history = replicate historySize None, lk_next = 0\<rparr>"

fun find_snapshot :: "u64 \<Rightarrow> kv_snapshot option list \<Rightarrow> kv_snapshot option" where
  "find_snapshot bn [] = None"
| "find_snapshot bn (None # hs) = find_snapshot bn hs"
| "find_snapshot bn (Some sn # hs) = (if sn_block sn = bn then Some sn else find_snapshot bn hs)"

definition LightKVS_NewSnapshot :: "lightkvs \<Rightarrow> u64 option \<Rightarrow> reader result" where
  "LightKVS_NewSnapshot kvs blockNumber =
     (let current = lk_current kvs in
      case blockNumber of
        None \<Rightarrow> Inr (Some current)
      | Some bn \<Rightarrow>
          if sn_block current \<le> bn then Inr (Some current)
          else (case find_snapshot bn (lk_history kvs) of
                  Some sn \<Rightarrow> Inr (Some sn)
                | None \<Rightarrow> Inl ''snapshot not found for block number''))"

definition Reader_Get :: "reader \<Rightarrow> string \<Rightarrow> string \<Rightarrow> write_record option result" where
  "Reader_Get r namespace key =
     (case r of
        None \<Rightarrow> Inl ''reader is closed''
      | Some snapshot \<Rightarrow>
          (case sn_data snapshot (fullKey namespace key) of
             None \<Rightarrow> Inr None
           | Some vv \<Rightarrow> Inr (Some (record_of namespace key vv))))"

definition Reader_Close :: "reader \<Rightarrow> reader" where
  "Reader_Close r = None"

definition LightKVS_Get :: "lightkvs \<Rightarrow> string \<Rightarrow> string \<Rightarrow> write_record option result" where
  "LightKVS_Get kvs namespace key =
     (case LightKVS_NewSnapshot kvs None of
        Inl e \<Rightarrow> Inl e
      | Inr r \<Rightarrow> Reader_Get r namespace key)"

text \<open>The loop of \<open>applyUpdates\<close>: \<open>nextVersion\<close> holds the version of the next write of a key.\<close>

fun apply_loop ::
    "(string \<Rightarrow> value_version option) \<Rightarrow> (string \<Rightarrow> u64 option) \<Rightarrow> (string \<Rightarrow> value_version option)
       \<Rightarrow> kv_update list \<Rightarrow> (string \<Rightarrow> value_version option)" where
  "apply_loop oldData nextVersion newData [] = newData"
| "apply_loop oldData nextVersion newData (u # us) =
     (let version = (case nextVersion (ku_key u) of
                       Some v \<Rightarrow> v
                     | None \<Rightarrow> (case oldData (ku_key u) of
                                  Some existing \<Rightarrow> vv_version existing + 1
                                | None \<Rightarrow> 0))
      in apply_loop oldData (nextVersion(ku_key u \<mapsto> version + 1))
           (newData(ku_key u \<mapsto>
              \<lparr>vv_value = ku_value u, vv_block = ku_block u, vv_tx = ku_tx u, vv_version = version,
               vv_txid = ku_txid u, vv_isdelete = ku_isdelete u\<rparr>)) us)"

definition applyUpdates ::
    "(string \<Rightarrow> value_version option) \<Rightarrow> kv_update list \<Rightarrow> (string \<Rightarrow> value_version option)" where
  "applyUpdates oldData updates = apply_loop oldData Map.empty oldData updates"

text \<open>Writing a slot outside the ring panics, as does the remainder by an empty ring's length.\<close>

definition applyBlock :: "lightkvs \<Rightarrow> u64 \<Rightarrow> kv_update list \<Rightarrow> lightkvs result" where
  "applyBlock kvs blockNum updates =
     (let oldSnapshot = lk_current kvs;
          newSnapshot = \<lparr>sn_block = blockNum, sn_data = applyUpdates (sn_data oldSnapshot) updates,
                         sn_placeholder = False\<rparr>;
          idx = lk_next kvs
      in if length (lk_history kvs) \<le> unat idx then Inl ''index out of range''
         else Inr (kvs\<lparr>lk_history := (lk_history kvs)[unat idx := Some oldSnapshot],
                       lk_next := (idx + 1) mod of_nat (length (lk_history kvs)),
                       lk_current := newSnapshot\<rparr>))"

definition final_updates :: "kv_update list \<Rightarrow> (string \<times> kv_update) list" where
  "final_updates updates = foldl (\<lambda>m u. AList.update (ku_key u) u m) [] updates"

definition verify_one :: "kv_snapshot \<Rightarrow> string \<Rightarrow> kv_update \<Rightarrow> unit result" where
  "verify_one current key u =
     (case sn_data current key of
        None \<Rightarrow> if ku_isdelete u then Inl ''nothing stored for this key, replayed is a delete''
                else Inl ''nothing stored for this key, replayed is a value write''
      | Some existing \<Rightarrow>
          if vv_isdelete existing \<noteq> ku_isdelete u then
            (if ku_isdelete u then Inl ''existing value present, replayed is a delete''
             else Inl ''existing is a delete, replayed is a value write'')
          else if vv_txid existing \<noteq> ku_txid u then Inl ''stored by another tx''
          else if \<not> ku_isdelete u \<and> gbytes (vv_value existing) \<noteq> gbytes (ku_value u) then
            Inl ''stored value differs from replayed''
          else Inr ())"

fun verify_loop :: "kv_snapshot \<Rightarrow> (string \<times> kv_update) list \<Rightarrow> unit result" where
  "verify_loop current [] = Inr ()"
| "verify_loop current ((key, u) # rest) =
     (case verify_one current key u of Inl e \<Rightarrow> Inl e | Inr _ \<Rightarrow> verify_loop current rest)"

definition verifyReplay :: "kv_snapshot \<Rightarrow> kv_update list \<Rightarrow> unit result" where
  "verifyReplay current updates = verify_loop current (final_updates updates)"

definition LightKVS_Handle :: "lightkvs \<Rightarrow> block \<Rightarrow> lightkvs result" where
  "LightKVS_Handle kvs b =
     (let current = lk_current kvs in
      if \<not> sn_placeholder current \<and> bk_number b < sn_block current then Inr kvs
      else
        let allUpdates = block_updates b in
        if \<not> sn_placeholder current \<and> bk_number b = sn_block current then
          (case verifyReplay current allUpdates of Inl e \<Rightarrow> Inl e | Inr _ \<Rightarrow> Inr kvs)
        else applyBlock kvs (bk_number b) allUpdates)"

definition LightKVS_BlockNumber :: "lightkvs \<Rightarrow> u64" where
  "LightKVS_BlockNumber kvs = sn_block (lk_current kvs)"

section \<open>Updates implement the ledger\<close>

lemma apply_loop_spec:
  assumes "\<And>k. nv k = (if writes_to k vs = [] then None else Some (of_nat (length (writes_to k (us @ vs)))))"
  shows "apply_loop (spec_data us) nv (spec_data (us @ vs)) ws = spec_data (us @ vs @ ws)"
  using assms
proof (induction ws arbitrary: nv vs)
  case Nil
  then show ?case by simp
next
  case (Cons u ws)
  let ?k = "ku_key u"
  let ?version = "case nv ?k of Some v \<Rightarrow> v
     | None \<Rightarrow> (case spec_data us ?k of Some existing \<Rightarrow> vv_version existing + 1 | None \<Rightarrow> 0)"
  have version: "?version = of_nat (length (writes_to ?k (us @ vs)))"
  proof (cases "writes_to ?k vs = []")
    case True
    then show ?thesis
      by (cases "writes_to ?k us" rule: rev_cases) (auto simp: Cons.prems spec_data_def version_at_def)
  qed (simp add: Cons.prems)
  let ?nv = "nv(?k \<mapsto> ?version + 1)"
  have nv: "?nv k = (if writes_to k (vs @ [u]) = [] then None
                     else Some (of_nat (length (writes_to k (us @ vs @ [u])))))" for k
    unfolding version by (simp add: Cons.prems writes_to_Cons)
  have data: "(spec_data (us @ vs))(?k \<mapsto> \<lparr>vv_value = ku_value u, vv_block = ku_block u, vv_tx = ku_tx u,
      vv_version = ?version, vv_txid = ku_txid u, vv_isdelete = ku_isdelete u\<rparr>) = spec_data (us @ vs @ [u])"
    unfolding version append_assoc [symmetric] spec_data_snoc version_at_def ..
  have "apply_loop (spec_data us) ?nv (spec_data (us @ vs @ [u])) ws = spec_data (us @ (vs @ [u]) @ ws)"
    by (rule Cons.IH) (rule nv)
  then show ?case
    unfolding apply_loop.simps Let_def data by simp
qed

lemma applyUpdates_spec: "applyUpdates (spec_data us) vs = spec_data (us @ vs)"
  using apply_loop_spec [of Map.empty "[]" us vs] by (simp add: applyUpdates_def)

section \<open>The ring\<close>

definition snap_of :: "block list \<Rightarrow> kv_snapshot" where
  "snap_of l = \<lparr>sn_block = ledger_height l, sn_data = spec_data (ledger_updates l),
                sn_placeholder = (l = [])\<rparr>"

definition ring_ok :: "nat \<Rightarrow> kv_snapshot option list \<Rightarrow> block list \<Rightarrow> bool" where
  "ring_ok h hist l \<longleftrightarrow>
     length hist = h \<and>
     (\<forall>i < h. (hist ! i = None \<and> length l \<le> i) \<or>
        (\<exists>j < length l. j mod h = i \<and> length l \<le> j + h \<and> hist ! i = Some (snap_of (take j l))))"

definition lk_rel :: "lightkvs \<Rightarrow> block list \<Rightarrow> bool" where
  "lk_rel kvs l \<longleftrightarrow>
     ledger_ok l \<and> lk_current kvs = snap_of l \<and>
     0 < length (lk_history kvs) \<and> length (lk_history kvs) < 2 ^ 32 \<and>
     unat (lk_next kvs) = length l mod length (lk_history kvs) \<and>
     ring_ok (length (lk_history kvs)) (lk_history kvs) l"

lemma snap_of_block [simp]: "sn_block (snap_of l) = ledger_height l"
  by (simp add: snap_of_def)

lemma ring_ok_new: "ring_ok h (replicate h None) []"
  by (simp add: ring_ok_def)

lemma ring_ok_push:
  assumes "ring_ok h hist l" and "0 < h"
  shows "ring_ok h (hist[length l mod h := Some (snap_of l)]) (l @ [b])"
  unfolding ring_ok_def
proof (intro conjI allI impI)
  show "length (hist[length l mod h := Some (snap_of l)]) = h"
    using assms(1) by (simp add: ring_ok_def)
next
  fix i
  assume i: "i < h"
  let ?hist = "hist[length l mod h := Some (snap_of l)]"
  have len: "length hist = h" using assms(1) by (simp add: ring_ok_def)
  show "(?hist ! i = None \<and> length (l @ [b]) \<le> i) \<or>
    (\<exists>j < length (l @ [b]). j mod h = i \<and> length (l @ [b]) \<le> j + h \<and>
       ?hist ! i = Some (snap_of (take j (l @ [b]))))"
  proof (cases "i = length l mod h")
    case True
    then show ?thesis
      using i len assms(2) by (intro disjI2 exI [of _ "length l"]) simp
  next
    case False
    then have h: "?hist ! i = hist ! i" by simp
    have "(hist ! i = None \<and> length l \<le> i) \<or>
      (\<exists>j < length l. j mod h = i \<and> length l \<le> j + h \<and> hist ! i = Some (snap_of (take j l)))"
      using assms(1) i unfolding ring_ok_def by simp
    then consider "hist ! i = None" "length l \<le> i"
      | j where "j < length l" "j mod h = i" "length l \<le> j + h" "hist ! i = Some (snap_of (take j l))"
      by (elim disjE exE conjE)
    then show ?thesis
    proof cases
      case 1
      then have "length l \<noteq> i" using False i by auto
      with 1 h show ?thesis by simp
    next
      case (2 j)
      then have "length l \<noteq> j + h" using False by auto
      with 2 h show ?thesis by (intro disjI2 exI [of _ j]) simp
    qed
  qed
qed

lemma ring_ok_slot:
  assumes "ring_ok h hist l" and "Some sn \<in> set hist"
  shows "\<exists>j < length l. length l \<le> j + h \<and> sn = snap_of (take j l)"
proof -
  obtain i where "i < h" "hist ! i = Some sn"
    using assms by (auto simp: ring_ok_def in_set_conv_nth)
  with assms(1) show ?thesis
    unfolding ring_ok_def by (metis option.distinct(1) option.inject)
qed

lemma ring_ok_available:
  assumes "ring_ok h hist l" and "0 < h" and "j < length l" and "length l \<le> j + h"
  shows "Some (snap_of (take j l)) \<in> set hist"
proof -
  let ?i = "j mod h"
  have i: "?i < h" and len: "length hist = h" using assms by (simp_all add: ring_ok_def)
  have "\<not> length l \<le> ?i" using assms(3) mod_less_eq_dividend [of j h] by linarith
  with assms(1) i obtain j' where j': "j' < length l" "j' mod h = ?i" "length l \<le> j' + h"
    "hist ! ?i = Some (snap_of (take j' l))"
    unfolding ring_ok_def by blast
  have "j' = j"
  proof (rule ccontr)
    assume "j' \<noteq> j"
    then have "h \<le> j' - j \<or> h \<le> j - j'"
      using j'(2) by (metis mod_eq_dvd_iff_nat nat_dvd_not_less nat_le_linear not_le zero_less_diff le_neq_implies_less)
    then show False using j' assms(3,4) by auto
  qed
  with j'(4) i len show ?thesis by (metis nth_mem)
qed

lemma find_snapshot_Some:
  "find_snapshot bn hs = Some sn \<Longrightarrow> Some sn \<in> set hs \<and> sn_block sn = bn"
  by (induction bn hs rule: find_snapshot.induct) (auto split: if_splits)

lemma find_snapshot_None: "find_snapshot bn hs = None \<Longrightarrow> Some sn \<in> set hs \<Longrightarrow> sn_block sn \<noteq> bn"
  by (induction bn hs rule: find_snapshot.induct) (auto split: if_splits)

section \<open>The store implements the contract\<close>

lemma next_index:
  assumes "unat (i :: u32) = n mod h" and "0 < h" and "h < 2 ^ 32"
  shows "unat ((i + 1) mod of_nat h) = Suc n mod h"
proof -
  have "unat i < h" using assms by simp
  then have "unat (i + 1) = unat i + 1"
    using assms(3) by (simp add: unat_word_ariths(1))
  moreover have "unat (of_nat h :: u32) = h"
    using assms(3) by (simp add: unat_of_nat)
  ultimately show ?thesis
    using assms(1) by (simp add: unat_mod mod_Suc_eq)
qed

lemma snap_of_height: "0 < j \<Longrightarrow> j \<le> length l \<Longrightarrow> sn_block (snap_of (take j l)) = bk_number (l ! (j - 1))"
  by (cases j) (auto simp: snap_of_def ledger_height_def take_Suc_conv_app_nth)

lemma applyBlock_rel:
  assumes rel: "lk_rel kvs l" and new: "applied l b = l @ [b]"
  shows "\<exists>kvs'. applyBlock kvs (bk_number b) (block_updates b) = Inr kvs' \<and> lk_rel kvs' (l @ [b]) \<and>
           length (lk_history kvs') = length (lk_history kvs)"
proof -
  let ?h = "length (lk_history kvs)"
  have r: "ledger_ok l" "lk_current kvs = snap_of l" "0 < ?h" "?h < 2 ^ 32"
    "unat (lk_next kvs) = length l mod ?h" "ring_ok ?h (lk_history kvs) l"
    using rel by (auto simp: lk_rel_def)
  have "length l mod ?h < ?h" using r(3) by (rule mod_less_divisor)
  moreover have "ledger_ok (l @ [b])" using ledger_ok_applied [OF r(1), of b] new by simp
  ultimately show ?thesis
    using r ring_ok_push [OF r(6,3), of b] next_index [OF r(5,3,4)]
    by (simp add: applyBlock_def Let_def lk_rel_def snap_of_def applyUpdates_spec not_le)
qed

lemma Handle_rel:
  assumes rel: "lk_rel kvs l" and h: "LightKVS_Handle kvs b = Inr kvs'"
  shows "lk_rel kvs' (applied l b)"
proof (cases "applied l b = l")
  case True
  then have "l \<noteq> []" "\<not> bk_number (last l) < bk_number b"
    by (auto simp: applied_def split: if_splits)
  then have "kvs' = kvs"
    using h rel by (auto simp: LightKVS_Handle_def Let_def lk_rel_def snap_of_def ledger_height_def
        split: if_splits sum.splits)
  with True rel show ?thesis by simp
next
  case False
  then have new: "applied l b = l @ [b]" "l = [] \<or> bk_number (last l) < bk_number b"
    by (auto simp: applied_def split: if_splits)
  then have "LightKVS_Handle kvs b = applyBlock kvs (bk_number b) (block_updates b)"
    using rel by (auto simp: LightKVS_Handle_def Let_def lk_rel_def snap_of_def ledger_height_def)
  with applyBlock_rel [OF rel new(1)] h new(1) show ?thesis by auto
qed

lemma NewSnapshot_rel:
  assumes rel: "lk_rel kvs l" and s: "LightKVS_NewSnapshot kvs q = Inr r" and q: "q \<noteq> Some 0"
  shows "\<exists>p. r = Some (snap_of p) \<and> p = upto_block q l"
proof (cases q)
  case None
  with s rel show ?thesis by (auto simp: LightKVS_NewSnapshot_def lk_rel_def upto_block_def)
next
  case (Some bn)
  have ok: "ledger_ok l" and cur: "lk_current kvs = snap_of l"
    and ring: "ring_ok (length (lk_history kvs)) (lk_history kvs) l"
    using rel by (auto simp: lk_rel_def)
  show ?thesis
  proof (cases "ledger_height l \<le> bn")
    case True
    with s cur Some upto_block_all [OF ok True] show ?thesis
      by (simp add: LightKVS_NewSnapshot_def snap_of_def)
  next
    case False
    with s cur Some obtain sn where sn: "find_snapshot bn (lk_history kvs) = Some sn" "r = Some sn"
      by (auto simp: LightKVS_NewSnapshot_def snap_of_def split: option.splits)
    obtain j where j: "j < length l" "sn = snap_of (take j l)" "sn_block sn = bn"
      using find_snapshot_Some [OF sn(1)] ring_ok_slot [OF ring] by blast
    have "bn \<noteq> 0" using q Some by simp
    then have "0 < j" using j(2,3) by (cases j) (auto simp: snap_of_def ledger_height_def)
    then have "bn = bk_number (l ! (j - 1))"
      using j snap_of_height [of j l] by simp
    with upto_block_take [OF ok, of "j - 1"] j \<open>0 < j\<close> sn(2) Some show ?thesis by simp
  qed
qed

definition lk_open :: "lightkvs \<Rightarrow> u64 option \<Rightarrow> (reader \<times> lightkvs) result" where
  "lk_open kvs q = map_sum id (\<lambda>r. (r, kvs)) (LightKVS_NewSnapshot kvs q)"

definition lk_pinned :: "lightkvs \<Rightarrow> reader \<Rightarrow> block list \<Rightarrow> bool" where
  "lk_pinned kvs r p \<longleftrightarrow> r = Some (snap_of p)"

lemma lk_relD: "lk_rel kvs l \<Longrightarrow> ledger_ok l" "lk_rel kvs l \<Longrightarrow> lk_current kvs = snap_of l"
  by (simp_all add: lk_rel_def)

lemma Reader_Get_snap: "Reader_Get (Some (snap_of p)) ns key = Inr (spec_get p ns key)"
  by (simp add: Reader_Get_def snap_of_def spec_get_def split: option.split)

interpretation lk: block_store LightKVS_Handle lk_open "\<lambda>_. Reader_Get" LightKVS_BlockNumber lk_rel lk_pinned "\<lambda>_. True"
proof unfold_locales
  fix s l q r s'
  assume rel: "lk_rel s l" and o: "lk_open s q = Inr (r, s')" and "askable l q"
  then have q: "q \<noteq> Some 0" by (auto simp: askable_def)
  from o have "LightKVS_NewSnapshot s q = Inr r" "s' = s"
    by (auto simp: lk_open_def map_sum_def split: sum.splits)
  with NewSnapshot_rel [OF rel _ q] rel show "lk_rel s' l \<and> lk_pinned s' r (upto_block q l)"
    by (auto simp: lk_pinned_def)
qed (auto simp: lk_pinned_def Reader_Get_snap LightKVS_BlockNumber_def lk_open_def
    LightKVS_NewSnapshot_def lk_relD intro: Handle_rel)

lemmas lk_all = lk.handle_all_law [OF _ _ all_blocks]

lemma lk_rel_new: "0 < h \<Longrightarrow> h < 2 ^ 32 \<Longrightarrow> lk_rel (NewLightKVS h) []"
  by (simp add: lk_rel_def NewLightKVS_def snap_of_def ledger_height_def ring_ok_new fun_eq_iff)

section \<open>Redelivery\<close>

lemma map_of_final_updates:
  "map_of (final_updates us) k = (if writes_to k us = [] then None else Some (last (writes_to k us)))"
proof (induction us rule: rev_induct)
  case Nil
  then show ?case by (simp add: final_updates_def)
next
  case (snoc u us)
  then show ?case by (simp add: final_updates_def update_conv' writes_to_Cons)
qed

lemma distinct_final_updates: "distinct (map fst (final_updates us))"
  unfolding final_updates_def
  by (induction us rule: rev_induct) (simp_all add: distinct_update)

lemma final_updates_iff:
  "(k, u) \<in> set (final_updates us) \<longleftrightarrow> writes_to k us \<noteq> [] \<and> u = last (writes_to k us)"
  using map_of_eq_Some_iff [OF distinct_final_updates, of us k u] map_of_final_updates [of us k]
  by (auto split: if_splits)

lemma verify_loop_iff:
  "verify_loop current m = Inr () \<longleftrightarrow> (\<forall>k u. (k, u) \<in> set m \<longrightarrow> verify_one current k u = Inr ())"
  by (induction current m rule: verify_loop.induct) (auto split: sum.splits)

definition stored_as :: "value_version \<Rightarrow> kv_update \<Rightarrow> bool" where
  "stored_as vv u \<longleftrightarrow> vv_isdelete vv = ku_isdelete u \<and> vv_txid vv = ku_txid u \<and>
     (ku_isdelete u \<or> gbytes (vv_value vv) = gbytes (ku_value u))"

lemma verify_one_iff:
  "verify_one current k u = Inr () \<longleftrightarrow> (\<exists>vv. sn_data current k = Some vv \<and> stored_as vv u)"
  by (auto simp: verify_one_def stored_as_def split: option.splits)

lemma verifyReplay_iff:
  "verifyReplay current us = Inr () \<longleftrightarrow>
     (\<forall>k. writes_to k us \<noteq> [] \<longrightarrow>
        (\<exists>vv. sn_data current k = Some vv \<and> stored_as vv (last (writes_to k us))))"
  by (auto simp: verifyReplay_def verify_loop_iff verify_one_iff final_updates_iff)

lemma verifyReplay_own: "verifyReplay (snap_of (l @ [b])) (block_updates b) = Inr ()"
  by (auto simp: verifyReplay_iff snap_of_def spec_data_Some stored_as_def version_at_def)

lemma Handle_again:
  assumes "lk_rel kvs l" and "LightKVS_Handle kvs b = Inr kvs'" and "applied l b = l @ [b]"
  shows "LightKVS_Handle kvs' b = Inr kvs'"
proof -
  have "lk_current kvs' = snap_of (l @ [b])"
    using Handle_rel [OF assms(1,2)] assms(3) by (simp add: lk_relD)
  then show ?thesis
    by (simp add: LightKVS_Handle_def Let_def verifyReplay_own) (simp add: snap_of_def)
qed

lemma Handle_length:
  "LightKVS_Handle kvs b = Inr kvs' \<Longrightarrow> length (lk_history kvs') = length (lk_history kvs)"
  by (auto simp: LightKVS_Handle_def Let_def applyBlock_def split: sum.splits if_splits)

lemma handle_all_length:
  "handle_all LightKVS_Handle bs kvs = Inr kvs' \<Longrightarrow> length (lk_history kvs') = length (lk_history kvs)"
  by (induction bs arbitrary: kvs) (auto split: sum.splits dest: Handle_length)

section \<open>Properties\<close>

abbreviation ledger_of :: "block list \<Rightarrow> block list" where
  "ledger_of bs \<equiv> foldl applied [] bs"

text \<open>
  C8. Time travel and isolation of the in-memory store.  After any sequence of delivered blocks, a
  reader opened at the latest height or at a block above zero returns, now and after any further
  blocks, exactly the ledger's record of each key as of that block: the last write of the key up to
  it, with the number of earlier writes of the key as its version.  The latest read and the reported
  height are those of the whole ledger.
\<close>

theorem LightKVS_time_travel:
  assumes "0 < h" and "h < 2 ^ 32" and "handle_all LightKVS_Handle bs (NewLightKVS h) = Inr s"
    and "LightKVS_NewSnapshot s q = Inr r" and "q \<noteq> Some 0"
    and "handle_all LightKVS_Handle cs s = Inr s'"
  shows "Reader_Get r ns key = Inr (spec_get (upto_block q (ledger_of bs)) ns key) \<and>
     LightKVS_Get s' ns key = Inr (spec_get (ledger_of (bs @ cs)) ns key) \<and>
     LightKVS_BlockNumber s' = ledger_height (ledger_of (bs @ cs))"
proof -
  have rel: "lk_rel s (ledger_of bs)"
    using lk_all [OF lk_rel_new [OF assms(1,2)] assms(3)] .
  have r: "r = Some (snap_of (upto_block q (ledger_of bs)))"
    using NewSnapshot_rel [OF rel assms(4,5)] by blast
  have rel': "lk_rel s' (ledger_of (bs @ cs))"
    using lk_all [OF rel assms(6)] by simp
  show ?thesis
    using r lk.height_law [OF rel'] lk_relD(2) [OF rel']
    by (simp add: LightKVS_Get_def LightKVS_NewSnapshot_def Reader_Get_snap)
qed

definition demo_write :: "u64 \<Rightarrow> string \<Rightarrow> bytes option \<Rightarrow> block" where
  "demo_write n k v = \<lparr>bk_number = n, bk_hash = [], bk_parent = [], bk_timestamp = 0,
     bk_txs = [\<lparr>bt_id = ''t'', bt_number = 0, bt_valid = True,
       bt_nsrws = [\<lparr>nr_namespace = ''ns'', nr_rws = \<lparr>rws_reads = [],
         rws_writes = [\<lparr>kw_key = k, kw_isdelete = (v = None), kw_value = v\<rparr>]\<rparr>\<rparr>],
       bt_eventname = [], bt_event = [], bt_inputargs = [], bt_payload = []\<rparr>]\<rparr>"

lemma replicate_2_3: "replicate 2 x = [x, x]" "replicate 3 x = [x, x, x]"
  by (simp_all add: numeral_eq_Suc)

lemmas lk_eval = demo_write_def NewLightKVS_def LightKVS_Handle_def applyBlock_def applyUpdates_def
  block_updates_def collectWrites_def fullKey_def LightKVS_NewSnapshot_def Let_def
  replicate_2_3

theorem LightKVS_time_travel_witness:
  "\<exists>s r s'. handle_all LightKVS_Handle [demo_write 1 ''k'' (Some [5]), demo_write 2 ''k'' None] (NewLightKVS 2) = Inr s \<and>
     LightKVS_NewSnapshot s (Some 1) = Inr r \<and>
     handle_all LightKVS_Handle [demo_write 4 ''k'' (Some [7])] s = Inr s' \<and>
     map_sum id (map_option wr_value) (Reader_Get r ''ns'' ''k'') = Inr (Some (Some [5])) \<and>
     map_sum id (map_option wr_version) (LightKVS_Get s' ''ns'' ''k'') = Inr (Some 2)"
proof -
  let ?bs = "[demo_write 1 ''k'' (Some [5]), demo_write 2 ''k'' None]"
  let ?cs = "[demo_write 4 ''k'' (Some [7])]"
  have "\<exists>s. handle_all LightKVS_Handle ?bs (NewLightKVS 2) = Inr s \<and>
      (\<exists>r. LightKVS_NewSnapshot s (Some 1) = Inr r) \<and> (\<exists>s'. handle_all LightKVS_Handle ?cs s = Inr s')"
    by (simp add: lk_eval)
  then obtain s r s' where s: "handle_all LightKVS_Handle ?bs (NewLightKVS 2) = Inr s"
    and rs: "LightKVS_NewSnapshot s (Some 1) = Inr r" "handle_all LightKVS_Handle ?cs s = Inr s'"
    by blast
  have "(0::nat) < 2" "(2::nat) < 2 ^ 32" "(Some 1 :: u64 option) \<noteq> Some 0" by simp_all
  from LightKVS_time_travel [OF this(1,2) s rs(1) this(3) rs(2), of "''ns''" "''k''"]
  have "Reader_Get r ''ns'' ''k'' = Inr (spec_get (upto_block (Some 1) (ledger_of ?bs)) ''ns'' ''k'')"
    "LightKVS_Get s' ''ns'' ''k'' = Inr (spec_get (ledger_of (?bs @ ?cs)) ''ns'' ''k'')"
    by blast+
  moreover have "map_option wr_value (spec_get (upto_block (Some 1) (ledger_of ?bs)) ''ns'' ''k'') = Some (Some [5])"
    "map_option wr_version (spec_get (ledger_of (?bs @ ?cs)) ''ns'' ''k'') = Some 2"
    by (simp_all add: applied_def upto_block_def spec_get_def spec_data_def writes_to_def ledger_updates_def
        demo_write_def block_updates_def collectWrites_def fullKey_def version_at_def record_of_def)
      (simp add: word_le_nat_alt)
  ultimately show ?thesis using s rs by auto
qed

text \<open>
  C26. The history window.  After any sequence of delivered blocks, a snapshot above zero can be opened
  exactly when it is at or past the tip or is the number of one of the last \<open>historySize\<close> applied
  blocks before it; the ring never loses a block early and never keeps one longer.
\<close>

theorem LightKVS_window:
  assumes "0 < h" and "h < 2 ^ 32" and "handle_all LightKVS_Handle bs (NewLightKVS h) = Inr s" and "0 < n"
  shows "(\<exists>r. LightKVS_NewSnapshot s (Some n) = Inr r) \<longleftrightarrow>
     ledger_height (ledger_of bs) \<le> n \<or>
     (\<exists>j. 0 < j \<and> j < length (ledger_of bs) \<and> length (ledger_of bs) \<le> j + h \<and>
          bk_number (ledger_of bs ! (j - 1)) = n)"
proof -
  let ?l = "ledger_of bs"
  have rel: "lk_rel s ?l"
    using lk_all [OF lk_rel_new [OF assms(1,2)] assms(3)] .
  have len: "length (lk_history s) = h"
    using handle_all_length [OF assms(3)] by (simp add: NewLightKVS_def)
  have ring: "ring_ok h (lk_history s) ?l" and cur: "lk_current s = snap_of ?l"
    using rel len by (auto simp: lk_rel_def)
  have "find_snapshot n (lk_history s) \<noteq> None \<longleftrightarrow>
     (\<exists>j. 0 < j \<and> j < length ?l \<and> length ?l \<le> j + h \<and> bk_number (?l ! (j - 1)) = n)" (is "?L \<longleftrightarrow> ?R")
  proof
    assume ?L
    then obtain sn where sn: "find_snapshot n (lk_history s) = Some sn" by blast
    then obtain j where j: "j < length ?l" "length ?l \<le> j + h" "sn = snap_of (take j ?l)" "sn_block sn = n"
      using find_snapshot_Some [OF sn] ring_ok_slot [OF ring] by blast
    then have "0 < j" using assms(4) by (cases j) (auto simp: ledger_height_def)
    with j snap_of_height [of j ?l] show ?R by auto
  next
    assume ?R
    then obtain j where j: "0 < j" "j < length ?l" "length ?l \<le> j + h" "bk_number (?l ! (j - 1)) = n" by blast
    have "Some (snap_of (take j ?l)) \<in> set (lk_history s)"
      using ring_ok_available [OF ring assms(1) j(2,3)] .
    moreover have "sn_block (snap_of (take j ?l)) = n"
      using snap_of_height [of j ?l] j by simp
    ultimately show ?L using find_snapshot_None by blast
  qed
  then show ?thesis
    by (auto simp: LightKVS_NewSnapshot_def cur split: option.splits)
qed

theorem LightKVS_window_witness:
  "\<exists>s r. handle_all LightKVS_Handle [demo_write 1 ''k'' None, demo_write 2 ''k'' None, demo_write 3 ''k'' None]
       (NewLightKVS 2) = Inr s \<and> LightKVS_NewSnapshot s (Some 2) = Inr r"
proof -
  let ?bs = "[demo_write 1 ''k'' None, demo_write 2 ''k'' None, demo_write 3 ''k'' None]"
  have "\<exists>s. handle_all LightKVS_Handle ?bs (NewLightKVS 2) = Inr s"
    by (simp add: lk_eval word_less_nat_alt)
  then obtain s where s: "handle_all LightKVS_Handle ?bs (NewLightKVS 2) = Inr s" by blast
  have "(0::nat) < 2" "(2::nat) < 2 ^ 32" "(0 :: u64) < 2" by simp_all
  note iff = LightKVS_window [OF this(1,2) s this(3)]
  have l: "ledger_of ?bs = ?bs" by (simp add: applied_def demo_write_def)
  have "\<exists>j. 0 < j \<and> j < length (ledger_of ?bs) \<and> length (ledger_of ?bs) \<le> j + 2 \<and>
      bk_number (ledger_of ?bs ! (j - 1)) = 2"
    unfolding l by (intro exI [of _ "2::nat"]) (simp add: demo_write_def)
  with iff s show ?thesis by blast
qed

text \<open>
  C27. Redelivery of the tip is verified.  Once a block has been applied, delivering it again changes
  nothing; and a block with the tip's number is accepted only if, for every key it writes, its last
  write agrees with what is stored for the key (kind, transaction id and value), and then also changes
  nothing, so a redelivery never bumps a version.
\<close>

theorem LightKVS_redelivery:
  assumes "0 < h" and "h < 2 ^ 32" and "handle_all LightKVS_Handle bs (NewLightKVS h) = Inr s"
    and "LightKVS_Handle s b = Inr s'" and "applied (ledger_of bs) b \<noteq> ledger_of bs"
  shows "LightKVS_Handle s' b = Inr s' \<and>
     (\<forall>c s''. bk_number c = bk_number b \<longrightarrow> LightKVS_Handle s' c = Inr s'' \<longrightarrow>
        s'' = s' \<and>
        (\<forall>k. writes_to k (block_updates c) \<noteq> [] \<longrightarrow>
           (\<exists>vv. sn_data (lk_current s') k = Some vv \<and> stored_as vv (last (writes_to k (block_updates c))))))"
proof -
  have rel: "lk_rel s (ledger_of bs)"
    using lk_all [OF lk_rel_new [OF assms(1,2)] assms(3)] .
  have new: "applied (ledger_of bs) b = ledger_of bs @ [b]"
    using assms(5) by (auto simp: applied_def split: if_splits)
  have cur: "lk_current s' = snap_of (ledger_of bs @ [b])"
    using Handle_rel [OF rel assms(4)] new by (simp add: lk_relD)
  have "verifyReplay (lk_current s') (block_updates c) = Inr () \<and> s'' = s'"
    if "bk_number c = bk_number b" "LightKVS_Handle s' c = Inr s''" for c s''
    using that cur by (auto simp: LightKVS_Handle_def Let_def snap_of_def split: sum.splits)
  with Handle_again [OF rel assms(4) new] show ?thesis
    by (auto simp: verifyReplay_iff)
qed

theorem LightKVS_redelivery_witness:
  "\<exists>s'. LightKVS_Handle (NewLightKVS 2) (demo_write 1 ''k'' (Some [5])) = Inr s' \<and>
     LightKVS_Handle s' (demo_write 1 ''k'' (Some [5])) = Inr s'"
proof -
  let ?b = "demo_write 1 ''k'' (Some [5])"
  obtain s' where s': "LightKVS_Handle (NewLightKVS 2) ?b = Inr s'" by (simp add: lk_eval)
  have "handle_all LightKVS_Handle [] (NewLightKVS 2) = Inr (NewLightKVS 2)" by simp
  moreover have "applied (ledger_of []) ?b \<noteq> ledger_of []" by (simp add: applied_def)
  ultimately show ?thesis
    using LightKVS_redelivery [of 2 "[]" "NewLightKVS 2" ?b s'] s' by simp
qed


end
