(* ===== verification/RevertibleKVS.thy ===== *)
theory RevertibleKVS
  imports LightKVS
begin

text \<open>
  The model of \<open>endorser/storage/revertible_lightkvs.go\<close>.  \<open>RevertibleLightKVS\<close> embeds a \<open>LightKVS\<close>
  (the record \<^typ>\<open>lightkvs\<close>), keeps its history as an oldest-first list instead of a ring, answers
  heights between snapshots by the nearest older one, and can be rewound to a block of its window.

  Without reverts it implements the ledger contract (interpretation \<open>rv\<close>).  With reverts the data is
  no longer a ledger's: \<open>rv_inv\<close> relates it to the list of every update ever applied, which reverts
  do not shorten, so that the version of a key always counts its writes.
\<close>

section \<open>Operations\<close>

definition NewRevertibleLightKVS :: "lightkvs \<Rightarrow> lightkvs" where
  "NewRevertibleLightKVS kvs = kvs\<lparr>lk_next := 0\<rparr>"

text \<open>
  The scan of the history, with the index each candidate was found at: the last snapshot numbered
  \<open>bn\<close>, and the first one with the highest number below \<open>bn\<close>.
\<close>

fun scan_history ::
    "u64 \<Rightarrow> nat \<Rightarrow> kv_snapshot option list \<Rightarrow> (nat \<times> kv_snapshot) option \<Rightarrow> (nat \<times> kv_snapshot) option
       \<Rightarrow> (nat \<times> kv_snapshot) option \<times> (nat \<times> kv_snapshot) option" where
  "scan_history bn i [] exact best = (exact, best)"
| "scan_history bn i (None # hs) exact best = scan_history bn (Suc i) hs exact best"
| "scan_history bn i (Some sn # hs) exact best =
     (if sn_block sn = bn then scan_history bn (Suc i) hs (Some (i, sn)) best
      else if sn_block sn < bn \<and> (case best of None \<Rightarrow> True | Some (_, b) \<Rightarrow> sn_block b < sn_block sn)
      then scan_history bn (Suc i) hs exact (Some (i, sn))
      else scan_history bn (Suc i) hs exact best)"

definition Revertible_NewSnapshot :: "lightkvs \<Rightarrow> u64 option \<Rightarrow> reader result" where
  "Revertible_NewSnapshot kvs blockNumber =
     (let current = lk_current kvs in
      case blockNumber of
        None \<Rightarrow> Inr (Some current)
      | Some bn \<Rightarrow>
          if sn_block current \<le> bn then Inr (Some current)
          else (case scan_history bn 0 (lk_history kvs) None None of
                  (Some (_, exact), _) \<Rightarrow> Inr (Some exact)
                | (None, Some (_, best)) \<Rightarrow> Inr (Some best)
                | (None, None) \<Rightarrow> Inl ''snapshot not found for block number''))"

definition Revertible_Get :: "lightkvs \<Rightarrow> string \<Rightarrow> string \<Rightarrow> write_record option result" where
  "Revertible_Get kvs namespace key =
     (case Revertible_NewSnapshot kvs None of
        Inl e \<Rightarrow> Inl e
      | Inr r \<Rightarrow> Reader_Get r namespace key)"

text \<open>The loop that forgets the oldest entry: slot \<open>i\<close> moves to slot \<open>i - 1\<close> for \<open>0 < i < filled\<close>.\<close>

definition shift_history :: "nat \<Rightarrow> 'a list \<Rightarrow> 'a list" where
  "shift_history filled hs = foldl (\<lambda>acc i. acc[i - 1 := acc ! i]) hs [1..<filled]"

definition applyBlockSequential :: "lightkvs \<Rightarrow> u64 \<Rightarrow> kv_update list \<Rightarrow> lightkvs result" where
  "applyBlockSequential kvs blockNum updates =
     (let oldSnapshot = lk_current kvs;
          newSnapshot = \<lparr>sn_block = blockNum, sn_data = applyUpdates (sn_data oldSnapshot) updates,
                         sn_placeholder = False\<rparr>;
          filled = unat (lk_next kvs);
          n = length (lk_history kvs)
      in if n = 0 then Inr (kvs\<lparr>lk_current := newSnapshot\<rparr>)
         else
           let hist = (if filled = n then shift_history filled (lk_history kvs) else lk_history kvs);
               c = (if filled = n then filled - 1 else filled)
           in if n \<le> c then Inl ''index out of range''
              else Inr (kvs\<lparr>lk_history := hist[c := Some oldSnapshot], lk_next := of_nat (c + 1),
                            lk_current := newSnapshot\<rparr>))"

definition Revertible_Handle :: "lightkvs \<Rightarrow> block \<Rightarrow> lightkvs result" where
  "Revertible_Handle kvs b =
     (let current = lk_current kvs in
      if \<not> sn_placeholder current \<and> bk_number b < sn_block current then Inr kvs
      else
        let updates = block_updates b in
        if \<not> sn_placeholder current \<and> bk_number b = sn_block current then
          (case verifyReplay current updates of Inl e \<Rightarrow> Inl e | Inr _ \<Rightarrow> Inr kvs)
        else applyBlockSequential kvs (bk_number b) updates)"

definition merge_data ::
    "(string \<Rightarrow> value_version option) \<Rightarrow> (string \<Rightarrow> value_version option) \<Rightarrow> string \<Rightarrow> value_version option" where
  "merge_data current target key =
     (case current key of
        None \<Rightarrow> None
      | Some currentValue \<Rightarrow>
          (case target key of
             Some targetValue \<Rightarrow>
               Some \<lparr>vv_value = vv_value targetValue, vv_block = vv_block currentValue,
                     vv_tx = vv_tx currentValue, vv_version = vv_version currentValue,
                     vv_txid = vv_txid currentValue, vv_isdelete = vv_isdelete targetValue\<rparr>
           | None \<Rightarrow>
               Some \<lparr>vv_value = None, vv_block = vv_block currentValue, vv_tx = vv_tx currentValue,
                     vv_version = vv_version currentValue, vv_txid = vv_txid currentValue,
                     vv_isdelete = True\<rparr>))"

text \<open>The target of a revert: the exact snapshot, else, for a block in the past, the nearest older.\<close>

definition revert_target :: "lightkvs \<Rightarrow> u64 \<Rightarrow> (nat \<times> kv_snapshot) option" where
  "revert_target kvs bn =
     (case scan_history bn 0 (lk_history kvs) None None of
        (Some t, _) \<Rightarrow> Some t
      | (None, best) \<Rightarrow> if bn < sn_block (lk_current kvs) then best else None)"

definition clear_from :: "nat \<Rightarrow> nat \<Rightarrow> 'a option list \<Rightarrow> 'a option list" where
  "clear_from i filled hs = foldl (\<lambda>acc k. acc[k := None]) hs [i..<filled]"

definition RevertToBlock :: "lightkvs \<Rightarrow> u64 \<Rightarrow> lightkvs result" where
  "RevertToBlock kvs blockNumber =
     (if sn_block (lk_current kvs) = blockNumber then Inr kvs
      else case revert_target kvs blockNumber of
             None \<Rightarrow> Inl ''cannot revert: snapshot not found for block number''
           | Some (targetIndex, target) \<Rightarrow>
               Inr (kvs\<lparr>lk_current := \<lparr>sn_block = blockNumber,
                          sn_data = merge_data (sn_data (lk_current kvs)) (sn_data target),
                          sn_placeholder = False\<rparr>,
                        lk_history := clear_from targetIndex (unat (lk_next kvs)) (lk_history kvs),
                        lk_next := of_nat targetIndex\<rparr>))"

section \<open>The history list\<close>

lemma shift_history_eq: "shift_history (length hs) hs = tl hs @ (if hs = [] then [] else [last hs])"
proof -
  have step: "foldl (\<lambda>acc i. acc[i - 1 := acc ! i]) hs [1..<n] = take (n - 1) (tl hs) @ drop (n - 1) hs"
    if "n \<le> length hs" for n
    using that
  proof (induction n)
    case 0
    then show ?case by simp
  next
    case (Suc n)
    show ?case
    proof (cases n)
      case 0
      then show ?thesis by simp
    next
      case (Suc m)
      have len: "Suc m < length hs" using Suc.prems Suc by simp
      then have nth: "(take m (tl hs) @ drop m hs) ! Suc m = hs ! Suc m"
        by (simp add: nth_append)
      have upd: "(take m (tl hs) @ drop m hs)[m := hs ! Suc m] = take (Suc m) (tl hs) @ drop (Suc m) hs"
      proof -
        have "drop m hs = hs ! m # drop (Suc m) hs" using len by (simp add: Cons_nth_drop_Suc)
        moreover have "take (Suc m) (tl hs) = take m (tl hs) @ [hs ! Suc m]"
          using len by (simp add: take_Suc_conv_app_nth nth_tl)
        ultimately show ?thesis using len by (simp add: list_update_append)
      qed
      have "[1..<Suc n] = [1..<n] @ [n]" using Suc by simp
      with Suc.IH Suc.prems Suc nth upd show ?thesis by simp
    qed
  qed
  show ?thesis
  proof (cases hs rule: rev_cases)
    case Nil
    then show ?thesis by (simp add: shift_history_def)
  next
    case (snoc ys y)
    then show ?thesis
      using step [of "length hs"] by (cases ys) (auto simp: shift_history_def)
  qed
qed

lemma clear_from_eq:
  "filled \<le> length hs \<Longrightarrow> i \<le> filled \<Longrightarrow>
     clear_from i filled hs = take i hs @ replicate (filled - i) None @ drop filled hs"
proof (induction filled)
  case 0
  then show ?case by (simp add: clear_from_def)
next
  case (Suc c)
  show ?case
  proof (cases "i = Suc c")
    case True
    then show ?thesis by (simp add: clear_from_def)
  next
    case False
    then have i: "i \<le> c" using Suc.prems by simp
    then have "clear_from i (Suc c) hs = (clear_from i c hs)[c := None]"
      by (simp add: clear_from_def)
    also have "\<dots> = (take i hs @ replicate (c - i) None @ hs ! c # drop (Suc c) hs)[c := None]"
      using Suc i by (simp add: Cons_nth_drop_Suc)
    also have "\<dots> = take i hs @ replicate (c - i) None @ None # drop (Suc c) hs"
      using i Suc.prems by (simp add: list_update_append)
    also have "\<dots> = take i hs @ replicate (Suc c - i) None @ drop (Suc c) hs"
      using i by (simp add: Suc_diff_le replicate_append_same [symmetric])
    finally show ?thesis .
  qed
qed

section \<open>The scan\<close>

definition exact_ok :: "u64 \<Rightarrow> kv_snapshot option list \<Rightarrow> (nat \<times> kv_snapshot) option \<Rightarrow> bool" where
  "exact_ok bn hs e \<longleftrightarrow>
     (case e of
        None \<Rightarrow> \<forall>sn. Some sn \<in> set hs \<longrightarrow> sn_block sn \<noteq> bn
      | Some (i, sn) \<Rightarrow> i < length hs \<and> hs ! i = Some sn \<and> sn_block sn = bn \<and>
          (\<forall>sn'. Some sn' \<in> set (drop (Suc i) hs) \<longrightarrow> sn_block sn' \<noteq> bn))"

definition best_ok :: "u64 \<Rightarrow> kv_snapshot option list \<Rightarrow> (nat \<times> kv_snapshot) option \<Rightarrow> bool" where
  "best_ok bn hs e \<longleftrightarrow>
     (case e of
        None \<Rightarrow> \<forall>sn. Some sn \<in> set hs \<longrightarrow> \<not> sn_block sn < bn
      | Some (i, sn) \<Rightarrow> i < length hs \<and> hs ! i = Some sn \<and> sn_block sn < bn \<and>
          (\<forall>sn'. Some sn' \<in> set hs \<longrightarrow> sn_block sn' < bn \<longrightarrow> sn_block sn' \<le> sn_block sn))"

lemma exact_ok_snoc:
  assumes "exact_ok bn hs e"
  shows "exact_ok bn (hs @ [None]) e"
    "sn_block sn \<noteq> bn \<Longrightarrow> exact_ok bn (hs @ [Some sn]) e"
    "sn_block sn = bn \<Longrightarrow> exact_ok bn (hs @ [Some sn]) (Some (length hs, sn))"
  using assms by (auto simp: exact_ok_def nth_append split: option.splits)

lemma best_ok_snoc:
  assumes "best_ok bn hs e"
  shows "best_ok bn (hs @ [None]) e"
    "\<not> (sn_block sn < bn \<and> (case e of None \<Rightarrow> True | Some (_, b) \<Rightarrow> sn_block b < sn_block sn)) \<Longrightarrow>
       best_ok bn (hs @ [Some sn]) e"
    "sn_block sn < bn \<Longrightarrow> (case e of None \<Rightarrow> True | Some (_, b) \<Rightarrow> sn_block b < sn_block sn) \<Longrightarrow>
       best_ok bn (hs @ [Some sn]) (Some (length hs, sn))"
  using assms by (fastforce simp: best_ok_def nth_append not_less split: option.splits)+

lemma scan_history_ok:
  "scan_history bn (length pre) hs exact best = (e, b) \<Longrightarrow> exact_ok bn pre exact \<Longrightarrow> best_ok bn pre best \<Longrightarrow>
     exact_ok bn (pre @ hs) e \<and> best_ok bn (pre @ hs) b"
proof (induction hs arbitrary: pre exact best)
  case Nil
  then show ?case by simp
next
  case (Cons x hs)
  have len: "Suc (length pre) = length (pre @ [x])" by simp
  show ?case
  proof (cases x)
    case None
    then show ?thesis
      using Cons.IH [of "pre @ [x]" exact best] Cons.prems exact_ok_snoc(1) best_ok_snoc(1) by simp
  next
    case (Some sn)
    note eo = exact_ok_snoc(2,3) [OF Cons.prems(2), of sn] and bo = best_ok_snoc(2,3) [OF Cons.prems(3), of sn]
    show ?thesis
      using Cons.IH [of "pre @ [x]" "Some (length pre, sn)" best] Cons.IH [of "pre @ [x]" exact "Some (length pre, sn)"]
        Cons.IH [of "pre @ [x]" exact best] Cons.prems(1) eo bo
      by (auto simp: Some split: if_splits)
  qed
qed

lemma scan_history_spec:
  assumes "scan_history bn 0 hs None None = (e, b)"
  shows "exact_ok bn hs e" "best_ok bn hs b"
  using scan_history_ok [of bn "[]" hs None None e b] assms by (simp_all add: exact_ok_def best_ok_def)

section \<open>The history as a list of snapshots\<close>

definition hist_list :: "lightkvs \<Rightarrow> kv_snapshot list \<Rightarrow> bool" where
  "hist_list kvs es \<longleftrightarrow>
     0 < length (lk_history kvs) \<and> length (lk_history kvs) < 2 ^ 32 \<and>
     length es \<le> length (lk_history kvs) \<and> unat (lk_next kvs) = length es \<and>
     lk_history kvs = map Some es @ replicate (length (lk_history kvs) - length es) None"

definition push_snapshot :: "nat \<Rightarrow> kv_snapshot list \<Rightarrow> kv_snapshot \<Rightarrow> kv_snapshot list" where
  "push_snapshot h es sn = (if length es = h then tl es else es) @ [sn]"

lemma hist_list_mem: "hist_list kvs es \<Longrightarrow> Some sn \<in> set (lk_history kvs) \<longleftrightarrow> sn \<in> set es"
proof -
  assume "hist_list kvs es"
  then have "set (lk_history kvs) = Some ` set es \<union> set (replicate (length (lk_history kvs) - length es) None)"
    unfolding hist_list_def by (metis set_append set_map)
  then show ?thesis by auto
qed

lemma hist_list_nth:
  "hist_list kvs es \<Longrightarrow> i < length (lk_history kvs) \<Longrightarrow> lk_history kvs ! i = Some sn \<Longrightarrow>
     i < length es \<and> es ! i = sn"
proof -
  assume h: "hist_list kvs es" and i: "i < length (lk_history kvs)" "lk_history kvs ! i = Some sn"
  have "lk_history kvs ! i = (map Some es @ replicate (length (lk_history kvs) - length es) None) ! i"
    using h by (simp add: hist_list_def)
  with i show ?thesis by (auto simp: nth_append split: if_splits)
qed

lemma applyBlockSequential_list:
  assumes "hist_list kvs es"
  shows "\<exists>kvs'. applyBlockSequential kvs n us = Inr kvs' \<and>
     hist_list kvs' (push_snapshot (length (lk_history kvs)) es (lk_current kvs)) \<and>
     length (lk_history kvs') = length (lk_history kvs) \<and>
     lk_current kvs' = \<lparr>sn_block = n, sn_data = applyUpdates (sn_data (lk_current kvs)) us,
                        sn_placeholder = False\<rparr>"
proof -
  let ?h = "length (lk_history kvs)" and ?cur = "lk_current kvs"
  have h: "0 < ?h" "?h < 2 ^ 32" "length es \<le> ?h" "unat (lk_next kvs) = length es"
    "lk_history kvs = map Some es @ replicate (?h - length es) None"
    using assms by (auto simp: hist_list_def)
  show ?thesis
  proof (cases "length es = ?h")
    case True
    then have all: "lk_history kvs = map Some es" using h(5) by simp
    from True h(1) have ne: "es \<noteq> []" by auto
    have "shift_history ?h (lk_history kvs) = map Some (tl es) @ [Some (last es)]"
      using shift_history_eq [of "map Some es"] ne by (simp add: all map_tl last_map)
    moreover have "(map Some (tl es) @ [Some (last es)])[?h - 1 := Some ?cur] = map Some (tl es @ [?cur])"
      using True ne by (simp add: list_update_append)
    moreover have "unat (of_nat (?h - 1 + 1) :: u32) = ?h"
      using h(1,2) by (simp add: unat_of_nat)
    moreover have "\<not> length es \<le> length es - Suc 0" using ne by (cases es) simp_all
    ultimately show ?thesis
      using h True by (simp add: applyBlockSequential_def Let_def hist_list_def push_snapshot_def)
  next
    case False
    then have lt: "length es < ?h" using h(3) by simp
    have "(lk_history kvs)[length es := Some ?cur] = map Some (es @ [?cur]) @ replicate (?h - Suc (length es)) None"
    proof -
      have "replicate (?h - length es) (None :: kv_snapshot option) = None # replicate (?h - Suc (length es)) None"
        using lt by (simp add: Suc_diff_Suc [symmetric])
      then show ?thesis using h(5) by (metis (no_types, lifting) append.assoc append_Cons append_Nil length_map
            list.simps(8) list.simps(9) list_update_length map_append)
    qed
    moreover have "unat (of_nat (length es + 1) :: u32) = length es + 1"
      using lt h(2) by (intro unat_of_nat_u32) simp
    ultimately show ?thesis
      using h lt by (simp add: applyBlockSequential_def Let_def hist_list_def push_snapshot_def)
  qed
qed

section \<open>Without reverts: the ledger\<close>

definition window :: "nat \<Rightarrow> block list \<Rightarrow> kv_snapshot list" where
  "window h l = map (\<lambda>j. snap_of (take j l)) [length l - h..<length l]"

definition rv_rel :: "lightkvs \<Rightarrow> block list \<Rightarrow> bool" where
  "rv_rel kvs l \<longleftrightarrow>
     ledger_ok l \<and> lk_current kvs = snap_of l \<and>
     hist_list kvs (window (length (lk_history kvs)) l)"

lemma window_mem: "sn \<in> set (window h l) \<longleftrightarrow> (\<exists>j < length l. length l \<le> j + h \<and> sn = snap_of (take j l))"
  unfolding window_def set_map set_upt image_iff atLeastLessThan_iff Bex_def by (metis le_diff_conv)

lemma window_push:
  assumes "0 < h"
  shows "push_snapshot h (window h l) (snap_of l) = window h (l @ [b])"
proof -
  have "window h (l @ [b]) = map (\<lambda>j. snap_of (take j (l @ [b]))) ([Suc (length l) - h..<length l] @ [length l])"
    using assms unfolding window_def by (simp add: upt_Suc_append)
  also have "\<dots> = map (\<lambda>j. snap_of (take j l)) [Suc (length l) - h..<length l] @ [snap_of l]"
    by simp
  finally have w: "window h (l @ [b]) = map (\<lambda>j. snap_of (take j l)) [Suc (length l) - h..<length l] @ [snap_of l]" .
  show ?thesis
  proof (cases "h \<le> length l")
    case True
    then have "map (\<lambda>j. snap_of (take j l)) [Suc (length l) - h..<length l] = tl (window h l)"
      using assms by (simp add: Suc_diff_le window_def map_tl [symmetric])
    moreover have "length (window h l) = h" using True by (simp add: window_def)
    ultimately show ?thesis
      using w by (simp add: push_snapshot_def)
  next
    case False
    then show ?thesis
      using w by (simp add: push_snapshot_def window_def)
  qed
qed

lemma rv_Handle_rel:
  assumes rel: "rv_rel kvs l" and h: "Revertible_Handle kvs b = Inr kvs'"
  shows "rv_rel kvs' (applied l b)"
proof (cases "applied l b = l")
  case True
  then have "l \<noteq> []" "\<not> bk_number (last l) < bk_number b"
    by (auto simp: applied_def split: if_splits)
  then have "kvs' = kvs"
    using h rel by (auto simp: Revertible_Handle_def Let_def rv_rel_def snap_of_def ledger_height_def
        split: if_splits sum.splits)
  with True rel show ?thesis by simp
next
  case False
  then have new: "applied l b = l @ [b]" "l = [] \<or> bk_number (last l) < bk_number b"
    by (auto simp: applied_def split: if_splits)
  have eq: "Revertible_Handle kvs b = applyBlockSequential kvs (bk_number b) (block_updates b)"
    using rel new by (auto simp: Revertible_Handle_def Let_def rv_rel_def snap_of_def ledger_height_def)
  have r: "ledger_ok l" "lk_current kvs = snap_of l" "hist_list kvs (window (length (lk_history kvs)) l)"
    using rel by (auto simp: rv_rel_def)
  have "0 < length (lk_history kvs)" using r(3) by (simp add: hist_list_def)
  note push = window_push [OF this, of l b]
  have "ledger_ok (l @ [b])" using ledger_ok_applied [OF r(1), of b] new by simp
  with applyBlockSequential_list [OF r(3), of "bk_number b" "block_updates b"] h eq r(2) push new(1)
  show ?thesis
    by (auto simp: rv_rel_def snap_of_def applyUpdates_spec)
qed

lemma rv_NewSnapshot_rel:
  assumes rel: "rv_rel kvs l" and s: "Revertible_NewSnapshot kvs q = Inr r" and q: "askable l q"
  shows "r = Some (snap_of (upto_block q l))"
proof (cases q)
  case None
  with s rel show ?thesis by (auto simp: Revertible_NewSnapshot_def rv_rel_def upto_block_def)
next
  case (Some bn)
  have ok: "ledger_ok l" and cur: "lk_current kvs = snap_of l"
    and hl: "hist_list kvs (window (length (lk_history kvs)) l)"
    using rel by (auto simp: rv_rel_def)
  show ?thesis
  proof (cases "ledger_height l \<le> bn")
    case True
    with s cur Some upto_block_all [OF ok True] show ?thesis
      by (simp add: Revertible_NewSnapshot_def)
  next
    case False
    obtain e b where eb: "scan_history bn 0 (lk_history kvs) None None = (e, b)" by fastforce
    note spec = scan_history_spec [OF eb]
    from q Some False obtain c where c: "c \<in> set l" "bk_number c = bn" and pos: "bn \<noteq> 0"
      by (auto simp: askable_def)
    obtain k where k: "k < length l" "l ! k = c" using c(1) by (auto simp: in_set_conv_nth)
    have up: "upto_block (Some bn) l = take (Suc k) l"
      using upto_block_take [OF ok k(1)] k(2) c(2) by simp
    have hit: "sn = snap_of (take (Suc k) l)" if sn: "sn \<in> set (window (length (lk_history kvs)) l)" "sn_block sn = bn" for sn
    proof -
      obtain j where j: "j < length l" "sn = snap_of (take j l)" using sn(1) by (auto simp: window_mem)
      then have "0 < j" using sn(2) pos by (cases j) (auto simp: ledger_height_def)
      then have "upto_block (Some bn) l = take j l"
        using upto_block_take [OF ok, of "j - 1"] snap_of_height [of j l] j sn(2) by simp
      with up j show ?thesis by simp
    qed
    have older: "False" if sn: "sn \<in> set (window (length (lk_history kvs)) l)" "sn_block sn < bn" and
        none: "\<forall>sn. sn \<in> set (window (length (lk_history kvs)) l) \<longrightarrow> sn_block sn \<noteq> bn" for sn
    proof -
      obtain j where j: "j < length l" "length l \<le> j + length (lk_history kvs)" "sn = snap_of (take j l)"
        using sn(1) by (auto simp: window_mem)
      have "j \<le> k"
      proof (rule ccontr)
        assume "\<not> j \<le> k"
        then have "bk_number (l ! k) \<le> bk_number (l ! (j - 1))"
          using ok j(1) sorted_wrt_nth_less [of "\<lambda>a b. bk_number a < bk_number b" l k "j - 1"]
          by (cases "k = j - 1") (auto simp: ledger_ok_def less_imp_le)
        with sn(2) j snap_of_height [of j l] k c(2) \<open>\<not> j \<le> k\<close> show False by (simp add: not_less [symmetric])
      qed
      have "last l = l ! k" if "Suc k = length l"
        using that by (metis diff_Suc_1 last_conv_nth length_greater_0_conv zero_less_Suc)
      then have "Suc k < length l"
        using False k c by (cases "Suc k = length l") (auto simp: ledger_height_def split: if_splits)
      then have "snap_of (take (Suc k) l) \<in> set (window (length (lk_history kvs)) l)"
        using j(2) \<open>j \<le> k\<close> unfolding window_mem by (intro exI [of _ "Suc k"]) simp
      moreover have "sn_block (snap_of (take (Suc k) l)) = bn"
        using snap_of_height [of "Suc k" l] k c(2) by simp
      ultimately show False using none by blast
    qed
    show ?thesis
    proof (cases e)
      case None
      then have none: "\<forall>sn. sn \<in> set (window (length (lk_history kvs)) l) \<longrightarrow> sn_block sn \<noteq> bn"
        using spec(1) by (simp add: exact_ok_def hist_list_mem [OF hl])
      have "b = None"
      proof (rule ccontr)
        assume "b \<noteq> None"
        then obtain i sn where "b = Some (i, sn)" by auto
        with spec(2) have "Some sn \<in> set (lk_history kvs)" "sn_block sn < bn"
          by (auto simp: best_ok_def in_set_conv_nth)
        with older none show False by (simp add: hist_list_mem [OF hl])
      qed
      with s eb Some None False cur show ?thesis by (simp add: Revertible_NewSnapshot_def)
    next
      case e: (Some p)
      obtain i sn where p: "p = (i, sn)" by (cases p)
      with spec(1) e have "Some sn \<in> set (lk_history kvs)" "sn_block sn = bn"
        by (auto simp: exact_ok_def in_set_conv_nth)
      then have "sn = snap_of (take (Suc k) l)" using hit by (simp add: hist_list_mem [OF hl])
      with s eb Some e p False cur up show ?thesis by (simp add: Revertible_NewSnapshot_def)
    qed
  qed
qed

definition rv_open :: "lightkvs \<Rightarrow> u64 option \<Rightarrow> (reader \<times> lightkvs) result" where
  "rv_open kvs q = map_sum id (\<lambda>r. (r, kvs)) (Revertible_NewSnapshot kvs q)"

lemma rv_relD: "rv_rel kvs l \<Longrightarrow> ledger_ok l" "rv_rel kvs l \<Longrightarrow> lk_current kvs = snap_of l"
  by (simp_all add: rv_rel_def)

interpretation rv: block_store Revertible_Handle rv_open "\<lambda>_. Reader_Get" LightKVS_BlockNumber rv_rel lk_pinned "\<lambda>_. True"
proof unfold_locales
  fix s l q r s'
  assume rel: "rv_rel s l" and o: "rv_open s q = Inr (r, s')" and q: "askable l q"
  from o have "Revertible_NewSnapshot s q = Inr r" "s' = s"
    by (auto simp: rv_open_def map_sum_def split: sum.splits)
  with rv_NewSnapshot_rel [OF rel _ q] rel show "rv_rel s' l \<and> lk_pinned s' r (upto_block q l)"
    by (auto simp: lk_pinned_def)
qed (auto simp: lk_pinned_def Reader_Get_snap LightKVS_BlockNumber_def rv_open_def
    Revertible_NewSnapshot_def rv_relD intro: rv_Handle_rel)

lemmas rv_all = rv.handle_all_law [OF _ _ all_blocks]

lemma rv_rel_new: "0 < h \<Longrightarrow> h < 2 ^ 32 \<Longrightarrow> rv_rel (NewRevertibleLightKVS (NewLightKVS h)) []"
  by (simp add: rv_rel_def NewRevertibleLightKVS_def NewLightKVS_def snap_of_def ledger_height_def
      window_def hist_list_def fun_eq_iff)

section \<open>With reverts: versions and values\<close>

datatype rv_op = RHandle block | RRevert u64

fun rv_exec :: "lightkvs \<Rightarrow> rv_op \<Rightarrow> lightkvs result" where
  "rv_exec kvs (RHandle b) = Revertible_Handle kvs b"
| "rv_exec kvs (RRevert n) = RevertToBlock kvs n"

fun rv_run :: "lightkvs \<Rightarrow> rv_op list \<Rightarrow> lightkvs result" where
  "rv_run kvs [] = Inr kvs"
| "rv_run kvs (x # xs) = (case rv_exec kvs x of Inl e \<Rightarrow> Inl e | Inr kvs' \<Rightarrow> rv_run kvs' xs)"

text \<open>The updates that the blocks of a run really applied, in order; a revert removes none.\<close>

fun run_updates :: "lightkvs \<Rightarrow> rv_op list \<Rightarrow> kv_update list" where
  "run_updates kvs [] = []"
| "run_updates kvs (x # xs) =
     (case x of
        RHandle b \<Rightarrow> if sn_placeholder (lk_current kvs) \<or> sn_block (lk_current kvs) < bk_number b
                      then block_updates b else []
      | RRevert n \<Rightarrow> []) @
     (case rv_exec kvs x of Inl e \<Rightarrow> [] | Inr kvs' \<Rightarrow> run_updates kvs' xs)"

definition version_of :: "(string \<Rightarrow> value_version option) \<Rightarrow> string \<Rightarrow> u64 option" where
  "version_of d k = map_option vv_version (d k)"

definition live :: "(string \<Rightarrow> value_version option) \<Rightarrow> string \<Rightarrow> bytes option option" where
  "live d k = (case d k of None \<Rightarrow> None | Some vv \<Rightarrow> if vv_isdelete vv then None else Some (vv_value vv))"

definition rv_inv :: "lightkvs \<Rightarrow> kv_update list \<Rightarrow> bool" where
  "rv_inv kvs us \<longleftrightarrow>
     (\<exists>es. hist_list kvs es \<and>
        (\<forall>sn \<in> set es. \<forall>k. sn_data sn k \<noteq> None \<longrightarrow> sn_data (lk_current kvs) k \<noteq> None)) \<and>
     (\<forall>k. version_of (sn_data (lk_current kvs)) k =
        (if writes_to k us = [] then None else Some (of_nat (length (writes_to k us) - 1))))"

lemma push_snapshot_mem: "sn \<in> set (push_snapshot h es x) \<Longrightarrow> sn \<in> set es \<or> sn = x"
  by (auto simp: push_snapshot_def dest: list.set_sel(2) split: if_splits) (cases es; auto)+

text \<open>The versions of \<open>applyUpdates\<close> depend only on the versions of the data it starts from.\<close>

lemma apply_loop_versions:
  assumes "\<And>k. version_of old k = version_of old' k" and "\<And>k. version_of new k = version_of new' k"
  shows "version_of (apply_loop old nv new us) k = version_of (apply_loop old' nv new' us) k"
  using assms(2)
proof (induction us arbitrary: nv new new')
  case Nil
  then show ?case by simp
next
  case (Cons u us)
  have v: "(case old (ku_key u) of Some existing \<Rightarrow> vv_version existing + 1 | None \<Rightarrow> 0) =
    (case old' (ku_key u) of Some existing \<Rightarrow> vv_version existing + 1 | None \<Rightarrow> 0)"
    using assms(1) [of "ku_key u"] by (auto simp: version_of_def split: option.splits)
  show ?case
    unfolding apply_loop.simps Let_def v
    by (rule Cons.IH) (use Cons.prems in \<open>auto simp: version_of_def\<close>)
qed

lemma applyUpdates_versions:
  assumes "\<And>k. version_of d k = version_of (spec_data us) k"
  shows "version_of (applyUpdates d vs) k = version_of (spec_data (us @ vs)) k"
  unfolding applyUpdates_spec [symmetric] unfolding applyUpdates_def
  by (rule apply_loop_versions) (use assms in simp_all)

lemma version_of_spec_data:
  "version_of (spec_data us) k = (if writes_to k us = [] then None else Some (of_nat (length (writes_to k us) - 1)))"
  by (simp add: version_of_def spec_data_Some spec_data_eq_None [symmetric] version_at_def)

lemma version_of_None: "version_of d k = None \<longleftrightarrow> d k = None"
  by (simp add: version_of_def)

lemma version_merge: "version_of (merge_data c t) k = version_of c k"
  by (simp add: version_of_def merge_data_def split: option.split)

lemma rv_inv_handle:
  assumes inv: "rv_inv kvs us" and h: "Revertible_Handle kvs b = Inr kvs'"
  shows "rv_inv kvs' (us @ (if sn_placeholder (lk_current kvs) \<or> sn_block (lk_current kvs) < bk_number b
                            then block_updates b else []))"
proof (cases "sn_placeholder (lk_current kvs) \<or> sn_block (lk_current kvs) < bk_number b")
  case False
  then have "kvs' = kvs"
    using h by (auto simp: Revertible_Handle_def Let_def split: if_splits sum.splits)
  with False inv show ?thesis by simp
next
  case True
  then have eq: "Revertible_Handle kvs b = applyBlockSequential kvs (bk_number b) (block_updates b)"
    by (auto simp: Revertible_Handle_def Let_def)
  obtain es where es: "hist_list kvs es"
    "\<forall>sn \<in> set es. \<forall>k. sn_data sn k \<noteq> None \<longrightarrow> sn_data (lk_current kvs) k \<noteq> None"
    using inv by (auto simp: rv_inv_def)
  let ?es = "push_snapshot (length (lk_history kvs)) es (lk_current kvs)"
  have k: "hist_list kvs' ?es" "sn_data (lk_current kvs') = applyUpdates (sn_data (lk_current kvs)) (block_updates b)"
    using applyBlockSequential_list [OF es(1), of "bk_number b" "block_updates b"] h eq by auto
  have base: "version_of (sn_data (lk_current kvs)) x = version_of (spec_data us) x" for x
    using inv unfolding rv_inv_def version_of_spec_data by blast
  have v: "version_of (sn_data (lk_current kvs')) x = version_of (spec_data (us @ block_updates b)) x" for x
    unfolding k(2) by (rule applyUpdates_versions [OF base])
  have grow: "sn_data (lk_current kvs) x \<noteq> None \<longrightarrow> sn_data (lk_current kvs') x \<noteq> None" for x
    using base [of x] v [of x] by (auto simp: version_of_None [symmetric] version_of_spec_data)
  have "\<forall>sn \<in> set ?es. \<forall>x. sn_data sn x \<noteq> None \<longrightarrow> sn_data (lk_current kvs') x \<noteq> None"
    using es(2) grow push_snapshot_mem by blast
  with k(1) v True show ?thesis
    unfolding rv_inv_def version_of_spec_data [symmetric] by auto
qed

lemma revert_target_spec:
  assumes hl: "hist_list kvs es" and t: "revert_target kvs n = Some (i, target)"
  shows "i < length es \<and> es ! i = target \<and> sn_block target \<le> n \<and>
     (\<forall>sn \<in> set es. sn_block sn \<le> n \<longrightarrow> sn_block sn \<le> sn_block target)"
proof -
  obtain e b where eb: "scan_history n 0 (lk_history kvs) None None = (e, b)" by fastforce
  note spec = scan_history_spec [OF eb]
  show ?thesis
  proof (cases e)
    case (Some p)
    with t eb have "e = Some (i, target)" by (simp add: revert_target_def)
    with spec(1) have "i < length (lk_history kvs)" "lk_history kvs ! i = Some target" "sn_block target = n"
      by (auto simp: exact_ok_def)
    with hist_list_nth [OF hl this(1,2)] show ?thesis by auto
  next
    case None
    with t eb have b: "b = Some (i, target)"
      by (auto simp: revert_target_def split: if_splits)
    with spec(2) have "i < length (lk_history kvs)" "lk_history kvs ! i = Some target" "sn_block target < n"
      and max: "\<forall>sn. Some sn \<in> set (lk_history kvs) \<longrightarrow> sn_block sn < n \<longrightarrow> sn_block sn \<le> sn_block target"
      by (auto simp: best_ok_def)
    moreover have "\<forall>sn. Some sn \<in> set (lk_history kvs) \<longrightarrow> sn_block sn \<noteq> n"
      using spec(1) None by (simp add: exact_ok_def)
    ultimately show ?thesis
      using hist_list_nth [OF hl] hist_list_mem [OF hl] by (auto simp: less_le)
  qed
qed

lemma clear_hist_list:
  assumes hl: "hist_list kvs es" and i: "i < length es"
  shows "hist_list (kvs\<lparr>lk_current := c, lk_history := clear_from i (unat (lk_next kvs)) (lk_history kvs),
                        lk_next := of_nat i\<rparr>) (take i es)"
proof -
  let ?h = "length (lk_history kvs)"
  have h: "0 < ?h" "?h < 2 ^ 32" "length es \<le> ?h" "unat (lk_next kvs) = length es"
    and hist: "lk_history kvs = map Some es @ replicate (?h - length es) None"
    using hl by (auto simp: hist_list_def)
  have tk: "take i (lk_history kvs) = map Some (take i es)" and dr: "drop (length es) (lk_history kvs) = replicate (?h - length es) None"
    using hist i by (metis (no_types, lifting) append_eq_conv_conj length_map less_imp_le take_map take_append
        append_Nil2 diff_is_0_eq take_0, metis append_eq_conv_conj length_map)
  have cl: "clear_from i (length es) (lk_history kvs) = map Some (take i es) @ replicate (?h - i) None"
    using clear_from_eq [of "length es" "lk_history kvs" i] h(3) i
    by (simp add: tk dr replicate_add [symmetric])
  moreover have "unat (of_nat i :: u32) = i"
    using i h(2,3) by (intro unat_of_nat_u32) simp
  ultimately show ?thesis
    using h i by (simp add: hist_list_def)
qed

lemma rv_inv_revert:
  assumes inv: "rv_inv kvs us" and r: "RevertToBlock kvs n = Inr kvs'"
  shows "rv_inv kvs' us"
proof (cases "sn_block (lk_current kvs) = n")
  case True
  with inv r show ?thesis by (simp add: RevertToBlock_def)
next
  case False
  with r obtain i target where t: "revert_target kvs n = Some (i, target)"
    by (auto simp: RevertToBlock_def split: option.splits)
  obtain es where es: "hist_list kvs es"
    "\<forall>sn \<in> set es. \<forall>k. sn_data sn k \<noteq> None \<longrightarrow> sn_data (lk_current kvs) k \<noteq> None"
    using inv by (auto simp: rv_inv_def)
  have i: "i < length es" using revert_target_spec [OF es(1) t] by simp
  have k: "kvs' = kvs\<lparr>lk_current := \<lparr>sn_block = n, sn_data = merge_data (sn_data (lk_current kvs)) (sn_data target),
      sn_placeholder = False\<rparr>, lk_history := clear_from i (unat (lk_next kvs)) (lk_history kvs), lk_next := of_nat i\<rparr>"
    using r t False by (simp add: RevertToBlock_def)
  then have "hist_list kvs' (take i es)" using clear_hist_list [OF es(1) i] by simp
  moreover have v: "version_of (sn_data (lk_current kvs')) x = version_of (sn_data (lk_current kvs)) x" for x
    by (simp add: k version_merge)
  moreover have "\<forall>sn \<in> set (take i es). \<forall>x. sn_data sn x \<noteq> None \<longrightarrow> sn_data (lk_current kvs') x \<noteq> None"
    using es(2) v by (metis in_set_takeD version_of_None)
  ultimately show ?thesis
    using inv unfolding rv_inv_def by auto
qed

lemma rv_run_inv:
  "rv_run kvs xs = Inr kvs' \<Longrightarrow> rv_inv kvs us \<Longrightarrow> rv_inv kvs' (us @ run_updates kvs xs)"
proof (induction xs arbitrary: kvs us)
  case Nil
  then show ?case by simp
next
  case (Cons x xs)
  then obtain t where t: "rv_exec kvs x = Inr t" "rv_run t xs = Inr kvs'" by (auto split: sum.splits)
  show ?case
  proof (cases x)
    case (RHandle b)
    with t(1) Cons.IH [OF t(2) rv_inv_handle [OF Cons.prems(2)]] show ?thesis by simp
  next
    case (RRevert n)
    with t(1) Cons.IH [OF t(2) rv_inv_revert [OF Cons.prems(2)]] show ?thesis by simp
  qed
qed

lemma rv_inv_new: "0 < h \<Longrightarrow> h < 2 ^ 32 \<Longrightarrow> rv_inv (NewRevertibleLightKVS (NewLightKVS h)) []"
  by (auto simp: rv_inv_def NewRevertibleLightKVS_def NewLightKVS_def hist_list_def version_of_def
      intro!: exI [of _ "[]"])

lemma live_merge: "(t k \<noteq> None \<longrightarrow> c k \<noteq> None) \<Longrightarrow> live (merge_data c t) k = live t k"
  by (auto simp: live_def merge_data_def split: option.splits)

section \<open>Properties of reverting\<close>

abbreviation rv_new :: "nat \<Rightarrow> lightkvs" where
  "rv_new h \<equiv> NewRevertibleLightKVS (NewLightKVS h)"

text \<open>
  C28. Versions survive reverts.  After any mix of delivered blocks and reverts, the stored version of
  a key is one less than the number of writes of it that were ever applied, as in the committer's own
  store, whose counter a revert of the endorser cannot turn back; a key never written has no record.
\<close>

theorem Revertible_versions:
  assumes "0 < h" and "h < 2 ^ 32" and "rv_run (rv_new h) xs = Inr s"
  shows "version_of (sn_data (lk_current s)) k =
     (let ws = writes_to k (run_updates (rv_new h) xs)
      in if ws = [] then None else Some (of_nat (length ws - 1)))"
  using rv_run_inv [OF assms(3) rv_inv_new [OF assms(1,2)]]
  by (simp add: rv_inv_def Let_def)

theorem Revertible_versions_witness:
  "\<exists>s. rv_run (rv_new 2) [RHandle (demo_write 1 ''k'' (Some [5])), RHandle (demo_write 2 ''k'' (Some [6])),
         RRevert 1, RHandle (demo_write 2 ''k'' (Some [7]))] = Inr s \<and>
       version_of (sn_data (lk_current s)) ''ns:k'' = Some 2"
proof -
  let ?xs = "[RHandle (demo_write 1 ''k'' (Some [5])), RHandle (demo_write 2 ''k'' (Some [6])),
         RRevert 1, RHandle (demo_write 2 ''k'' (Some [7]))]"
  have upt: "[Suc 0..<2] = [Suc 0]" by (simp add: numeral_2_eq_2)
  have "\<exists>s. rv_run (rv_new 2) ?xs = Inr s \<and> length (writes_to ''ns:k'' (run_updates (rv_new 2) ?xs)) = 3"
    by (simp add: lk_eval NewRevertibleLightKVS_def Revertible_Handle_def applyBlockSequential_def
        RevertToBlock_def revert_target_def clear_from_def writes_to_def upt)
  then obtain s where s: "rv_run (rv_new 2) ?xs = Inr s"
    "length (writes_to ''ns:k'' (run_updates (rv_new 2) ?xs)) = 3" by blast
  then have "writes_to ''ns:k'' (run_updates (rv_new 2) ?xs) \<noteq> []" by auto
  with Revertible_versions [of 2 ?xs s "''ns:k''"] s show ?thesis by (simp add: Let_def)
qed




end
