(* ===== verification/PebbleCodec.thy ===== *)
theory PebbleCodec
  imports KvsSpec "HOL-Library.List_Lexorder"
begin

text \<open>
  The byte formats of the persistent store (\<open>endorser/storage/pebblekvs.go\<close>): the keys of the
  current records, the history, the history index and the two meta values, and the record encoding
  with Go's unsigned varints.  The lemmas show what the store relies on: keys of different kinds and
  of different state keys never collide, the key order of a state key's history is descending in
  (block, transaction), the key order of the index is ascending in the block, and a stored record is
  read back as written.

  All integers are Go's: a length is converted to 32 or 64 bits where the code converts it, and the
  position arithmetic of \<open>decodeRecord\<close> wraps as \<open>int\<close> does.
\<close>

unbundle bit_operations_syntax

section \<open>Unsigned varints of encoding/binary\<close>

fun AppendUvarint :: "nat \<Rightarrow> bytes" where
  "AppendUvarint x =
     (if x < 128 then [of_nat x] else of_nat (x mod 128 + 128) # AppendUvarint (x div 128))"

declare AppendUvarint.simps [simp del]

text \<open>
  \<open>Uvarint\<close>'s loop with the byte index \<open>i\<close>, the value \<open>x\<close> and the shift \<open>s\<close> it has read so far.  The
  result is the value and the number of bytes, which is not positive for an input that is too short
  or overflows 64 bits.  The bits read by different bytes are disjoint, so Go's \<open>|\<close> is a sum.
\<close>

fun uvarint_loop :: "nat \<Rightarrow> nat \<Rightarrow> nat \<Rightarrow> bytes \<Rightarrow> nat \<times> int" where
  "uvarint_loop i x s [] = (0, 0)"
| "uvarint_loop i x s (b # bs) =
     (if i = 10 then (0, - (int i + 1))
      else if unat b < 128 then
        if i = 9 \<and> 1 < unat b then (0, - (int i + 1)) else (x + unat b * 2 ^ s, int i + 1)
      else uvarint_loop (i + 1) (x + (unat b mod 128) * 2 ^ s) (s + 7) bs)"

definition Uvarint :: "bytes \<Rightarrow> nat \<times> int" where
  "Uvarint buf = uvarint_loop 0 0 0 buf"

section \<open>Keys\<close>

definition prefixData :: u8 where "prefixData = 0x64"
definition prefixHistory :: u8 where "prefixHistory = 0x68"
definition prefixIndex :: u8 where "prefixIndex = 0x69"
definition prefixMeta :: u8 where "prefixMeta = 0x6D"

definition metaBlockKey :: bytes where
  "metaBlockKey = prefixMeta # str_bytes ''block''"

definition metaOldestKey :: bytes where
  "metaOldestKey = prefixMeta # str_bytes ''oldest''"

definition keyForState :: "u8 \<Rightarrow> string \<Rightarrow> bytes" where
  "keyForState p k =
     p # be 4 (unat (of_nat (length k) :: u32)) @ str_bytes k"

definition dataKey :: "string \<Rightarrow> bytes" where
  "dataKey k = keyForState prefixData k"

definition historyPrefix :: "string \<Rightarrow> bytes" where
  "historyPrefix k = keyForState prefixHistory k"

definition u64be :: "u64 \<Rightarrow> bytes" where
  "u64be v = be 8 (unat v)"

definition historyKey :: "string \<Rightarrow> u64 \<Rightarrow> u64 \<Rightarrow> bytes" where
  "historyKey k block tx = historyPrefix k @ u64be (NOT block) @ u64be (NOT tx)"

definition indexKey :: "u64 \<Rightarrow> bytes \<Rightarrow> bytes" where
  "indexKey block histKey = prefixIndex # u64be block @ histKey"

definition parseIndexKey :: "bytes \<Rightarrow> (u64 \<times> bytes) result" where
  "parseIndexKey k =
     (if length k \<le> 9 then Inl ''corrupt history index key''
      else Inr (of_nat (unbe (take 8 (drop 1 k))), drop 9 k))"

section \<open>Records\<close>

text \<open>
  The struct \<open>record\<close> has the fields of \<open>value_version\<close>.  \<open>slice\<close> is Go's \<open>raw[pos:end]\<close> with an
  \<open>end\<close> that was computed in 64-bit arithmetic; out of range it panics.
\<close>

definition encodeRecord :: "value_version \<Rightarrow> bytes" where
  "encodeRecord r =
     ((if vv_isdelete r then 1 else 0) OR (if vv_value r \<noteq> None then 2 else 0))
     # AppendUvarint (unat (vv_block r)) @ AppendUvarint (unat (vv_tx r))
     @ AppendUvarint (unat (vv_version r)) @ AppendUvarint (length (vv_txid r)) @ str_bytes (vv_txid r)
     @ (case vv_value r of None \<Rightarrow> [] | Some v \<Rightarrow> AppendUvarint (length v) @ v)"

definition slice :: "bytes \<Rightarrow> nat \<Rightarrow> int \<Rightarrow> bytes result" where
  "slice raw pos e =
     (if e < int pos \<or> int (length raw) < e then Inl ''slice bounds out of range''
      else Inr (take (nat e - pos) (drop pos raw)))"

definition read_uvarint :: "bytes \<Rightarrow> nat \<Rightarrow> string \<Rightarrow> (nat \<times> nat) result" where
  "read_uvarint raw pos what =
     (let (v, n) = Uvarint (drop pos raw)
      in if n \<le> 0 then Inl (''corrupt record: '' @ what) else Inr (v, pos + nat n))"

definition read_field :: "bytes \<Rightarrow> nat \<Rightarrow> string \<Rightarrow> string \<Rightarrow> (bytes \<times> nat) result" where
  "read_field raw pos what overrun =
     (case read_uvarint raw pos what of Inl e \<Rightarrow> Inl e | Inr (fieldLen, pos) \<Rightarrow>
        let e = sint (of_nat pos + of_nat fieldLen :: u64)
        in if int (length raw) < e then Inl (''corrupt record: '' @ overrun)
           else case slice raw pos e of Inl p \<Rightarrow> Inl p | Inr bs \<Rightarrow> Inr (bs, nat e))"

definition decodeRecord :: "bytes \<Rightarrow> write_record result" where
  "decodeRecord raw =
     (case raw of
        [] \<Rightarrow> Inl ''corrupt record: empty value''
      | flags # _ \<Rightarrow>
        (case read_uvarint raw 1 ''block num'' of Inl e \<Rightarrow> Inl e | Inr (blockNum, pos) \<Rightarrow>
         (case read_uvarint raw pos ''tx num'' of Inl e \<Rightarrow> Inl e | Inr (txNum, pos) \<Rightarrow>
          (case read_uvarint raw pos ''version'' of Inl e \<Rightarrow> Inl e | Inr (version, pos) \<Rightarrow>
           (case read_field raw pos ''txid length'' ''txid overruns value'' of Inl e \<Rightarrow> Inl e | Inr (txID, pos) \<Rightarrow>
            (case (if flags AND 2 \<noteq> 0
                   then map_sum id (\<lambda>(v, _). Some v) (read_field raw pos ''value length'' ''value overruns value'')
                   else Inr None) of
               Inl e \<Rightarrow> Inl e
             | Inr value \<Rightarrow>
                 Inr \<lparr>wr_namespace = '''', wr_key = '''', wr_block = of_nat blockNum, wr_tx = of_nat txNum,
                   wr_version = of_nat version, wr_value = value, wr_isdelete = (flags AND 1 \<noteq> 0),
                   wr_txid = byte_string txID\<rparr>))))))"

section \<open>Round trip of records\<close>

lemma sint_of_nat_u64: "n < 2 ^ 63 \<Longrightarrow> sint (of_nat n :: u64) = int n"
  by (simp add: signed_of_nat signed_take_bit_int_eq_self)

lemma uvarint_loop_Append:
  assumes "v < 2 ^ (64 - 7 * i)" and "i \<le> 9"
  shows "uvarint_loop i x (7 * i) (AppendUvarint v @ rest) =
    (x + v * 2 ^ (7 * i), int i + int (length (AppendUvarint v)))"
  using assms
proof (induction v arbitrary: i x rule: AppendUvarint.induct)
  case (1 v)
  show ?case
  proof (cases "v < 128")
    case True
    then have b: "unat (of_nat v :: u8) = v" by (simp add: unat_of_nat)
    have "v \<le> 1" if "i = 9" using 1(2) that by simp
    with True b 1(3) show ?thesis by (auto simp: AppendUvarint.simps [of v])
  next
    case False
    have b: "unat (of_nat (v mod 128 + 128) :: u8) = v mod 128 + 128"
      using mod_less_divisor [of 128 v] by (simp only: unat_of_nat) simp
    have "i \<noteq> 9" using 1(2) False by auto
    with 1(3) have i: "i + 1 \<le> 9" by simp
    have e: "64 - 7 * i = 7 + (64 - 7 * (i + 1))" using i by simp
    have "v < 2 ^ (64 - 7 * (i + 1)) * 128"
      using 1(2) unfolding e by (simp add: power_add mult.commute)
    then have "v div 128 < 2 ^ (64 - 7 * (i + 1))" by (simp add: less_mult_imp_div_less)
    from 1(1) [OF False this i, of "x + (v mod 128) * 2 ^ (7 * i)"]
    have "uvarint_loop (i + 1) (x + (v mod 128) * 2 ^ (7 * i)) (7 * i + 7) (AppendUvarint (v div 128) @ rest) =
      (x + (v mod 128) * 2 ^ (7 * i) + v div 128 * 2 ^ (7 * (i + 1)),
       int (i + 1) + int (length (AppendUvarint (v div 128))))"
      by (simp add: add.commute)
    moreover have "(v mod 128) * 2 ^ (7 * i) + v div 128 * 2 ^ (7 * (i + 1)) = v * 2 ^ (7 * i)"
    proof -
      have "v * 2 ^ (7 * i) = (v mod 128 + 128 * (v div 128)) * 2 ^ (7 * i)" by simp
      then show ?thesis by (simp only: add_mult_distrib) (simp add: power_add)
    qed
    ultimately show ?thesis
      using i False b by (simp add: AppendUvarint.simps [of v])
  qed
qed

lemma Uvarint_Append: "v < 2 ^ 64 \<Longrightarrow> Uvarint (AppendUvarint v @ rest) = (v, int (length (AppendUvarint v)))"
  using uvarint_loop_Append [of v 0 0 rest] by (simp add: Uvarint_def)

lemma AppendUvarint_not_Nil [simp]: "AppendUvarint v \<noteq> []"
  by (simp add: AppendUvarint.simps)

lemma read_uvarint_Append:
  assumes "v < 2 ^ 64" and "raw = pre @ AppendUvarint v @ rest" and "pos = length pre"
  shows "read_uvarint raw pos w = Inr (v, pos + length (AppendUvarint v))"
  using assms by (simp add: read_uvarint_def Uvarint_Append)

lemma read_field_Append:
  assumes raw: "raw = pre @ AppendUvarint (length f) @ f @ rest" and pos: "pos = length pre"
    and small: "length raw < 2 ^ 63"
  shows "read_field raw pos w o' = Inr (f, pos + length (AppendUvarint (length f)) + length f)"
proof -
  define q where "q = pos + length (AppendUvarint (length f))"
  have q: "q + length f \<le> length raw" using raw pos by (simp add: q_def)
  have "read_uvarint raw pos w = Inr (length f, q)"
    using read_uvarint_Append [of "length f" raw pre "f @ rest" pos w] raw pos small q by (simp add: q_def)
  moreover have "sint (of_nat q + of_nat (length f) :: u64) = int (q + length f)"
    using q small by (simp only: of_nat_add [symmetric] sint_of_nat_u64)
  ultimately show ?thesis
    using q raw pos by (simp add: read_field_def slice_def q_def)
qed

text \<open>The record as \<open>decodeRecord\<close> returns it, with the namespace and key left empty.\<close>

lemma flag_bits:
  "(((if d then 1 else 0) OR (if v then 2 else 0) :: u8) AND 2 \<noteq> 0) = v"
  "(((if d then 1 else 0) OR (if v then 2 else 0) :: u8) AND 1 \<noteq> 0) = d"
  by (cases d; cases v; simp)+

lemma case_hd: "raw \<noteq> [] \<Longrightarrow> (case raw of [] \<Rightarrow> a | f # _ \<Rightarrow> g f) = g (hd raw)"
  by (cases raw) simp_all

lemma decode_encode:
  assumes small: "length (encodeRecord r) < 2 ^ 63"
  shows "decodeRecord (encodeRecord r) = Inr (record_of '''' '''' r)"
proof -
  define fl :: u8 where
    "fl = (if vv_isdelete r then 1 else 0) OR (if vv_value r \<noteq> None then 2 else 0)"
  define B where "B = AppendUvarint (unat (vv_block r))"
  define T where "T = AppendUvarint (unat (vv_tx r))"
  define V where "V = AppendUvarint (unat (vv_version r))"
  define I where "I = AppendUvarint (length (vv_txid r)) @ str_bytes (vv_txid r)"
  define X where "X = (case vv_value r of None \<Rightarrow> [] | Some v \<Rightarrow> AppendUvarint (length v) @ v)"
  define raw where "raw = encodeRecord r"
  have raw: "raw = fl # B @ T @ V @ I @ X"
    by (simp add: raw_def encodeRecord_def fl_def B_def T_def V_def I_def X_def)
  have u: "unat (w :: u64) < 2 ^ 64" for w using unsigned_less [of w] by simp
  have b: "read_uvarint raw 1 w = Inr (unat (vv_block r), 1 + length B)" for w
    unfolding B_def by (rule read_uvarint_Append [OF u, of _ "[fl]" _ "T @ V @ I @ X"]) (simp_all add: raw B_def)
  have t: "read_uvarint raw (1 + length B) w = Inr (unat (vv_tx r), 1 + length B + length T)" for w
    unfolding T_def by (rule read_uvarint_Append [OF u, of _ "fl # B" _ "V @ I @ X"]) (simp_all add: raw T_def)
  have v: "read_uvarint raw (1 + length B + length T) w =
      Inr (unat (vv_version r), 1 + length B + length T + length V)" for w
    unfolding V_def by (rule read_uvarint_Append [OF u, of _ "fl # B @ T" _ "I @ X"]) (simp_all add: raw V_def)
  define p where "p = 1 + length B + length T + length V"
  have i: "read_field raw p w w' = Inr (str_bytes (vv_txid r), p + length I)" for w w'
    using read_field_Append [of raw "fl # B @ T @ V" "str_bytes (vv_txid r)" X p w w'] small
    by (simp add: raw I_def p_def flip: raw_def)
  have x: "read_field raw (p + length I) w w' = Inr (val, p + length I + length X)"
    if "vv_value r = Some val" for val w w'
    using read_field_Append [of raw "fl # B @ T @ V @ I" val "[]" "p + length I" w w'] small that
    by (simp add: raw p_def X_def flip: raw_def)
  have fl: "(fl AND 2 \<noteq> 0) = (vv_value r \<noteq> None)" "(fl AND 1 \<noteq> 0) = vv_isdelete r"
    unfolding fl_def by (rule flag_bits)+
  have ne: "raw \<noteq> []" "hd raw = fl" by (simp_all add: raw)
  have "decodeRecord raw = (case (if fl AND 2 \<noteq> 0
            then map_sum id (\<lambda>(v, _). Some v) (read_field raw (p + length I) ''value length'' ''value overruns value'')
            else Inr None) of
         Inl e \<Rightarrow> Inl e
       | Inr value \<Rightarrow>
           Inr \<lparr>wr_namespace = '''', wr_key = '''', wr_block = vv_block r, wr_tx = vv_tx r,
             wr_version = vv_version r, wr_value = value, wr_isdelete = (fl AND 1 \<noteq> 0),
             wr_txid = vv_txid r\<rparr>)"
    using ne unfolding decodeRecord_def p_def
    by (simp add: case_hd b [simplified] t [simplified] v [simplified] i [unfolded p_def, simplified] split del: if_split cong: sum.case_cong if_cong)
  also have "\<dots> = Inr (record_of '''' '''' r)"
    by (cases "vv_value r") (simp_all only: fl, simp_all add: record_of_def x)
  finally show ?thesis by (simp add: raw_def)
qed

section \<open>Keys do not collide\<close>

datatype pkey =
    KMetaBlock
  | KMetaOldest
  | KData string
  | KHist string u64 u64
  | KIndex u64 string u64 u64

fun enc_key :: "pkey \<Rightarrow> bytes" where
  "enc_key KMetaBlock = metaBlockKey"
| "enc_key KMetaOldest = metaOldestKey"
| "enc_key (KData k) = dataKey k"
| "enc_key (KHist k b t) = historyKey k b t"
| "enc_key (KIndex c k b t) = indexKey c (historyKey k b t)"

lemma length_u64be [simp]: "length (u64be v) = 8"
  by (simp add: u64be_def)

lemma unat_u64: "unat (v :: u64) < 256 ^ 8"
  using unsigned_less [of v] by simp

lemma u64be_eq_iff [simp]: "u64be v = u64be w \<longleftrightarrow> v = w"
  unfolding u64be_def using be_inj [OF unat_u64 [of v] unat_u64 [of w]] by (auto intro: unsigned_word_eqI)

lemma unbe_u64be [simp]: "of_nat (unbe (u64be v)) = v"
  using unat_u64 [of v] by (simp add: u64be_def unbe_be del: of_nat_eq_iff)

lemma length_keyForState [simp]: "length (keyForState p k) = 5 + length k"
  by (simp add: keyForState_def)

lemma keyForState_append_eq [simp]:
  assumes "length xs = length ys"
  shows "keyForState p k @ xs = keyForState q l @ ys \<longleftrightarrow> p = q \<and> k = l \<and> xs = ys"
proof
  assume eq: "keyForState p k @ xs = keyForState q l @ ys"
  with assms have "length k = length l"
    by (metis add_left_cancel add_right_cancel length_append length_keyForState)
  with eq show "p = q \<and> k = l \<and> xs = ys" by (auto simp: keyForState_def)
qed auto

lemma keyForState_eq [simp]: "keyForState p k = keyForState q l \<longleftrightarrow> p = q \<and> k = l"
  using keyForState_append_eq [of "[]" "[]" p k q l] by simp

lemma historyKey_eq_iff [simp]:
  "historyKey k b t = historyKey l c u \<longleftrightarrow> k = l \<and> b = c \<and> t = u"
  by (simp add: historyKey_def historyPrefix_def)

fun kind :: "pkey \<Rightarrow> u8" where
  "kind (KData _) = prefixData"
| "kind (KHist _ _ _) = prefixHistory"
| "kind (KIndex _ _ _ _) = prefixIndex"
| "kind _ = prefixMeta"

lemma hd_enc_key: "hd (enc_key x) = kind x"
  by (cases x) (simp_all add: metaBlockKey_def metaOldestKey_def dataKey_def historyKey_def historyPrefix_def
      indexKey_def keyForState_def)

lemmas prefix_defs = prefixMeta_def prefixData_def prefixHistory_def prefixIndex_def

lemma enc_key_inj: "enc_key x = enc_key y \<Longrightarrow> x = y"
proof -
  assume eq: "enc_key x = enc_key y"
  then have "kind x = kind y" by (metis hd_enc_key)
  with eq show ?thesis
    by (cases x; cases y) (simp_all add: prefix_defs dataKey_def indexKey_def
        metaBlockKey_def metaOldestKey_def str_bytes_def)
qed

lemma enc_key_eq_iff [simp]: "enc_key x = enc_key y \<longleftrightarrow> x = y"
  using enc_key_inj by blast

lemma parseIndexKey_indexKey [simp]:
  "parseIndexKey (indexKey c (historyKey k b t)) = Inr (c, historyKey k b t)"
  by (simp add: parseIndexKey_def indexKey_def historyKey_def historyPrefix_def)

section \<open>Key order\<close>

lemma lex_append:
  fixes xs ys :: bytes
  shows "length xs = length ys \<Longrightarrow> xs @ us < ys @ vs \<longleftrightarrow> xs < ys \<or> xs = ys \<and> us < vs"
  by (induction xs ys rule: list_induct2) auto

lemma be_less: "v < 256 ^ n \<Longrightarrow> w < 256 ^ n \<Longrightarrow> be n v < be n w \<longleftrightarrow> v < w"
proof (induction n arbitrary: v w)
  case 0
  then show ?case by simp
next
  case (Suc n)
  have lt: "v div 256 < 256 ^ n" "w div 256 < 256 ^ n"
    using Suc.prems by (simp_all add: less_mult_imp_div_less mult.commute)
  have eq: "be n (v div 256) = be n (w div 256) \<longleftrightarrow> v div 256 = w div 256"
    using be_inj [OF lt] by auto
  have "(of_nat (v mod 256) :: u8) < of_nat (w mod 256) \<longleftrightarrow> v mod 256 < w mod 256"
    by (simp add: word_less_nat_alt)
  moreover have "v < w \<longleftrightarrow> v div 256 < w div 256 \<or> v div 256 = w div 256 \<and> v mod 256 < w mod 256"
    using div_mult_mod_eq [of v 256] div_mult_mod_eq [of w 256] mod_less_divisor [of 256 v]
      mod_less_divisor [of 256 w] by linarith
  ultimately show ?case
    using Suc.IH [OF lt] eq by (simp add: lex_append)
qed

lemma u64be_less [simp]: "u64be v < u64be w \<longleftrightarrow> v < w"
  unfolding u64be_def word_less_nat_alt by (rule be_less [OF unat_u64 unat_u64])

lemma not_less_iff: "NOT v < NOT w \<longleftrightarrow> w < (v :: u64)"
proof -
  have "unat (NOT x) = unat (- 1 :: u64) - unat x" for x :: u64
  proof -
    have "NOT x = - 1 - x" by (simp add: not_eq_complement)
    then show ?thesis using unat_sub [of x "- 1"] by simp
  qed
  moreover have "unat v \<le> unat (- 1 :: u64)" "unat w \<le> unat (- 1 :: u64)"
    using word_order.extremum word_le_nat_alt by blast+
  ultimately show ?thesis unfolding word_less_nat_alt by (simp only: ) linarith
qed

lemma historyKey_less:
  "historyKey k b t < historyKey k b' t' \<longleftrightarrow> b' < b \<or> b' = b \<and> t' < t"
  by (auto simp: historyKey_def lex_append not_less_iff)

lemma indexKey_less: "c < d \<Longrightarrow> indexKey c h < indexKey d h'"
  by (simp add: indexKey_def lex_append)

text \<open>The history of a state key is a contiguous range: a prefix match identifies the state key.\<close>

lemma historyPrefix_prefix:
  assumes "length l < 2 ^ 32" and "Sublist.prefix (historyPrefix k) (historyKey l b t)"
  shows "k = l"
proof -
  from assms(2) obtain zs where z: "historyPrefix k @ zs = historyPrefix l @ u64be (NOT b) @ u64be (NOT t)"
    by (auto simp: prefix_def historyKey_def)
  then have eq: "be 4 (unat (of_nat (length k) :: u32)) = be 4 (unat (of_nat (length l) :: u32))"
    "str_bytes k @ zs = str_bytes l @ u64be (NOT b) @ u64be (NOT t)"
    by (simp_all add: historyPrefix_def keyForState_def)
  have "unat x < 256 ^ 4" for x :: u32 using unsigned_less [of x] by simp
  then have m: "length k mod 2 ^ 32 = length l mod 2 ^ 32"
    using be_inj [OF _ _ eq(1)] by (simp add: unat_of_nat)
  have "length (str_bytes k @ zs) = length (str_bytes l @ u64be (NOT b) @ u64be (NOT t))" using eq(2) by (rule arg_cong)
  then have "length k \<le> length l + 16" by simp
  moreover have kl: "length k = length k div 2 ^ 32 * 2 ^ 32 + length l"
    using div_mult_mod_eq [of "length k" "2 ^ 32"] m mod_less [OF assms(1)] by (simp only:)
  ultimately have "length k div 2 ^ 32 * 2 ^ 32 \<le> 16" by linarith
  then have "length k div 2 ^ 32 = 0" by (cases "length k div 2 ^ 32") simp_all
  with kl have "length k = length l" by (metis add_0 mult_0)
  with eq(2) show ?thesis by simp
qed

end
