(* ===== verification/PebbleKVS.thy ===== *)
theory PebbleKVS
  imports LightKVS PebbleCodec
begin

text \<open>
  The persistent store (\<open>endorser/storage/pebblekvs.go\<close>): one current record per state key, the
  superseded records of the retained window as history entries, an index of the history by the block
  that superseded, and two meta values, all in one ordered key-value database and written in one batch
  per block.

  The database (go-ethereum's wrapper of pebble) is not part of the repository: it is the record
  \<open>dbi\<close> of the functions the code calls, and \<open>ordered_db\<close> states what the code relies on.
  \<open>db_get\<close> answers \<open>Inr None\<close> for \<open>pebble.ErrNotFound\<close>; \<open>db_stage\<close> is the error of adding an
  operation to a batch; \<open>db_write\<close> applies a batch; \<open>db_iter\<close> yields the entries an iterator
  delivers and the error it ends with.  A method is one step: commits are serialised by \<open>writeMu\<close>, and
  \<open>readerMu\<close> is held over the choice and publication of a pin.  A method that fails returns the error
  and has changed nothing.
\<close>

section \<open>The database\<close>

datatype batch_op = BPut bytes bytes | BDelete bytes

record 'db dbi =
  db_open :: "string \<Rightarrow> 'db result"
  db_get :: "'db \<Rightarrow> bytes \<Rightarrow> bytes option result"
  db_stage :: "batch_op list \<Rightarrow> batch_op \<Rightarrow> string option"
  db_write :: "'db \<Rightarrow> batch_op list \<Rightarrow> 'db result"
  db_iter :: "'db \<Rightarrow> bytes \<Rightarrow> bytes \<Rightarrow> (bytes \<times> bytes) list \<times> string option"

definition batch_add :: "'db dbi \<Rightarrow> batch_op \<Rightarrow> batch_op list \<Rightarrow> batch_op list result" where
  "batch_add D x batch = (case db_stage D batch x of Some e \<Rightarrow> Inl e | None \<Rightarrow> Inr (batch @ [x]))"

section \<open>The store\<close>

record 'db pebblekvs =
  pk_db :: 'db
  pk_historySize :: u64
  pk_currentBlock :: u64
  pk_hasCheckpoint :: bool
  pk_oldestRetained :: u64
  pk_openReaders :: "(u64 \<times> int) list"

record pebbleSnapshot =
  ps_lastBlock :: u64
  ps_closed :: bool

definition readMeta :: "'db dbi \<Rightarrow> 'db \<Rightarrow> bytes \<Rightarrow> (u64 \<times> bool) result" where
  "readMeta D db key =
     (case db_get D db key of
        Inl e \<Rightarrow> Inl e
      | Inr None \<Rightarrow> Inr (0, False)
      | Inr (Some raw) \<Rightarrow>
          if length raw \<noteq> 8 then Inl ''corrupt meta value'' else Inr (of_nat (unbe raw), True))"

definition readMetaBlock :: "'db dbi \<Rightarrow> 'db \<Rightarrow> (u64 \<times> bool) result" where
  "readMetaBlock D db = readMeta D db metaBlockKey"

definition defaultHistorySize :: int where "defaultHistorySize = 128"

definition NewPebbleKVS :: "'db dbi \<Rightarrow> string \<Rightarrow> int \<Rightarrow> 'db pebblekvs result" where
  "NewPebbleKVS D dir historySize =
     (if dir = '''' then Inl ''pebble kvs requires a non-empty data directory''
      else let historySize = (if historySize \<le> 0 then defaultHistorySize else historySize) in
      case db_open D dir of
        Inl e \<Rightarrow> Inl e
      | Inr db \<Rightarrow>
          (case readMetaBlock D db of
             Inl e \<Rightarrow> Inl e
           | Inr (block, found) \<Rightarrow>
               (case readMeta D db metaOldestKey of
                  Inl e \<Rightarrow> Inl e
                | Inr (oldest, _) \<Rightarrow>
                    Inr \<lparr>pk_db = db, pk_historySize = of_int historySize, pk_currentBlock = block,
                         pk_hasCheckpoint = found, pk_oldestRetained = oldest, pk_openReaders = []\<rparr>)))"

definition currentRecord :: "'db dbi \<Rightarrow> 'db \<Rightarrow> string \<Rightarrow> (write_record \<times> bytes) option result" where
  "currentRecord D db k =
     (case db_get D db (dataKey k) of
        Inl e \<Rightarrow> Inl e
      | Inr None \<Rightarrow> Inr None
      | Inr (Some raw) \<Rightarrow>
          (case decodeRecord raw of Inl e \<Rightarrow> Inl e | Inr r \<Rightarrow> Inr (Some (r, raw))))"

section \<open>Committing a block\<close>

definition stageHistory ::
    "'db dbi \<Rightarrow> u64 \<Rightarrow> string \<Rightarrow> write_record \<Rightarrow> bytes \<Rightarrow> batch_op list \<Rightarrow> batch_op list result" where
  "stageHistory D blockNum k prev raw batch =
     (let histKey = historyKey k (wr_block prev) (wr_tx prev) in
      case batch_add D (BPut histKey raw) batch of
        Inl e \<Rightarrow> Inl e
      | Inr batch \<Rightarrow> batch_add D (BPut (indexKey blockNum histKey) []) batch)"

text \<open>The first write of a key in the block: its version, and the batch with the superseded record.\<close>

definition seed_version ::
    "'db dbi \<Rightarrow> 'db \<Rightarrow> u64 \<Rightarrow> string \<Rightarrow> batch_op list \<Rightarrow> (u64 \<times> batch_op list) result" where
  "seed_version D db blockNum k batch =
     (case currentRecord D db k of
        Inl e \<Rightarrow> Inl e
      | Inr None \<Rightarrow> Inr (0, batch)
      | Inr (Some (prev, raw)) \<Rightarrow>
          map_sum id (Pair (wr_version prev + 1)) (stageHistory D blockNum k prev raw batch))"

definition update_record :: "kv_update \<Rightarrow> u64 \<Rightarrow> value_version" where
  "update_record u version = \<lparr>vv_value = ku_value u, vv_block = ku_block u, vv_tx = ku_tx u,
     vv_version = version, vv_txid = ku_txid u, vv_isdelete = ku_isdelete u\<rparr>"

fun stage_updates ::
    "'db dbi \<Rightarrow> 'db \<Rightarrow> u64 \<Rightarrow> kv_update list \<Rightarrow> (string \<rightharpoonup> u64) \<Rightarrow> batch_op list \<Rightarrow> batch_op list result" where
  "stage_updates D db blockNum [] nextVersion batch = Inr batch"
| "stage_updates D db blockNum (u # us) nextVersion batch =
     (case (case nextVersion (ku_key u) of
              Some version \<Rightarrow> Inr (version, batch)
            | None \<Rightarrow> seed_version D db blockNum (ku_key u) batch) of
        Inl e \<Rightarrow> Inl e
      | Inr (version, batch) \<Rightarrow>
          (case batch_add D (BPut (dataKey (ku_key u)) (encodeRecord (update_record u version))) batch of
             Inl e \<Rightarrow> Inl e
           | Inr batch \<Rightarrow>
               stage_updates D db blockNum us (nextVersion(ku_key u \<mapsto> version + 1)) batch))"

definition lowestPinnedLocked :: "(u64 \<times> int) list \<Rightarrow> u64" where
  "lowestPinnedLocked readers =
     foldl (\<lambda>lowest (bn, _). if bn < lowest then bn else lowest) 0xFFFFFFFFFFFFFFFF readers"

fun prune_entries ::
    "'db dbi \<Rightarrow> u64 \<Rightarrow> (bytes \<times> bytes) list \<Rightarrow> string option \<Rightarrow> batch_op list \<Rightarrow> batch_op list result" where
  "prune_entries D cutoff [] err batch = (case err of Some e \<Rightarrow> Inl e | None \<Rightarrow> Inr batch)"
| "prune_entries D cutoff ((key, _) # rest) err batch =
     (case parseIndexKey key of
        Inl e \<Rightarrow> Inl e
      | Inr (block, histKey) \<Rightarrow>
          if cutoff < block then Inr batch
          else (case batch_add D (BDelete histKey) batch of
                  Inl e \<Rightarrow> Inl e
                | Inr batch \<Rightarrow>
                    (case batch_add D (BDelete key) batch of
                       Inl e \<Rightarrow> Inl e
                     | Inr batch \<Rightarrow> prune_entries D cutoff rest err batch)))"

definition prune_cutoff :: "'db pebblekvs \<Rightarrow> u64 \<Rightarrow> u64" where
  "prune_cutoff p blockNum =
     (let cutoff = blockNum - pk_historySize p - 1; pin = lowestPinnedLocked (pk_openReaders p)
      in if pin < cutoff then pin else cutoff)"

definition pruneLocked ::
    "'db dbi \<Rightarrow> 'db pebblekvs \<Rightarrow> u64 \<Rightarrow> batch_op list \<Rightarrow> (u64 \<times> batch_op list) result" where
  "pruneLocked D p blockNum batch =
     (if blockNum < pk_historySize p + 1 then Inr (0, batch)
      else
        let cutoff = prune_cutoff p blockNum; (entries, err) = db_iter D (pk_db p) [prefixIndex] []
        in case prune_entries D cutoff entries err batch of
             Inl e \<Rightarrow> Inl e
           | Inr batch \<Rightarrow>
               let oldest = cutoff + 1
               in if oldest \<le> pk_oldestRetained p then Inr (0, batch)
                  else map_sum id (Pair oldest) (batch_add D (BPut metaOldestKey (u64be oldest)) batch))"

fun verify_tip_loop :: "'db dbi \<Rightarrow> 'db \<Rightarrow> (string \<times> kv_update) list \<Rightarrow> unit result" where
  "verify_tip_loop D db [] = Inr ()"
| "verify_tip_loop D db ((key, u) # rest) =
     (case currentRecord D db key of
        Inl e \<Rightarrow> Inl e
      | Inr None \<Rightarrow> Inl ''missing write''
      | Inr (Some (stored, _)) \<Rightarrow>
          if wr_block stored \<noteq> ku_block u then Inl ''missing write''
          else if wr_isdelete stored \<noteq> ku_isdelete u \<or> gbytes (wr_value stored) \<noteq> gbytes (ku_value u)
                 \<or> wr_txid stored \<noteq> ku_txid u then Inl ''conflicting write''
          else verify_tip_loop D db rest)"

definition verifyTipReplay :: "'db dbi \<Rightarrow> 'db \<Rightarrow> kv_update list \<Rightarrow> unit result" where
  "verifyTipReplay D db updates = verify_tip_loop D db (final_updates updates)"

definition commitBlock :: "'db dbi \<Rightarrow> 'db pebblekvs \<Rightarrow> u64 \<Rightarrow> kv_update list \<Rightarrow> 'db pebblekvs result" where
  "commitBlock D p blockNum updates =
     (if pk_hasCheckpoint p \<and> blockNum \<le> pk_currentBlock p then
        if blockNum < pk_currentBlock p then Inr p
        else (case verifyTipReplay D (pk_db p) updates of Inl e \<Rightarrow> Inl e | Inr _ \<Rightarrow> Inr p)
      else
        case stage_updates D (pk_db p) blockNum updates Map.empty [] of
          Inl e \<Rightarrow> Inl e
        | Inr batch \<Rightarrow>
            (case pruneLocked D p blockNum batch of
               Inl e \<Rightarrow> Inl e
             | Inr (oldest, batch) \<Rightarrow>
                 (case batch_add D (BPut metaBlockKey (u64be blockNum)) batch of
                    Inl e \<Rightarrow> Inl e
                  | Inr batch \<Rightarrow>
                      (case db_write D (pk_db p) batch of
                         Inl e \<Rightarrow> Inl e
                       | Inr db \<Rightarrow>
                           Inr (p\<lparr>pk_db := db, pk_currentBlock := blockNum, pk_hasCheckpoint := True,
                                  pk_oldestRetained := (if 0 < oldest then oldest else pk_oldestRetained p)\<rparr>)))))"

definition Pebble_Handle :: "'db dbi \<Rightarrow> 'db pebblekvs \<Rightarrow> block \<Rightarrow> 'db pebblekvs result" where
  "Pebble_Handle D p b = commitBlock D p (bk_number b) (block_updates b)"

definition Pebble_BlockNumber :: "'db pebblekvs \<Rightarrow> u64" where
  "Pebble_BlockNumber p = pk_currentBlock p"

section \<open>Readers\<close>

definition open_count :: "(u64 \<times> int) list \<Rightarrow> u64 \<Rightarrow> int" where
  "open_count readers bn = (case map_of readers bn of None \<Rightarrow> 0 | Some n \<Rightarrow> n)"

definition releaseReader :: "'db pebblekvs \<Rightarrow> u64 \<Rightarrow> 'db pebblekvs" where
  "releaseReader p bn =
     (let n = open_count (pk_openReaders p) bn
      in p\<lparr>pk_openReaders := (if 1 < n then AList.update bn (n - 1) (pk_openReaders p)
                             else AList.delete bn (pk_openReaders p))\<rparr>)"

definition Pebble_NewSnapshot ::
    "'db pebblekvs \<Rightarrow> u64 option \<Rightarrow> (pebbleSnapshot \<times> 'db pebblekvs) result" where
  "Pebble_NewSnapshot p blockNumber =
     (let head = pk_currentBlock p;
          bn = (case blockNumber of Some n \<Rightarrow> if n < head then n else head | None \<Rightarrow> head)
      in if bn < pk_oldestRetained p then Inl ''snapshot not found''
         else Inr (\<lparr>ps_lastBlock = bn, ps_closed = False\<rparr>,
                   p\<lparr>pk_openReaders := AList.update bn (open_count (pk_openReaders p) bn + 1) (pk_openReaders p)\<rparr>))"

definition pebbleSnapshot_Get ::
    "'db dbi \<Rightarrow> 'db pebblekvs \<Rightarrow> pebbleSnapshot \<Rightarrow> string \<Rightarrow> string \<Rightarrow> write_record option result" where
  "pebbleSnapshot_Get D p s ns key =
     (if ps_closed s then Inl ''reader is closed''
      else
        let k = fullKey ns key
        in case currentRecord D (pk_db p) k of
             Inl e \<Rightarrow> Inl e
           | Inr rec \<Rightarrow>
               (case (case rec of Some (r, _) \<Rightarrow> if wr_block r \<le> ps_lastBlock s then Some r else None
                                | None \<Rightarrow> None) of
                  Some r \<Rightarrow> Inr (Some (r\<lparr>wr_namespace := ns, wr_key := key\<rparr>))
                | None \<Rightarrow>
                    (case db_iter D (pk_db p) (historyPrefix k) (u64be (NOT (ps_lastBlock s))) of
                       ((_, raw) # _, _) \<Rightarrow>
                         (case decodeRecord raw of
                            Inl e \<Rightarrow> Inl e
                          | Inr r \<Rightarrow> Inr (Some (r\<lparr>wr_namespace := ns, wr_key := key\<rparr>)))
                     | ([], Some e) \<Rightarrow> Inl e
                     | ([], None) \<Rightarrow> Inr None)))"

definition pebbleSnapshot_Close ::
    "'db pebblekvs \<Rightarrow> pebbleSnapshot \<Rightarrow> pebbleSnapshot \<times> 'db pebblekvs" where
  "pebbleSnapshot_Close p s =
     (if ps_closed s then (s, p) else (s\<lparr>ps_closed := True\<rparr>, releaseReader p (ps_lastBlock s)))"

definition Pebble_Get ::
    "'db dbi \<Rightarrow> 'db pebblekvs \<Rightarrow> string \<Rightarrow> string \<Rightarrow> (write_record option \<times> 'db pebblekvs) result" where
  "Pebble_Get D p ns key =
     (case Pebble_NewSnapshot p None of
        Inl e \<Rightarrow> Inl e
      | Inr (r, p) \<Rightarrow>
          map_sum id (\<lambda>v. (v, snd (pebbleSnapshot_Close p r))) (pebbleSnapshot_Get D p r ns key))"

end
