(* ===== verification/PebbleInv.thy ===== *)
theory PebbleInv
  imports PebbleKVS
begin

text \<open>
  Why the persistent store is correct.  \<open>ordered_db\<close> is the documented behaviour of the database: reads
  see the last write, a batch that succeeds is applied as a whole, an iterator delivers the entries of a
  prefix from a start key in key order.  \<open>content\<close> says what a ledger with a retention bound looks like
  as database content, \<open>pb_rel\<close> is the store's invariant, and the lemma \<open>pb_store\<close> shows that the
  store keeps the contract \<open>block_store\<close> of all key-value stores.
\<close>

section \<open>The database contract\<close>

fun apply_op :: "(bytes \<rightharpoonup> bytes) \<Rightarrow> batch_op \<Rightarrow> (bytes \<rightharpoonup> bytes)" where
  "apply_op m (BPut k v) = m(k \<mapsto> v)"
| "apply_op m (BDelete k) = m(k := None)"

definition ordered_db :: "'db dbi \<Rightarrow> ('db \<Rightarrow> bytes \<rightharpoonup> bytes) \<Rightarrow> bool" where
  "ordered_db D view \<longleftrightarrow>
     (\<forall>db k. db_get D db k = Inr (view db k)) \<and>
     (\<forall>db batch db'. db_write D db batch = Inr db' \<longrightarrow> view db' = foldl apply_op (view db) batch) \<and>
     (\<forall>db p start. \<exists>es. db_iter D db p start = (es, None) \<and> sorted_wrt (<) (map fst es) \<and>
        set es = {(k, v). view db k = Some v \<and> Sublist.prefix p k \<and> p @ start \<le> k})"

text \<open>Batches whose keys are all of the store's own format, as updates of a map on parsed keys.\<close>

datatype key_op = Put pkey bytes | Del pkey

fun enc_op :: "key_op \<Rightarrow> batch_op" where
  "enc_op (Put x v) = BPut (enc_key x) v"
| "enc_op (Del x) = BDelete (enc_key x)"

fun do_op :: "(pkey \<rightharpoonup> bytes) \<Rightarrow> key_op \<Rightarrow> (pkey \<rightharpoonup> bytes)" where
  "do_op m (Put x v) = m(x \<mapsto> v)"
| "do_op m (Del x) = m(x := None)"

lemma batch_on_keys: "foldl apply_op m (map enc_op xs) (enc_key y) = foldl do_op (m \<circ> enc_key) xs y"
proof (induction xs arbitrary: m)
  case Nil
  then show ?case by simp
next
  case (Cons x xs)
  have "apply_op m (enc_op x) \<circ> enc_key = do_op (m \<circ> enc_key) x"
    by (cases x) (auto simp: fun_eq_iff)
  with Cons show ?case by (simp add: comp_def)
qed

lemma batch_elsewhere: "z \<notin> range enc_key \<Longrightarrow> foldl apply_op m (map enc_op xs) z = m z"
proof (induction xs arbitrary: m)
  case Nil
  then show ?case by simp
next
  case (Cons x xs)
  then show ?case by (cases x) auto
qed

lemma batch_add_Inr: "batch_add D x batch = Inr batch' \<Longrightarrow> batch' = batch @ [x]"
  by (auto simp: batch_add_def split: option.splits)

section \<open>What the database holds for a ledger\<close>

definition superseded_at :: "block list \<Rightarrow> string \<Rightarrow> u64 \<Rightarrow> u64 option" where
  "superseded_at l k B =
     (case filter (\<lambda>b. B < bk_number b \<and> writes_to k (block_updates b) \<noteq> []) l of
        [] \<Rightarrow> None | b # _ \<Rightarrow> Some (bk_number b))"

text \<open>The record of \<open>k\<close> written by block \<open>B\<close>, transaction \<open>T\<close>, and the block that superseded it.\<close>

definition hist :: "block list \<Rightarrow> string \<Rightarrow> u64 \<Rightarrow> u64 \<Rightarrow> (u64 \<times> value_version) option" where
  "hist l k B T =
     (case spec_data (ledger_updates (upto_block (Some B) l)) k of
        None \<Rightarrow> None
      | Some vv \<Rightarrow> if vv_block vv = B \<and> vv_tx vv = T then map_option (\<lambda>c. (c, vv)) (superseded_at l k B) else None)"

fun content :: "block list \<Rightarrow> u64 \<Rightarrow> pkey \<Rightarrow> bytes option" where
  "content l old KMetaBlock = (if l = [] then None else Some (u64be (ledger_height l)))"
| "content l old KMetaOldest = (if old = 0 then None else Some (u64be old))"
| "content l old (KData k) = map_option encodeRecord (spec_data (ledger_updates l) k)"
| "content l old (KHist k B T) =
     (case hist l k B T of Some (c, vv) \<Rightarrow> if old \<le> c then Some (encodeRecord vv) else None | None \<Rightarrow> None)"
| "content l old (KIndex c k B T) =
     (case hist l k B T of Some (c', _) \<Rightarrow> if c' = c \<and> old \<le> c then Some [] else None | None \<Rightarrow> None)"

section \<open>Writers of a key\<close>

definition writes_key :: "string \<Rightarrow> block \<Rightarrow> bool" where
  "writes_key k b \<longleftrightarrow> writes_to k (block_updates b) \<noteq> []"

lemma writes_to_ledger: "writes_to k (ledger_updates l) = concat (map (\<lambda>b. writes_to k (block_updates b)) l)"
  by (induction l) (simp_all add: ledger_updates_def)

lemma writes_to_filter:
  "(\<And>b. b \<in> set l \<Longrightarrow> \<not> P b \<Longrightarrow> \<not> writes_key k b) \<Longrightarrow>
   writes_to k (ledger_updates (filter P l)) = writes_to k (ledger_updates l)"
  unfolding writes_to_ledger by (induction l) (auto simp: writes_key_def)

lemma spec_data_filter:
  "(\<And>b. b \<in> set l \<Longrightarrow> \<not> P b \<Longrightarrow> \<not> writes_key k b) \<Longrightarrow>
   spec_data (ledger_updates (filter P l)) k = spec_data (ledger_updates l) k"
  using writes_to_filter [of l P k] by (simp add: spec_data_def)

lemma collectWrites_block:
  "\<forall>u \<in> set us. ku_block u = n \<Longrightarrow> \<forall>u \<in> set (collectWrites us rws n t i v). ku_block u = n"
  by (auto simp: collectWrites_def)

lemma block_updates_block: "u \<in> set (block_updates b) \<Longrightarrow> ku_block u = bk_number b"
proof -
  have "\<forall>u \<in> set (foldl (\<lambda>us tx. collectWrites us (bt_nsrws tx) (bk_number b) (of_int (bt_number tx)) (bt_id tx)
        (bt_valid tx)) [] txs). ku_block u = bk_number b" for txs
    by (induction txs rule: rev_induct) (simp, simp only: foldl_append foldl.simps, rule collectWrites_block)
  from this [of "bk_txs b"] show "u \<in> set (block_updates b) \<Longrightarrow> ku_block u = bk_number b"
    unfolding block_updates_def by (rule bspec)
qed

lemma spec_data_writer:
  assumes "ledger_ok l" and "spec_data (ledger_updates l) k = Some vv"
  shows "(\<exists>b \<in> set l. bk_number b = vv_block vv \<and> writes_key k b) \<and>
     (\<forall>b \<in> set l. writes_key k b \<longrightarrow> bk_number b \<le> vv_block vv)"
  using assms
proof (induction l arbitrary: vv rule: rev_induct)
  case Nil
  then show ?case by simp
next
  case (snoc b l)
  show ?case
  proof (cases "writes_key k b")
    case False
    then have "spec_data (ledger_updates l) k = Some vv"
      using snoc.prems(2) by (simp add: spec_data_def writes_key_def)
    then show ?thesis using snoc False by (auto simp: ledger_ok_snoc)
  next
    case True
    then have "last (writes_to k (block_updates b)) \<in> set (block_updates b)"
      using last_in_set [of "writes_to k (block_updates b)"] by (auto simp: writes_key_def writes_to_def)
    moreover have "vv_block vv = ku_block (last (writes_to k (block_updates b)))"
      using snoc.prems(2) True by (auto simp: writes_key_def spec_data_Some version_at_def)
    ultimately have "vv_block vv = bk_number b" using block_updates_block by simp
    then show ?thesis using snoc.prems(1) True by (auto simp: ledger_ok_snoc intro: less_imp_le)
  qed
qed

lemma spec_data_none: "spec_data (ledger_updates l) k = None \<longleftrightarrow> (\<forall>b \<in> set l. \<not> writes_key k b)"
  by (auto simp: spec_data_eq_None writes_to_ledger writes_key_def)

lemma upto_no_writer:
  "(\<And>b. b \<in> set l \<Longrightarrow> n < bk_number b \<Longrightarrow> \<not> writes_key k b) \<Longrightarrow>
   spec_data (ledger_updates (upto_block (Some n) l)) k = spec_data (ledger_updates l) k"
  unfolding upto_block_def by (simp, rule spec_data_filter) (simp add: not_le)

section \<open>History of an extended ledger\<close>

lemma superseded_None: "superseded_at l k B = None \<longleftrightarrow> (\<forall>b \<in> set l. B < bk_number b \<longrightarrow> \<not> writes_key k b)"
proof -
  have "superseded_at l k B = None \<longleftrightarrow> filter (\<lambda>b. B < bk_number b \<and> writes_to k (block_updates b) \<noteq> []) l = []"
    by (auto simp: superseded_at_def split: list.splits)
  then show ?thesis by (simp add: filter_empty_conv writes_key_def)
qed

lemma superseded_Some:
  assumes "ledger_ok l" and "superseded_at l k B = Some c"
  shows "B < c \<and> (\<exists>b \<in> set l. bk_number b = c \<and> writes_key k b) \<and>
    (\<forall>b \<in> set l. B < bk_number b \<longrightarrow> writes_key k b \<longrightarrow> c \<le> bk_number b)"
proof -
  let ?f = "filter (\<lambda>b. B < bk_number b \<and> writes_to k (block_updates b) \<noteq> []) l"
  obtain a rest where f: "?f = a # rest" "bk_number a = c"
    using assms(2) by (auto simp: superseded_at_def split: list.splits)
  have "sorted_wrt (\<lambda>a b. bk_number a < bk_number b) ?f"
    using assms(1) by (simp add: ledger_ok_def sorted_wrt_filter)
  with f have le: "\<forall>b \<in> set ?f. c \<le> bk_number b" by (auto intro: less_imp_le)
  have "a \<in> set ?f" using f by simp
  then have "a \<in> set l" "B < bk_number a" "writes_key k a" by (simp_all add: writes_key_def)
  moreover have "\<forall>b \<in> set l. B < bk_number b \<longrightarrow> writes_key k b \<longrightarrow> c \<le> bk_number b"
    using le by (simp add: writes_key_def)
  ultimately show ?thesis using f(2) by auto
qed

lemma superseded_snoc:
  "superseded_at (l @ [b]) k B =
     (case superseded_at l k B of
        Some c \<Rightarrow> Some c
      | None \<Rightarrow> if B < bk_number b \<and> writes_key k b then Some (bk_number b) else None)"
  by (auto simp: superseded_at_def writes_key_def split: list.splits)

lemma hist_current: "ledger_ok l \<Longrightarrow> spec_data (ledger_updates l) k = Some vv \<Longrightarrow> hist l k (vv_block vv) T = None"
  using spec_data_writer [of l k vv] superseded_None [of l k "vv_block vv"]
  by (fastforce simp: hist_def split: option.splits)

lemma hist_snoc:
  assumes ok: "ledger_ok (l @ [b])"
  shows "hist (l @ [b]) k B T =
     (case hist l k B T of
        Some x \<Rightarrow> Some x
      | None \<Rightarrow>
          (case spec_data (ledger_updates l) k of
             Some vv \<Rightarrow> if vv_block vv = B \<and> vv_tx vv = T \<and> writes_key k b then Some (bk_number b, vv) else None
           | None \<Rightarrow> None))"
proof -
  have lok: "ledger_ok l" and lt: "\<And>a. a \<in> set l \<Longrightarrow> bk_number a < bk_number b"
    using ok by (auto simp: ledger_ok_snoc)
  have vb: "vv_block vv < bk_number b" if "spec_data (ledger_updates l) k = Some vv" for vv
    using spec_data_writer [OF lok that] lt by metis
  show ?thesis
  proof (cases "B < bk_number b")
    case False
    then have "superseded_at l k B = None" "superseded_at (l @ [b]) k B = None"
      using lt by (auto simp: superseded_None dest: less_trans)
    then have "hist l k B T = None" "hist (l @ [b]) k B T = None"
      by (auto simp: hist_def split: option.splits)
    with False vb show ?thesis by (auto split: option.splits)
  next
    case True
    then have up: "upto_block (Some B) (l @ [b]) = upto_block (Some B) l" by (simp add: upto_block_def)
    show ?thesis
    proof (cases "superseded_at l k B")
      case None
      then have "spec_data (ledger_updates (upto_block (Some B) l)) k = spec_data (ledger_updates l) k"
        using upto_no_writer [of l B k] by (auto simp: superseded_None)
      with None True up show ?thesis by (auto simp: hist_def superseded_snoc split: option.splits)
    next
      case (Some c)
      then obtain a where a: "a \<in> set l" "bk_number a = c" "writes_key k a" "B < c"
        using superseded_Some [OF lok] by blast
      have "vv_block vv \<noteq> B" if "spec_data (ledger_updates l) k = Some vv" for vv
        using spec_data_writer [OF lok that] a by (auto dest: leD)
      with Some up show ?thesis by (auto simp: hist_def superseded_snoc split: option.splits)
    qed
  qed
qed

section \<open>Staging the updates of a block\<close>

fun staged :: "kv_update list \<Rightarrow> u64 \<Rightarrow> kv_update list \<Rightarrow> kv_update list \<Rightarrow> pkey \<Rightarrow> bytes option" where
  "staged U c vs us (KData k) =
     (if writes_to k us = [] then None else map_option encodeRecord (spec_data (U @ vs @ us) k))"
| "staged U c vs us (KHist k B T) =
     (case spec_data U k of
        Some vv \<Rightarrow> if vv_block vv = B \<and> vv_tx vv = T \<and> writes_to k vs = [] \<and> writes_to k us \<noteq> []
                   then Some (encodeRecord vv) else None
      | None \<Rightarrow> None)"
| "staged U c vs us (KIndex c' k B T) =
     (case spec_data U k of
        Some vv \<Rightarrow> if c' = c \<and> vv_block vv = B \<and> vv_tx vv = T \<and> writes_to k vs = [] \<and> writes_to k us \<noteq> []
                   then Some [] else None
      | None \<Rightarrow> None)"
| "staged U c vs us _ = None"

definition overlay :: "('a \<rightharpoonup> 'b) \<Rightarrow> ('a \<rightharpoonup> 'b) \<Rightarrow> ('a \<rightharpoonup> 'b)" where
  "overlay f m = (\<lambda>x. case f x of Some v \<Rightarrow> Some v | None \<Rightarrow> m x)"

lemma overlay_staged_Nil: "overlay (staged U c vs []) m = m"
proof
  fix x
  show "overlay (staged U c vs []) m x = m x"
    by (cases x) (auto simp: overlay_def split: option.splits)
qed

definition first_ops :: "kv_update list \<Rightarrow> u64 \<Rightarrow> kv_update list \<Rightarrow> kv_update \<Rightarrow> key_op list" where
  "first_ops U c vs u =
     (case spec_data U (ku_key u) of
        Some vv \<Rightarrow> if writes_to (ku_key u) vs = [] then
            [Put (KHist (ku_key u) (vv_block vv) (vv_tx vv)) (encodeRecord vv),
             Put (KIndex c (ku_key u) (vv_block vv) (vv_tx vv)) []] else []
      | None \<Rightarrow> [])
     @ [Put (KData (ku_key u)) (encodeRecord (version_at u (length (writes_to (ku_key u) (U @ vs)))))]"

lemma staged_Cons:
  "overlay (staged U c (vs @ [u]) us) (foldl do_op m (first_ops U c vs u)) = overlay (staged U c vs (u # us)) m"
proof
  fix x
  have D: "spec_data (U @ vs @ u # us) k = spec_data (U @ vs @ [u]) k" if "writes_to k us = []" for k
    using that by (simp add: spec_data_def writes_to_Cons)
  have D1: "spec_data (U @ vs @ [u]) (ku_key u) = Some (version_at u (length (writes_to (ku_key u) (U @ vs))))"
    using spec_data_snoc [of "U @ vs" u] by simp
  have D2: "writes_to k us = [] \<and> ku_key u \<noteq> k" if "spec_data (U @ vs @ u # us) k = None" for k
    using that by (simp add: spec_data_eq_None writes_to_Cons split: if_splits)
  show "overlay (staged U c (vs @ [u]) us) (foldl do_op m (first_ops U c vs u)) x = overlay (staged U c vs (u # us)) m x"
    using D D1 by (cases x) (auto simp: overlay_def first_ops_def writes_to_Cons split: option.splits dest: D2)
qed

definition fits :: "(string \<rightharpoonup> value_version) \<Rightarrow> bool" where
  "fits m \<longleftrightarrow> (\<forall>k vv. m k = Some vv \<longrightarrow> length (encodeRecord vv) < 2 ^ 63)"

lemma currentRecord_spec:
  assumes "db_get D db (dataKey k) = Inr (map_option encodeRecord (m k))" and "fits m"
  shows "currentRecord D db k = Inr (map_option (\<lambda>vv. (record_of '''' '''' vv, encodeRecord vv)) (m k))"
  using assms by (cases "m k") (simp_all add: currentRecord_def fits_def decode_encode)

lemma seed_version_spec:
  assumes "\<And>k. db_get D db (dataKey k) = Inr (map_option encodeRecord (spec_data U k))" and "fits (spec_data U)"
    and "seed_version D db c k batch = Inr (v, batch')"
  shows "v = of_nat (length (writes_to k U)) \<and>
    batch' = batch @ (case spec_data U k of
        Some vv \<Rightarrow> map enc_op [Put (KHist k (vv_block vv) (vv_tx vv)) (encodeRecord vv),
             Put (KIndex c k (vv_block vv) (vv_tx vv)) []]
      | None \<Rightarrow> [])"
proof (cases "spec_data U k")
  case None
  moreover from None have "writes_to k U = []" by (simp add: spec_data_eq_None)
  ultimately show ?thesis
    using assms(3) by (simp add: seed_version_def currentRecord_spec [OF assms(1,2)])
next
  case (Some vv)
  then have ne: "writes_to k U \<noteq> []" using spec_data_eq_None [of U k] by auto
  then have "vv_version vv = of_nat (length (writes_to k U) - 1)"
    using Some spec_data_Some [OF ne] by (auto simp: version_at_def)
  then have ver: "vv_version vv + 1 = of_nat (length (writes_to k U))"
    using ne by (cases "writes_to k U") (simp_all add: add.commute)
  show ?thesis
    using assms(3) Some ver
    by (auto simp: seed_version_def currentRecord_spec [OF assms(1,2)] record_of_def stageHistory_def Let_def
        map_sum_def split: sum.splits dest!: batch_add_Inr)
qed

lemma stage_updates_spec:
  assumes "\<And>k. db_get D db (dataKey k) = Inr (map_option encodeRecord (spec_data U k))" and "fits (spec_data U)"
    and "\<And>k. nv k = (if writes_to k vs = [] then None else Some (of_nat (length (writes_to k (U @ vs)))))"
    and "stage_updates D db c us nv batch = Inr batch'"
  shows "\<exists>xs. batch' = batch @ map enc_op xs \<and> (\<forall>m. foldl do_op m xs = overlay (staged U c vs us) m)"
  using assms(3,4)
proof (induction us arbitrary: vs nv batch)
  case Nil
  then show ?case by (intro exI [of _ "[]"]) (simp add: overlay_staged_Nil)
next
  case (Cons u us)
  let ?k = "ku_key u" and ?v = "of_nat (length (writes_to (ku_key u) (U @ vs))) :: u64"
  obtain v b1 b2 where 1: "(case nv ?k of Some version \<Rightarrow> Inr (version, batch)
        | None \<Rightarrow> seed_version D db c ?k batch) = Inr (v, b1)"
    and 2: "batch_add D (BPut (dataKey ?k) (encodeRecord (update_record u v))) b1 = Inr b2"
    and 3: "stage_updates D db c us (nv(?k \<mapsto> v + 1)) b2 = Inr batch'"
    using Cons.prems(2) by (auto split: sum.splits)
  have v: "v = ?v \<and> b1 @ [BPut (dataKey ?k) (encodeRecord (update_record u ?v))] = batch @ map enc_op (first_ops U c vs u)"
  proof (cases "writes_to ?k vs = []")
    case True
    then have "seed_version D db c ?k batch = Inr (v, b1)" using 1 Cons.prems(1) by simp
    from seed_version_spec [OF assms(1,2) this] True show ?thesis
      by (auto simp: first_ops_def update_record_def version_at_def split: option.splits)
  next
    case False
    then show ?thesis
      using 1 Cons.prems(1) by (auto simp: first_ops_def update_record_def version_at_def split: option.splits)
  qed
  then have b2: "b2 = batch @ map enc_op (first_ops U c vs u)" using batch_add_Inr [OF 2] by simp
  have "(nv(?k \<mapsto> v + 1)) k =
      (if writes_to k (vs @ [u]) = [] then None else Some (of_nat (length (writes_to k (U @ vs @ [u])))))" for k
    using Cons.prems(1) [of k] v by (auto simp: writes_to_Cons add.commute)
  from Cons.IH [OF this 3] obtain xs where "batch' = b2 @ map enc_op xs"
    "\<forall>m. foldl do_op m xs = overlay (staged U c (vs @ [u]) us) m" by blast
  with b2 show ?case
    by (intro exI [of _ "first_ops U c vs u @ xs"]) (simp add: staged_Cons)
qed

section \<open>Pruning\<close>

type_synonym index_entry = "u64 \<times> string \<times> u64 \<times> u64"

fun index_key :: "index_entry \<Rightarrow> pkey" where
  "index_key (c, k, B, T) = KIndex c k B T"

fun del_ops :: "index_entry \<Rightarrow> key_op list" where
  "del_ops (c, k, B, T) = [Del (KHist k B T), Del (KIndex c k B T)]"

lemma prune_entries_spec:
  assumes "prune_entries D cutoff es None batch = Inr batch'" and "map fst es = map (enc_key \<circ> index_key) ts"
  shows "batch' = batch @ map enc_op (concat (map del_ops (takeWhile (\<lambda>t. fst t \<le> cutoff) ts)))"
  using assms
proof (induction D cutoff es "None :: string option" batch arbitrary: ts rule: prune_entries.induct)
  case (1 D cutoff batch)
  then show ?case by simp
next
  case (2 D cutoff key v rest batch)
  obtain c k B T ts' where ts: "ts = (c, k, B, T) # ts'" "map fst rest = map (enc_key \<circ> index_key) ts'"
      "key = indexKey c (historyKey k B T)"
    using 2(3) by (cases ts) auto
  show ?case
  proof (cases "cutoff < c")
    case True
    then show ?thesis using 2(2) ts by (simp add: not_le)
  next
    case False
    then obtain b1 b2 where b: "batch_add D (BDelete (historyKey k B T)) batch = Inr b1"
        "batch_add D (BDelete key) b1 = Inr b2" "prune_entries D cutoff rest None b2 = Inr batch'"
      using 2(2) ts by (auto split: sum.splits)
    from 2(1) [OF _ _ _ b(1) b(2) b(3) ts(2), of "(c, historyKey k B T)"] False ts
    show ?thesis using batch_add_Inr [OF b(1)] batch_add_Inr [OF b(2)] by simp
  qed
qed

lemma takeWhile_sorted:
  "sorted_wrt (\<lambda>a b. f a \<le> f b) xs \<Longrightarrow> takeWhile (\<lambda>x. f x \<le> n) xs = filter (\<lambda>x. f x \<le> (n :: u64)) xs"
proof (induction xs)
  case (Cons a xs)
  moreover have "filter (\<lambda>x. f x \<le> n) xs = []" if "\<not> f a \<le> n"
    using Cons.prems that by (fastforce simp: filter_empty_conv)
  ultimately show ?case by simp
qed simp

lemma do_dels:
  "foldl do_op m (concat (map del_ops ts)) x =
     (if \<exists>(c, k, B, T) \<in> set ts. x = KHist k B T \<or> x = KIndex c k B T then None else m x)"
  by (induction ts arbitrary: m) (auto split: if_splits)

text \<open>Index entries of the current content that lie below a bound, and what is left without them.\<close>

definition aged :: "block list \<Rightarrow> u64 \<Rightarrow> u64 \<Rightarrow> pkey \<Rightarrow> bool" where
  "aged l old old' x \<longleftrightarrow>
     (\<exists>c k B T. content l old (KIndex c k B T) \<noteq> None \<and> c < old' \<and> (x = KHist k B T \<or> x = KIndex c k B T))"

lemma content_step:
  assumes ok: "ledger_ok (l @ [b])" and old: "old \<le> old'" "old' \<le> bk_number b"
    and x: "x \<noteq> KMetaBlock" "x \<noteq> KMetaOldest"
  shows "(if aged l old old' x then None
          else overlay (staged (ledger_updates l) (bk_number b) [] (block_updates b)) (content l old) x) =
         content (l @ [b]) old' x"
proof (cases x)
  case (KData k)
  have "spec_data (ledger_updates l @ block_updates b) k = spec_data (ledger_updates l) k"
    if "writes_to k (block_updates b) = []" using that by (simp add: spec_data_def)
  then show ?thesis
    by (auto simp: KData aged_def overlay_def spec_data_eq_None split: option.splits)
next
  case (KHist k B T)
  have ag: "aged l old old' x \<longleftrightarrow> (\<exists>c vv. hist l k B T = Some (c, vv) \<and> old \<le> c \<and> c < old')"
    by (auto simp: aged_def KHist split: option.splits if_splits)
  show ?thesis
  proof (cases "hist l k B T")
    case None
    then show ?thesis
      using ag old by (auto simp: KHist overlay_def hist_snoc [OF ok] writes_key_def split: option.splits)
  next
    case (Some cv)
    then have "spec_data (ledger_updates l) k = Some vv \<Longrightarrow> vv_block vv \<noteq> B" for vv
      using hist_current [of l k vv T] ok by (auto simp: ledger_ok_snoc)
    then show ?thesis
      using ag old Some by (cases cv) (auto simp: KHist overlay_def hist_snoc [OF ok] split: option.splits)
  qed
next
  case (KIndex c k B T)
  have ag: "aged l old old' x \<longleftrightarrow> (\<exists>vv. hist l k B T = Some (c, vv) \<and> old \<le> c \<and> c < old')"
    by (auto simp: aged_def KIndex split: option.splits if_splits)
  show ?thesis
  proof (cases "hist l k B T")
    case None
    then show ?thesis
      using ag old by (auto simp: KIndex overlay_def hist_snoc [OF ok] writes_key_def split: option.splits)
  next
    case (Some cv)
    then have "spec_data (ledger_updates l) k = Some vv \<Longrightarrow> vv_block vv \<noteq> B" for vv
      using hist_current [of l k vv T] ok by (auto simp: ledger_ok_snoc)
    then show ?thesis
      using ag old Some by (cases cv) (auto simp: KIndex overlay_def hist_snoc [OF ok] split: option.splits)
  qed
qed (use x in simp_all)

section \<open>The invariant\<close>

definition ok_update :: "kv_update \<Rightarrow> bool" where
  "ok_update u \<longleftrightarrow> length (ku_key u) < 2 ^ 32 \<and> length (ku_txid u) < 2 ^ 32 \<and> glen (ku_value u) < 2 ^ 32"

text \<open>
  Blocks the store can represent: key, transaction id and value lengths below \<open>2 ^ 32\<close>, and a block 0 (the
  configuration block) that writes no state.
\<close>

definition pb_block :: "block \<Rightarrow> bool" where
  "pb_block b \<longleftrightarrow> list_all ok_update (block_updates b) \<and> (bk_number b = 0 \<longrightarrow> block_updates b = [])"

definition pb_rel :: "('db \<Rightarrow> bytes \<rightharpoonup> bytes) \<Rightarrow> 'db pebblekvs \<Rightarrow> block list \<Rightarrow> bool" where
  "pb_rel view p l \<longleftrightarrow>
     ledger_ok l \<and> list_all pb_block l \<and>
     pk_currentBlock p = ledger_height l \<and> pk_hasCheckpoint p = (l \<noteq> []) \<and>
     (\<forall>x. view (pk_db p) (enc_key x) = content l (pk_oldestRetained p) x) \<and>
     (\<forall>z. z \<notin> range enc_key \<longrightarrow> view (pk_db p) z = None) \<and>
     pk_oldestRetained p \<le> ledger_height l \<and> 0 < pk_historySize p \<and> unat (pk_historySize p) < 2 ^ 63 \<and>
     (\<forall>bn \<in> fst ` set (pk_openReaders p). unat (pk_oldestRetained p) \<le> unat bn + 1)"

lemmas pb_relD = pb_rel_def [THEN iffD1]

lemma length_AppendUvarint: "v < 128 ^ n \<Longrightarrow> 0 < n \<Longrightarrow> length (AppendUvarint v) \<le> n"
proof (induction n arbitrary: v)
  case 0
  then show ?case by simp
next
  case (Suc n)
  show ?case
  proof (cases "v < 128")
    case True
    then show ?thesis by (simp add: AppendUvarint.simps [of v])
  next
    case False
    with Suc.prems(1) have "0 < n" by (cases n) simp_all
    moreover have "v div 128 < 128 ^ n" using Suc.prems(1) by (simp add: less_mult_imp_div_less mult.commute)
    ultimately show ?thesis using Suc.IH False by (simp add: AppendUvarint.simps [of v])
  qed
qed

lemma encodeRecord_small:
  assumes "length (vv_txid vv) < 2 ^ 32" and "glen (vv_value vv) < 2 ^ 32"
  shows "length (encodeRecord vv) < 2 ^ 63"
proof -
  have v: "length (AppendUvarint n) \<le> 10" if "n < 2 ^ 64" for n
    by (rule length_AppendUvarint) (use that in simp_all)
  have u: "unat (w :: u64) < 2 ^ 64" for w using unsigned_less [of w] by simp
  have "length (case vv_value vv of None \<Rightarrow> [] | Some v \<Rightarrow> AppendUvarint (length v) @ v) \<le> 10 + 2 ^ 32"
    using assms(2) v [of "glen (vv_value vv)"] by (auto simp: glen_def split: option.splits)
  moreover have "length (AppendUvarint (length (vv_txid vv))) \<le> 10" using assms(1) by (intro v) simp
  ultimately show ?thesis
    using v [OF u [of "vv_block vv"]] v [OF u [of "vv_tx vv"]] v [OF u [of "vv_version vv"]] assms(1)
    by (simp add: encodeRecord_def)
qed

lemma pb_fits: "list_all pb_block l \<Longrightarrow> fits (spec_data (ledger_updates l))"
proof (unfold fits_def, intro allI impI)
  fix k vv
  assume l: "list_all pb_block l" and vv: "spec_data (ledger_updates l) k = Some vv"
  then have ne: "writes_to k (ledger_updates l) \<noteq> []" using spec_data_eq_None [of "ledger_updates l" k] by auto
  then have "last (writes_to k (ledger_updates l)) \<in> set (ledger_updates l)"
    using last_in_set [OF ne] by (auto simp: writes_to_def)
  then have u: "ok_update (last (writes_to k (ledger_updates l)))"
    using l by (auto simp: ledger_updates_def pb_block_def list_all_iff)
  have "vv = version_at (last (writes_to k (ledger_updates l))) (length (writes_to k (ledger_updates l)) - 1)"
    using vv spec_data_Some [OF ne] by simp
  with u show "length (encodeRecord vv) < 2 ^ 63"
    by (intro encodeRecord_small) (simp_all add: version_at_def ok_update_def)
qed

section \<open>The index scan\<close>

lemma index_scan:
  assumes db: "ordered_db D view" and rel: "pb_rel view p l"
  shows "\<exists>es ts. db_iter D (pk_db p) [prefixIndex] [] = (es, None) \<and>
    map fst es = map (enc_key \<circ> index_key) ts \<and> sorted_wrt (\<lambda>a b. fst a \<le> fst b) ts \<and>
    set ts = {t. content l (pk_oldestRetained p) (index_key t) \<noteq> None}"
proof -
  obtain es where es: "db_iter D (pk_db p) [prefixIndex] [] = (es, None)" "sorted_wrt (<) (map fst es)"
    "set es = {(k, v). view (pk_db p) k = Some v \<and> Sublist.prefix [prefixIndex] k \<and> [prefixIndex] @ [] \<le> k}"
    using db unfolding ordered_db_def by blast
  have keys: "view (pk_db p) (enc_key x) = content l (pk_oldestRetained p) x"
    "z \<notin> range enc_key \<Longrightarrow> view (pk_db p) z = None" for x z
    using pb_relD [OF rel] by auto
  have fst: "fst ` set es = (enc_key \<circ> index_key) ` {t. content l (pk_oldestRetained p) (index_key t) \<noteq> None}"
  proof (intro equalityI subsetI)
    fix z assume "z \<in> fst ` set es"
    then obtain v where z: "view (pk_db p) z = Some v" "Sublist.prefix [prefixIndex] z" by (auto simp: es(3))
    then obtain x where x: "z = enc_key x" using keys(2) by fastforce
    have "kind x = prefixIndex" using z(2) hd_enc_key [of x] unfolding x by (cases "enc_key x") auto
    then obtain c k B T where e: "x = KIndex c k B T"
      by (cases x) (simp_all add: prefix_defs)
    have "content l (pk_oldestRetained p) x = Some v" using z(1) keys(1) [of x] x by simp
    with x e show "z \<in> (enc_key \<circ> index_key) ` {t. content l (pk_oldestRetained p) (index_key t) \<noteq> None}"
      by (intro image_eqI [of _ _ "(c, k, B, T)"]) (simp_all del: content.simps)
  next
    fix z assume "z \<in> (enc_key \<circ> index_key) ` {t. content l (pk_oldestRetained p) (index_key t) \<noteq> None}"
    then obtain t v where t: "z = enc_key (index_key t)" "view (pk_db p) z = Some v" using keys(1) by auto
    then have "\<exists>zs. z = prefixIndex # zs" by (cases t) (auto simp: indexKey_def)
    with t(2) show "z \<in> fst ` set es" by (force simp: es(3))
  qed
  then have "\<exists>ts. map fst es = map (enc_key \<circ> index_key) ts" unfolding ex_map_conv by auto
  then obtain ts where ts: "map fst es = map (enc_key \<circ> index_key) ts" by (rule exE)
  have "index_key s = index_key t \<Longrightarrow> s = t" for s t by (cases s; cases t) simp
  then have inj: "inj (enc_key \<circ> index_key)" by (intro injI) simp
  have "(enc_key \<circ> index_key) ` set ts = (enc_key \<circ> index_key) ` {t. content l (pk_oldestRetained p) (index_key t) \<noteq> None}"
    using fst arg_cong [OF ts, of set] by (simp add: image_comp)
  then have "set ts = {t. content l (pk_oldestRetained p) (index_key t) \<noteq> None}"
    by (simp only: inj_image_eq_iff [OF inj])
  moreover have "sorted_wrt (\<lambda>a b. fst a \<le> fst b) ts"
  proof -
    have "sorted_wrt (\<lambda>a b. enc_key (index_key a) < enc_key (index_key b)) ts"
      using es(2) unfolding ts by (simp add: sorted_wrt_map)
    moreover have "fst a \<le> fst b" if "enc_key (index_key a) < enc_key (index_key b)" for a b
      using that indexKey_less [of "fst b" "fst a"] by (cases a; cases b) (auto simp: not_less [symmetric] dest: less_asym)
    ultimately show ?thesis by (rule sorted_wrt_mono_rel [rotated])
  qed
  ultimately show ?thesis using es(1) ts by blast
qed

lemma lowestPinned_le: "bn \<in> fst ` set readers \<Longrightarrow> lowestPinnedLocked readers \<le> bn"
proof -
  let ?f = "\<lambda>lowest (bn, _ :: int). if bn < lowest then bn else lowest :: u64"
  have le: "foldl ?f m rs \<le> m" for m rs
  proof (induction rs arbitrary: m)
    case (Cons r rs)
    have "?f m r \<le> m" by (cases r) auto
    then show ?case using Cons [of "?f m r"] by simp
  qed simp
  have "bn \<in> fst ` set rs \<Longrightarrow> foldl ?f m rs \<le> bn" for m rs
  proof (induction rs arbitrary: m)
    case (Cons r rs)
    show ?case
    proof (cases "bn = fst r")
      case True
      then have "?f m r \<le> bn" by (cases r) (auto simp: not_less)
      then show ?thesis using le [of "?f m r" rs] by simp
    next
      case False
      then show ?thesis using Cons by auto
    qed
  qed simp
  then show "bn \<in> fst ` set readers \<Longrightarrow> lowestPinnedLocked readers \<le> bn"
    unfolding lowestPinnedLocked_def .
qed

lemma prune_cutoff_bounds:
  assumes "\<not> n < pk_historySize p + 1" and "unat (pk_historySize p) < 2 ^ 63" and "0 < pk_historySize p"
  shows "unat (prune_cutoff p n) + 1 < unat n"
    and "unat (prune_cutoff p n + 1) = unat (prune_cutoff p n) + 1"
    and "\<And>bn. bn \<in> fst ` set (pk_openReaders p) \<Longrightarrow> prune_cutoff p n \<le> bn"
proof -
  define h where "h = pk_historySize p"
  have h1: "unat (h + 1) = unat h + 1"
    using assms(2) unat_word_ariths(1) [of h 1] by (simp add: h_def)
  then have n: "unat h + 1 \<le> unat n" using assms(1) by (simp add: h_def word_less_nat_alt)
  have "n - h - 1 = n - (h + 1)" by simp
  moreover have "h + 1 \<le> n" using n h1 by (simp add: word_le_nat_alt)
  ultimately have c: "unat (n - h - 1) = unat n - (unat h + 1)" using unat_sub [of "h + 1" n] h1 by metis
  have h0: "0 < unat h" using assms(3) by (simp add: h_def word_less_nat_alt)
  have le: "prune_cutoff p n \<le> n - h - 1"
    unfolding prune_cutoff_def h_def Let_def by (auto intro: less_imp_le)
  then show lt: "unat (prune_cutoff p n) + 1 < unat n" using c n h0 by (simp add: word_le_nat_alt)
  show "unat (prune_cutoff p n + 1) = unat (prune_cutoff p n) + 1"
    using lt unat_u64 [of n] unat_word_ariths(1) [of "prune_cutoff p n" 1] by simp
  show "prune_cutoff p n \<le> bn" if "bn \<in> fst ` set (pk_openReaders p)" for bn
    using lowestPinned_le [OF that] unfolding prune_cutoff_def Let_def by auto
qed

section \<open>Commit keeps the invariant\<close>

definition new_oldest :: "'db pebblekvs \<Rightarrow> u64 \<Rightarrow> u64" where
  "new_oldest p oldest = (if 0 < oldest then oldest else pk_oldestRetained p)"

lemma aged_empty: "old' \<le> old \<Longrightarrow> \<not> aged l old old' x"
  by (auto simp: aged_def split: option.splits if_splits)

lemma do_dels_aged:
  assumes "set ts = {t. content l old (index_key t) \<noteq> None}" and "unat (cutoff + 1) = unat cutoff + 1"
  shows "foldl do_op m (concat (map del_ops (filter (\<lambda>t. fst t \<le> cutoff) ts))) x =
     (if aged l old (cutoff + 1) x then None else m x)"
proof -
  have lt: "c < cutoff + 1 \<longleftrightarrow> c \<le> cutoff" for c
    using assms(2) by (simp add: word_less_nat_alt word_le_nat_alt less_Suc_eq_le)
  have "(\<exists>(c, k, B, T) \<in> set (filter (\<lambda>t. fst t \<le> cutoff) ts). x = KHist k B T \<or> x = KIndex c k B T)
      \<longleftrightarrow> aged l old (cutoff + 1) x"
    unfolding aged_def lt by (fastforce simp: assms(1) simp del: content.simps)
  then show ?thesis unfolding do_dels by simp
qed

lemma pruneLocked_spec:
  assumes db: "ordered_db D view" and rel: "pb_rel view p l"
    and n: "ledger_height l \<le> n" and pr: "pruneLocked D p n batch = Inr (oldest, batch')"
  shows "pk_oldestRetained p \<le> new_oldest p oldest \<and> new_oldest p oldest \<le> n \<and>
    (\<forall>bn \<in> fst ` set (pk_openReaders p). unat (new_oldest p oldest) \<le> unat bn + 1) \<and>
    (\<exists>xs. batch' = batch @ map enc_op xs \<and>
      (\<forall>m x. foldl do_op m xs x =
         (if x = KMetaOldest \<and> 0 < oldest then Some (u64be oldest)
          else if aged l (pk_oldestRetained p) (new_oldest p oldest) x then None else m x)))"
proof (cases "n < pk_historySize p + 1")
  case True
  then have "oldest = 0" "batch' = batch" using pr by (auto simp: pruneLocked_def)
  then show ?thesis
    using pb_relD [OF rel] n by (auto simp: new_oldest_def aged_empty intro!: exI [of _ "[]"])
next
  case False
  let ?c = "prune_cutoff p n"
  have h: "unat (pk_historySize p) < 2 ^ 63" "0 < pk_historySize p"
    and old: "pk_oldestRetained p \<le> n" "\<forall>bn \<in> fst ` set (pk_openReaders p). unat (pk_oldestRetained p) \<le> unat bn + 1"
    using pb_relD [OF rel] n by auto
  note c = prune_cutoff_bounds [OF False h]
  obtain es ts where es: "db_iter D (pk_db p) [prefixIndex] [] = (es, None)"
      "map fst es = map (enc_key \<circ> index_key) ts" "sorted_wrt (\<lambda>a b. fst a \<le> fst b) ts"
      "set ts = {t. content l (pk_oldestRetained p) (index_key t) \<noteq> None}"
    using index_scan [OF db rel] by blast
  obtain b1 where b1: "prune_entries D ?c es None batch = Inr b1"
    and rest: "(if ?c + 1 \<le> pk_oldestRetained p then Inr (0, b1)
       else map_sum id (Pair (?c + 1)) (batch_add D (BPut metaOldestKey (u64be (?c + 1))) b1)) = Inr (oldest, batch')"
    using pr False es(1) by (auto simp: pruneLocked_def Let_def split: sum.splits)
  let ?xs = "concat (map del_ops (filter (\<lambda>t. fst t \<le> ?c) ts))"
  have b1': "b1 = batch @ map enc_op ?xs"
    using prune_entries_spec [OF b1 es(2)] takeWhile_sorted [OF es(3)] by simp
  note dels = do_dels_aged [OF es(4) c(2)]
  have pos: "0 < ?c + 1" using c(2) by (simp add: word_less_nat_alt)
  show ?thesis
  proof (cases "?c + 1 \<le> pk_oldestRetained p")
    case True
    then have "oldest = 0" "batch' = b1" using rest by auto
    then show ?thesis
      using True old b1' aged_empty [OF True] aged_empty [of "pk_oldestRetained p" "pk_oldestRetained p"]
      by (auto simp: new_oldest_def dels intro!: exI [of _ ?xs])
  next
    case False
    then have o: "oldest = ?c + 1" and b': "batch' = b1 @ [BPut metaOldestKey (u64be oldest)]"
      using rest by (auto simp: map_sum_def split: sum.splits dest: batch_add_Inr)
    have "unat oldest \<le> unat bn + 1" if "bn \<in> fst ` set (pk_openReaders p)" for bn
      using c(2) c(3) [OF that] o by (simp add: word_le_nat_alt)
    moreover have "oldest \<le> n" using c(1,2) o by (simp add: word_le_nat_alt)
    moreover have "batch' = batch @ map enc_op (?xs @ [Put KMetaOldest (u64be oldest)])" using b1' b' by simp
    ultimately show ?thesis
      using False pos o by (auto simp: new_oldest_def dels intro!: exI [of _ "?xs @ [Put KMetaOldest (u64be oldest)]"])
  qed
qed

lemma commit_steps:
  assumes "Pebble_Handle D p b = Inr p'" and "\<not> (pk_hasCheckpoint p \<and> bk_number b \<le> pk_currentBlock p)"
  shows "\<exists>b1 b2 b3 oldest db'.
    stage_updates D (pk_db p) (bk_number b) (block_updates b) Map.empty [] = Inr b1 \<and>
    pruneLocked D p (bk_number b) b1 = Inr (oldest, b2) \<and>
    batch_add D (BPut metaBlockKey (u64be (bk_number b))) b2 = Inr b3 \<and> db_write D (pk_db p) b3 = Inr db' \<and>
    p' = p\<lparr>pk_db := db', pk_currentBlock := bk_number b, pk_hasCheckpoint := True, pk_oldestRetained := new_oldest p oldest\<rparr>"
  using assms(1) unfolding Pebble_Handle_def commitBlock_def if_not_P [OF assms(2)] new_oldest_def [symmetric]
  by (auto split: sum.splits)

lemma commit_new:
  assumes db: "ordered_db D view" and rel: "pb_rel view p l" and new: "l = [] \<or> ledger_height l < bk_number b"
    and ok: "pb_block b" and p': "Pebble_Handle D p b = Inr p'"
  shows "pb_rel view p' (l @ [b])"
proof -
  let ?U = "ledger_updates l" and ?n = "bk_number b" and ?old = "pk_oldestRetained p"
  have R: "ledger_ok l" "list_all pb_block l" "pk_currentBlock p = ledger_height l" "pk_hasCheckpoint p = (l \<noteq> [])"
    "\<forall>x. view (pk_db p) (enc_key x) = content l ?old x" "\<forall>z. z \<notin> range enc_key \<longrightarrow> view (pk_db p) z = None"
    using pb_relD [OF rel] by auto
  have get: "db_get D (pk_db p) z = Inr (view (pk_db p) z)" for z using db by (simp add: ordered_db_def)
  have n: "ledger_height l \<le> ?n" using new by (auto simp: ledger_height_def)
  have lok: "ledger_ok (l @ [b])"
    using ledger_ok_applied [OF R(1), of b] new by (auto simp: applied_def ledger_height_def split: if_splits)
  have fresh: "\<not> (pk_hasCheckpoint p \<and> ?n \<le> pk_currentBlock p)" using new R(3,4) by auto
  obtain b1 b2 b3 oldest db' where
    1: "stage_updates D (pk_db p) ?n (block_updates b) Map.empty [] = Inr b1"
    and 2: "pruneLocked D p ?n b1 = Inr (oldest, b2)"
    and 3: "batch_add D (BPut metaBlockKey (u64be ?n)) b2 = Inr b3"
    and 4: "db_write D (pk_db p) b3 = Inr db'"
    and p'': "p' = p\<lparr>pk_db := db', pk_currentBlock := ?n, pk_hasCheckpoint := True, pk_oldestRetained := new_oldest p oldest\<rparr>"
    using commit_steps [OF p' fresh] by blast
  have "db_get D (pk_db p) (dataKey k) = Inr (map_option encodeRecord (spec_data ?U k))" for k
    using get [of "dataKey k"] R(5) [rule_format, of "KData k"] by simp
  from stage_updates_spec [OF this pb_fits [OF R(2)] _ 1, of "[]"] obtain xs where
    xs: "b1 = map enc_op xs" "\<forall>m. foldl do_op m xs = overlay (staged ?U ?n [] (block_updates b)) m" by auto
  note pr = pruneLocked_spec [OF db rel n 2]
  then obtain ys where ys: "b2 = b1 @ map enc_op ys"
    "\<forall>m x. foldl do_op m ys x = (if x = KMetaOldest \<and> 0 < oldest then Some (u64be oldest)
          else if aged l ?old (new_oldest p oldest) x then None else m x)" by blast
  let ?zs = "xs @ ys @ [Put KMetaBlock (u64be ?n)]"
  have b3: "b3 = map enc_op ?zs" using batch_add_Inr [OF 3] xs(1) ys(1) by simp
  have view: "view db' = foldl apply_op (view (pk_db p)) b3" using db 4 by (simp add: ordered_db_def)
  have comp: "view (pk_db p) \<circ> enc_key = content l ?old" using R(5) by (auto simp: fun_eq_iff)
  have "view db' (enc_key x) = content (l @ [b]) (new_oldest p oldest) x" for x
  proof -
    have v: "view db' (enc_key x) = foldl do_op (content l ?old) ?zs x"
      unfolding view b3 batch_on_keys comp ..
    show ?thesis
    proof (cases "x = KMetaBlock \<or> x = KMetaOldest")
      case True
      then show ?thesis unfolding v
        by (auto simp: xs(2) ys(2) aged_def overlay_def new_oldest_def)
    next
      case False
      then show ?thesis unfolding v using content_step [OF lok, of ?old "new_oldest p oldest" x] pr
        by (auto simp: xs(2) ys(2))
    qed
  qed
  moreover have "view db' z = None" if "z \<notin> range enc_key" for z
    unfolding view b3 batch_elsewhere [OF that] using R(6) that by blast
  ultimately show ?thesis
    using pb_relD [OF rel] lok ok pr by (simp add: pb_rel_def p'')
qed

lemma Handle_old:
  assumes "pb_rel view p l" and "l \<noteq> []" and "\<not> ledger_height l < bk_number b" and "Pebble_Handle D p b = Inr p'"
  shows "p' = p"
  using assms pb_relD [OF assms(1)]
  by (auto simp: Pebble_Handle_def commitBlock_def not_less split: sum.splits if_splits)

lemma pb_Handle_rel:
  assumes "ordered_db D view" and "pb_rel view p l" and "Pebble_Handle D p b = Inr p'" and "pb_block b"
  shows "pb_rel view p' (applied l b)"
proof (cases "l = [] \<or> ledger_height l < bk_number b")
  case True
  with commit_new [OF assms(1,2) _ assms(4,3)] show ?thesis
    by (auto simp: applied_def ledger_height_def split: if_splits)
next
  case False
  with Handle_old [OF assms(2) _ _ assms(3)] have "p' = p" "applied l b = l"
    by (auto simp: applied_def ledger_height_def)
  with assms(2) show ?thesis by simp
qed

section \<open>Reading at a height\<close>

lemma retained_entry:
  assumes ok: "ledger_ok l" and old: "unat old \<le> unat bn + 1"
    and cur: "b \<in> set l" "bn < bk_number b" "writes_key k b"
    and vv: "spec_data (ledger_updates (upto_block (Some bn) l)) k = Some vv"
  shows "vv_block vv \<le> bn \<and> content l old (KHist k (vv_block vv) (vv_tx vv)) = Some (encodeRecord vv) \<and>
    spec_data (ledger_updates (upto_block (Some (vv_block vv)) l)) k = Some vv"
proof -
  let ?u = "upto_block (Some bn) l" and ?B = "vv_block vv"
  have uok: "ledger_ok ?u" using ok by (simp add: upto_block_def ledger_ok_def sorted_wrt_filter)
  have w: "\<exists>a \<in> set l. bk_number a = ?B \<and> bk_number a \<le> bn" "\<And>a. a \<in> set l \<Longrightarrow> bk_number a \<le> bn \<Longrightarrow> writes_key k a \<Longrightarrow> bk_number a \<le> ?B"
    using spec_data_writer [OF uok vv] by (auto simp: upto_block_def)
  then have B: "?B \<le> bn" by auto
  have "upto_block (Some ?B) ?u = upto_block (Some ?B) l"
    using B by (auto simp: upto_block_def intro!: filter_cong)
  then have r: "spec_data (ledger_updates (upto_block (Some ?B) l)) k = Some vv"
    using upto_no_writer [of ?u ?B k] w(2) vv by (auto simp: upto_block_def not_less [symmetric])
  have "superseded_at l k ?B \<noteq> None"
    using cur B by (auto simp: superseded_None intro: le_less_trans)
  then obtain c where c: "superseded_at l k ?B = Some c" by blast
  then obtain a where a: "a \<in> set l" "bk_number a = c" "writes_key k a" "?B < c"
    using superseded_Some [OF ok c] by blast
  then have "bn < c" using w(2) [of a] by (meson leD not_le)
  then have "old \<le> c" using old by (simp add: word_le_nat_alt word_less_nat_alt)
  then show ?thesis using B r c by (simp add: hist_def)
qed

lemma entry_writer:
  assumes ok: "ledger_ok l" and "content l old (KHist k B T) = Some v"
  shows "\<exists>vv. spec_data (ledger_updates (upto_block (Some B) l)) k = Some vv \<and> vv_block vv = B \<and> vv_tx vv = T \<and>
     (\<exists>a \<in> set l. bk_number a = B \<and> writes_key k a)"
proof -
  obtain vv where vv: "spec_data (ledger_updates (upto_block (Some B) l)) k = Some vv" "vv_block vv = B" "vv_tx vv = T"
    using assms(2) by (auto simp: hist_def split: option.splits if_splits)
  have "ledger_ok (upto_block (Some B) l)" using ok by (simp add: upto_block_def ledger_ok_def sorted_wrt_filter)
  from spec_data_writer [OF this vv(1)] vv show ?thesis by (auto simp: upto_block_def)
qed

lemma prefix_le: "xs \<le> xs @ (ys :: bytes)"
  by (induction xs) simp_all

lemma history_start:
  "historyPrefix k @ u64be (NOT bn) \<le> historyKey k B T \<longleftrightarrow> B \<le> bn"
proof -
  have "historyKey k B T < historyPrefix k @ u64be (NOT bn) \<longleftrightarrow> bn < B"
    using lex_append [of "u64be (NOT B)" "u64be (NOT bn)" "u64be (NOT T)" "[]"] not_less_iff [of B bn]
    by (simp add: historyKey_def lex_append)
  then show ?thesis by (simp add: not_less [symmetric])
qed

lemma pb_key_length: "list_all pb_block l \<Longrightarrow> a \<in> set l \<Longrightarrow> writes_key k a \<Longrightarrow> length k < 2 ^ 32"
proof -
  assume l: "list_all pb_block l" "a \<in> set l" "writes_key k a"
  then obtain u where "u \<in> set (block_updates a)" "ku_key u = k"
    by (auto simp: writes_key_def writes_to_def filter_empty_conv)
  then show ?thesis using l by (auto simp: list_all_iff pb_block_def ok_update_def)
qed

lemma history_scan:
  assumes db: "ordered_db D view" and rel: "pb_rel view p l"
  shows "\<exists>es. db_iter D (pk_db p) (historyPrefix k) (u64be (NOT bn)) = (es, None) \<and> sorted_wrt (<) (map fst es) \<and>
    set es = {(historyKey k B T, v) | B T v. content l (pk_oldestRetained p) (KHist k B T) = Some v \<and> B \<le> bn}"
proof -
  obtain es where es: "db_iter D (pk_db p) (historyPrefix k) (u64be (NOT bn)) = (es, None)" "sorted_wrt (<) (map fst es)"
    "set es = {(z, v). view (pk_db p) z = Some v \<and> Sublist.prefix (historyPrefix k) z \<and> historyPrefix k @ u64be (NOT bn) \<le> z}"
    using db unfolding ordered_db_def by blast
  have R: "ledger_ok l" "list_all pb_block l" "\<forall>x. view (pk_db p) (enc_key x) = content l (pk_oldestRetained p) x"
    "\<forall>z. z \<notin> range enc_key \<longrightarrow> view (pk_db p) z = None" using pb_relD [OF rel] by auto
  have parse: "\<exists>B T. z = historyKey k B T" if z: "view (pk_db p) z = Some v" "Sublist.prefix (historyPrefix k) z" for z v
  proof -
    obtain x where x: "z = enc_key x" using z(1) R(4) by fastforce
    have "hd z = prefixHistory" using z(2) by (auto simp: prefix_def historyPrefix_def keyForState_def)
    then have "kind x = prefixHistory" using hd_enc_key [of x] x by simp
    then obtain k' B T where h: "x = KHist k' B T" by (cases x) (simp_all add: prefix_defs)
    then have "content l (pk_oldestRetained p) (KHist k' B T) = Some v"
      using z(1) R(3) [rule_format, of "KHist k' B T"] x by (simp del: content.simps)
    then obtain a where "a \<in> set l" "writes_key k' a" using entry_writer [OF R(1)] by blast
    then have "length k' < 2 ^ 32" using pb_key_length [OF R(2)] by blast
    with historyPrefix_prefix [of k' k B T] z(2) x h show ?thesis by auto
  qed
  have v: "view (pk_db p) (historyKey k B T) = content l (pk_oldestRetained p) (KHist k B T)" for B T
    using R(3) [rule_format, of "KHist k B T"] by (simp del: content.simps)
  have pre: "Sublist.prefix (historyPrefix k) (historyKey k B T)" for B T by (simp add: historyKey_def)
  have "set es = {(historyKey k B T, v) | B T v. content l (pk_oldestRetained p) (KHist k B T) = Some v \<and> B \<le> bn}"
    (is "_ = ?S")
  proof (intro equalityI subsetI)
    fix e assume "e \<in> set es"
    then obtain z w where e: "e = (z, w)" "view (pk_db p) z = Some w" "Sublist.prefix (historyPrefix k) z"
      "historyPrefix k @ u64be (NOT bn) \<le> z" unfolding es(3) by blast
    then obtain B T where "z = historyKey k B T" using parse by blast
    with e v history_start show "e \<in> ?S" by (auto simp del: content.simps)
  next
    fix e assume "e \<in> ?S"
    with v pre history_start show "e \<in> set es" unfolding es(3) by (auto simp del: content.simps)
  qed
  with es(1,2) show ?thesis by blast
qed

text \<open>When the current record is newer than the height, the scan starts at the record of the height.\<close>

lemma first_entry:
  assumes ok: "ledger_ok l" and old: "unat old \<le> unat bn + 1"
    and at: "spec_data (ledger_updates (upto_block (Some bn) l)) k = Some vv"
    and newer: "\<not> (\<exists>r. spec_data (ledger_updates l) k = Some r \<and> vv_block r \<le> bn)"
    and es: "sorted_wrt (<) (map fst es)"
      "set es = {(historyKey k B T, v) | B T v. content l old (KHist k B T) = Some v \<and> B \<le> bn}"
  shows "\<exists>rest. es = (historyKey k (vv_block vv) (vv_tx vv), encodeRecord vv) # rest"
proof -
  let ?u = "upto_block (Some bn) l" and ?h = "historyKey k (vv_block vv) (vv_tx vv)"
  have uok: "ledger_ok ?u" using ok by (simp add: upto_block_def ledger_ok_def sorted_wrt_filter)
  have last: "a \<in> set l \<Longrightarrow> bk_number a \<le> bn \<Longrightarrow> writes_key k a \<Longrightarrow> bk_number a \<le> vv_block vv" for a
    using spec_data_writer [OF uok at] by (auto simp: upto_block_def)
  have "spec_data (ledger_updates l) k \<noteq> None"
    using at spec_data_none [of ?u k] spec_data_none [of l k] by (auto simp: upto_block_def)
  then obtain r where r: "spec_data (ledger_updates l) k = Some r" "bn < vv_block r" using newer by (auto simp: not_le)
  then obtain b where b: "b \<in> set l" "bn < bk_number b" "writes_key k b" using spec_data_writer [OF ok r(1)] by auto
  note entry = retained_entry [OF ok old b at]
  then have mem: "(?h, encodeRecord vv) \<in> set es" unfolding es(2) by blast
  have least: "?h \<le> fst e" if e_in: "e \<in> set es" for e
  proof -
    obtain B T v where e: "fst e = historyKey k B T" "content l old (KHist k B T) = Some v" "B \<le> bn"
      using e_in unfolding es(2) by (auto simp del: content.simps)
    then obtain w a where w: "spec_data (ledger_updates (upto_block (Some B) l)) k = Some w" "vv_block w = B" "vv_tx w = T"
      "a \<in> set l" "bk_number a = B" "writes_key k a" using entry_writer [OF ok e(2)] by blast
    have le: "B \<le> vv_block vv" using last [of a] w e(3) by simp
    show ?thesis
    proof (cases "B = vv_block vv")
      case True
      have "spec_data (ledger_updates (upto_block (Some (vv_block vv)) l)) k = Some vv"
        using entry by blast
      with True w show ?thesis by (simp add: e(1))
    next
      case False
      with le have "B < vv_block vv" by simp
      then have "?h < historyKey k B T" by (simp add: historyKey_less)
      then show ?thesis by (simp add: e(1))
    qed
  qed
  obtain e rest where er: "es = e # rest" using mem by (cases es) auto
  show ?thesis
  proof (cases "e = (?h, encodeRecord vv)")
    case False
    with er mem es(1) have "fst e < ?h" by force
    with least [of e] er show ?thesis by (simp add: leD)
  qed (use er in simp)
qed

lemma pebbleSnapshot_Get_spec:
  assumes db: "ordered_db D view" and rel: "pb_rel view p l"
    and old: "unat (pk_oldestRetained p) \<le> unat (ps_lastBlock s) + 1" and open': "\<not> ps_closed s"
  shows "pebbleSnapshot_Get D p s ns key = Inr (spec_get (upto_block (Some (ps_lastBlock s)) l) ns key)"
proof -
  let ?k = "fullKey ns key" and ?bn = "ps_lastBlock s"
  let ?cur = "spec_data (ledger_updates l) ?k" and ?at = "spec_data (ledger_updates (upto_block (Some ?bn) l)) ?k"
  have R: "ledger_ok l" "list_all pb_block l" "\<forall>x. view (pk_db p) (enc_key x) = content l (pk_oldestRetained p) x"
    using pb_relD [OF rel] by auto
  have get: "db_get D (pk_db p) (dataKey k) = Inr (map_option encodeRecord (spec_data (ledger_updates l) k))" for k
    using db R(3) [rule_format, of "KData k"] by (simp add: ordered_db_def)
  note cur = currentRecord_spec [OF get pb_fits [OF R(2)]]
  have rr: "(record_of '''' '''' vv)\<lparr>wr_namespace := ns, wr_key := key\<rparr> = record_of ns key vv" for vv
    by (simp add: record_of_def)
  have blk: "wr_block (record_of '''' '''' vv) = vv_block vv" for vv by (simp add: record_of_def)
  show ?thesis
  proof (cases "\<exists>vv. ?cur = Some vv \<and> vv_block vv \<le> ?bn")
    case True
    then obtain vv where vv: "?cur = Some vv" "vv_block vv \<le> ?bn" by blast
    have "?at = ?cur"
      using spec_data_writer [OF R(1) vv(1)] vv(2) by (intro upto_no_writer) (auto dest: leD order_trans)
    with vv open' show ?thesis by (simp add: pebbleSnapshot_Get_def Let_def cur rr blk spec_get_def)
  next
    case False
    obtain es where es: "db_iter D (pk_db p) (historyPrefix ?k) (u64be (NOT ?bn)) = (es, None)" "sorted_wrt (<) (map fst es)"
      "set es = {(historyKey ?k B T, v) | B T v. content l (pk_oldestRetained p) (KHist ?k B T) = Some v \<and> B \<le> ?bn}"
      using history_scan [OF db rel] by blast
    have get': "pebbleSnapshot_Get D p s ns key =
       (case es of (_, raw) # _ \<Rightarrow> (case decodeRecord raw of Inl e \<Rightarrow> Inl e
            | Inr r \<Rightarrow> Inr (Some (r\<lparr>wr_namespace := ns, wr_key := key\<rparr>)))
        | [] \<Rightarrow> Inr None)"
      using False open' by (auto simp: pebbleSnapshot_Get_def Let_def cur blk es(1) split: option.splits list.splits)
    show ?thesis
    proof (cases ?at)
      case None
      have "es = []"
      proof (rule ccontr)
        assume "es \<noteq> []"
        then obtain B T v where B: "content l (pk_oldestRetained p) (KHist ?k B T) = Some v" "B \<le> ?bn"
          using es(3) by (cases es) auto
        obtain a where "a \<in> set l" "bk_number a = B" "writes_key ?k a" using entry_writer [OF R(1) B(1)] by blast
        with None B(2) show False by (auto simp: spec_data_none upto_block_def)
      qed
      with None get' show ?thesis by (simp add: spec_get_def)
    next
      case (Some vv)
      obtain rest where "es = (historyKey ?k (vv_block vv) (vv_tx vv), encodeRecord vv) # rest"
        using first_entry [OF R(1) old Some False es(2,3)] by blast
      moreover have "length (encodeRecord vv) < 2 ^ 63"
        using Some R(2) pb_fits [of "upto_block (Some ?bn) l"] by (auto simp: fits_def upto_block_def list_all_iff)
      ultimately show ?thesis using Some get' by (simp add: decode_encode rr spec_get_def)
    qed
  qed
qed

section \<open>The store keeps the contract\<close>

text \<open>An open reader: its height is pinned, and the blocks up to it are those it was opened on.\<close>

definition pb_pinned :: "('db \<Rightarrow> bytes \<rightharpoonup> bytes) \<Rightarrow> 'db pebblekvs \<Rightarrow> pebbleSnapshot \<Rightarrow> block list \<Rightarrow> bool" where
  "pb_pinned view p s ls \<longleftrightarrow>
     \<not> ps_closed s \<and> ps_lastBlock s \<in> fst ` set (pk_openReaders p) \<and>
     (\<exists>l. pb_rel view p l \<and> ps_lastBlock s \<le> ledger_height l \<and>
        spec_data (ledger_updates ls) = spec_data (ledger_updates (upto_block (Some (ps_lastBlock s)) l)))"

lemma spec_get_eq: "spec_data (ledger_updates l) = spec_data (ledger_updates l') \<Longrightarrow> spec_get l = spec_get l'"
  by (simp add: fun_eq_iff spec_get_def)

lemma Handle_readers: "Pebble_Handle D p b = Inr p' \<Longrightarrow> pk_openReaders p' = pk_openReaders p"
  by (auto simp: Pebble_Handle_def commitBlock_def split: sum.splits if_splits)

lemma upto_applied:
  assumes "ledger_ok l" and "pb_block b" and "bn \<le> ledger_height l"
  shows "spec_data (ledger_updates (upto_block (Some bn) (applied l b))) = spec_data (ledger_updates (upto_block (Some bn) l))"
proof (cases "bn < bk_number b \<or> applied l b = l")
  case True
  then show ?thesis using upto_block_applied [OF assms(1)] by simp
next
  case False
  then have "l = []" "bk_number b \<le> bn" using assms(3) by (auto simp: applied_def ledger_height_def split: if_splits)
  then have "bk_number b = 0" using assms(3) by (simp add: ledger_height_def)
  then have "block_updates b = []" using assms(2) by (simp add: pb_block_def)
  with \<open>l = []\<close> show ?thesis by (simp add: applied_def upto_block_def ledger_updates_def)
qed

lemma NewSnapshot_Inr:
  "Pebble_NewSnapshot p q = Inr (s, p') \<longleftrightarrow>
     (let bn = (case q of Some n \<Rightarrow> min n (pk_currentBlock p) | None \<Rightarrow> pk_currentBlock p)
      in pk_oldestRetained p \<le> bn \<and> s = \<lparr>ps_lastBlock = bn, ps_closed = False\<rparr> \<and>
         p' = p\<lparr>pk_openReaders := AList.update bn (open_count (pk_openReaders p) bn + 1) (pk_openReaders p)\<rparr>)"
  by (auto simp: Pebble_NewSnapshot_def Let_def min_def not_less not_le split: option.splits)

lemma pb_NewSnapshot_rel:
  assumes rel: "pb_rel view p l" and s: "Pebble_NewSnapshot p q = Inr (s, p')"
  shows "pb_rel view p' l \<and> pb_pinned view p' s (upto_block q l)"
proof -
  let ?bn = "ps_lastBlock s"
  have h: "pk_currentBlock p = ledger_height l" "ledger_ok l" using pb_relD [OF rel] by auto
  have s': "pk_oldestRetained p \<le> ?bn" "?bn \<le> ledger_height l" "\<not> ps_closed s"
      "p' = p\<lparr>pk_openReaders := AList.update ?bn (open_count (pk_openReaders p) ?bn + 1) (pk_openReaders p)\<rparr>"
    using s h by (auto simp: NewSnapshot_Inr Let_def split: option.splits)
  have mem: "fst ` set (pk_openReaders p') = insert ?bn (fst ` set (pk_openReaders p))"
    unfolding s'(4) by (simp add: dom_update)
  have old: "unat (pk_oldestRetained p) \<le> unat ?bn + 1" using s'(1) by (simp add: word_le_nat_alt)
  have rel': "pb_rel view p' l"
    using pb_relD [OF rel] mem old unfolding pb_rel_def by (simp add: s'(4))
  have "upto_block q l = upto_block (Some ?bn) l"
  proof (cases q)
    case None
    then show ?thesis using s h upto_block_all [OF h(2), of ?bn] by (auto simp: NewSnapshot_Inr Let_def upto_block_def)
  next
    case (Some n)
    then show ?thesis
      using s h upto_block_all [OF h(2), of n] upto_block_all [OF h(2), of "ledger_height l"]
      by (cases "n \<le> ledger_height l") (auto simp: NewSnapshot_Inr Let_def min_def)
  qed
  then show ?thesis using rel' mem s'(2,3) by (auto simp: pb_pinned_def)
qed

lemma NewSnapshot_latest: "pb_rel view p l \<Longrightarrow> \<exists>s p'. Pebble_NewSnapshot p None = Inr (s, p')"
  using pb_relD [of view p l] by (simp add: NewSnapshot_Inr Let_def)

lemma pinned_read:
  assumes db: "ordered_db D view" and "pb_pinned view p s ls"
  shows "pebbleSnapshot_Get D p s ns key = Inr (spec_get ls ns key)"
proof -
  obtain l where l: "pb_rel view p l" "\<not> ps_closed s" "ps_lastBlock s \<in> fst ` set (pk_openReaders p)"
    "spec_data (ledger_updates ls) = spec_data (ledger_updates (upto_block (Some (ps_lastBlock s)) l))"
    using assms(2) by (auto simp: pb_pinned_def)
  have "unat (pk_oldestRetained p) \<le> unat (ps_lastBlock s) + 1" using pb_relD [OF l(1)] l(3) by blast
  then show ?thesis
    using pebbleSnapshot_Get_spec [OF db l(1) _ l(2)] spec_get_eq [OF l(4)] by simp
qed

lemma Handle_pinned:
  assumes db: "ordered_db D view" and "pb_pinned view p s ls" and p': "Pebble_Handle D p b = Inr p'" and b: "pb_block b"
  shows "pb_pinned view p' s ls"
proof -
  obtain l where l: "pb_rel view p l" "ps_lastBlock s \<le> ledger_height l"
    "spec_data (ledger_updates ls) = spec_data (ledger_updates (upto_block (Some (ps_lastBlock s)) l))"
    using assms(2) by (auto simp: pb_pinned_def)
  have ok: "ledger_ok l" using pb_relD [OF l(1)] by blast
  have "ledger_height l \<le> ledger_height (applied l b)" by (auto simp: applied_def ledger_height_def)
  then show ?thesis
    using assms(2) pb_Handle_rel [OF db l(1) p' b] upto_applied [OF ok b l(2)] l(2,3) Handle_readers [OF p']
    by (auto simp: pb_pinned_def intro!: exI [of _ "applied l b"])
qed

lemma pb_store:
  "ordered_db D view \<Longrightarrow>
   block_store (Pebble_Handle D) Pebble_NewSnapshot (pebbleSnapshot_Get D) Pebble_BlockNumber
     (pb_rel view) (pb_pinned view) pb_block"
  by unfold_locales
    (auto simp: pb_rel_def [THEN iffD1, THEN conjunct1] Pebble_BlockNumber_def pb_Handle_rel Handle_pinned pb_NewSnapshot_rel NewSnapshot_latest pinned_read
      dest: pb_relD)

end
