(* ===== verification/PebbleProps.thy ===== *)
theory PebbleProps
  imports PebbleInv
begin

text \<open>
  Properties of the persistent store.  \<open>mem_db\<close> is a database that satisfies \<open>ordered_db\<close>: an
  association list read in key order.  \<open>pb_step\<close> is a session with the store: blocks are handled, readers
  are opened and closed, and the process restarts on the same database, in any order.
\<close>

section \<open>An ordered database\<close>

fun mem_op :: "(bytes \<times> bytes) list \<Rightarrow> batch_op \<Rightarrow> (bytes \<times> bytes) list" where
  "mem_op db (BPut k v) = AList.update k v db"
| "mem_op db (BDelete k) = AList.delete k db"

definition mem_db :: "(bytes \<times> bytes) list \<Rightarrow> (bytes \<times> bytes) list dbi" where
  "mem_db stored = \<lparr>db_open = \<lambda>_. Inr stored, db_get = \<lambda>db k. Inr (map_of db k), db_stage = \<lambda>_ _. None,
     db_write = \<lambda>db batch. Inr (foldl mem_op db batch),
     db_iter = \<lambda>db p start.
       (sort_key fst (filter (\<lambda>e. Sublist.prefix p (fst e) \<and> p @ start \<le> fst e) (AList.clearjunk db)), None)\<rparr>"

lemma mem_db_ordered: "ordered_db (mem_db stored) map_of"
proof -
  have "map_of (foldl mem_op db batch) = foldl apply_op (map_of db) batch" for db batch
  proof (induction batch arbitrary: db)
    case (Cons x batch)
    have "map_of (mem_op db x) = apply_op (map_of db) x" by (cases x) (simp_all add: update_conv' delete_conv')
    with Cons show ?case by simp
  qed simp
  moreover have "sorted_wrt (<) (map fst (sort_key fst (filter P (AList.clearjunk db))))"
    and "set (sort_key fst (filter P (AList.clearjunk db))) = {(k, v). map_of db k = Some v \<and> P (k, v)}"
    for P :: "bytes \<times> bytes \<Rightarrow> bool" and db
  proof -
    have d: "distinct (map fst (AList.clearjunk db))" by (rule distinct_clearjunk)
    have "distinct (map fst (sort_key fst (filter P (AList.clearjunk db))))"
      using d by (auto simp: distinct_map intro: inj_on_subset)
    then show "sorted_wrt (<) (map fst (sort_key fst (filter P (AList.clearjunk db))))"
      by (simp add: strict_sorted_iff)
    have "(k, v) \<in> set (AList.clearjunk db) \<longleftrightarrow> map_of db k = Some v" for k v
      using map_of_eq_Some_iff [OF d] by (simp add: map_of_clearjunk)
    then show "set (sort_key fst (filter P (AList.clearjunk db))) = {(k, v). map_of db k = Some v \<and> P (k, v)}"
      by auto
  qed
  ultimately show ?thesis by (auto simp: ordered_db_def mem_db_def)
qed

interpretation mem: block_store "Pebble_Handle (mem_db [])" Pebble_NewSnapshot "pebbleSnapshot_Get (mem_db [])"
    Pebble_BlockNumber "pb_rel map_of" "pb_pinned map_of" pb_block
  by (rule pb_store [OF mem_db_ordered])

section \<open>Opening the store\<close>

lemma readMeta_spec:
  assumes "ordered_db D view" and "view db key = (if c then None else Some (u64be v))"
  shows "readMeta D db key = Inr (if c then (0, False) else (v, True))"
  using assms by (auto simp: readMeta_def ordered_db_def)

text \<open>What \<open>NewPebbleKVS\<close> reads from a database that holds a ledger.\<close>

lemma reopen:
  assumes db: "ordered_db D view" and rel: "pb_rel view p l" and dir: "dir \<noteq> ''''" "db_open D dir = Inr (pk_db p)"
  shows "NewPebbleKVS D dir h = Inr (p\<lparr>pk_historySize := of_int (if h \<le> 0 then defaultHistorySize else h), pk_openReaders := []\<rparr>)"
proof -
  have R: "pk_currentBlock p = ledger_height l" "pk_hasCheckpoint p = (l \<noteq> [])"
    "\<forall>x. view (pk_db p) (enc_key x) = content l (pk_oldestRetained p) x"
    using pb_relD [OF rel] by auto
  have "readMeta D (pk_db p) metaBlockKey = Inr (pk_currentBlock p, pk_hasCheckpoint p)"
    using readMeta_spec [OF db, of "pk_db p" metaBlockKey "l = []" "ledger_height l"] R(1,2) R(3) [rule_format, of KMetaBlock]
    by (auto simp: ledger_height_def)
  moreover have "\<exists>f. readMeta D (pk_db p) metaOldestKey = Inr (pk_oldestRetained p, f)"
    using readMeta_spec [OF db, of "pk_db p" metaOldestKey "pk_oldestRetained p = 0" "pk_oldestRetained p"]
      R(3) [rule_format, of KMetaOldest] by auto
  ultimately show ?thesis
    using dir by (auto simp: NewPebbleKVS_def readMetaBlock_def Let_def)
qed

lemma history_size_ok:
  assumes "h < 2 ^ 63"
  shows "0 < (of_int (if h \<le> 0 then defaultHistorySize else h) :: u64) \<and>
    unat (of_int (if h \<le> 0 then defaultHistorySize else h) :: u64) = nat (if h \<le> 0 then defaultHistorySize else h)"
proof -
  have "unat (of_int i :: u64) = nat i" if i: "0 < i" "i < 2 ^ 63" for i
  proof -
    have "(of_int i :: u64) = of_nat (nat i)" using i by simp
    moreover have "nat i < 2 ^ 64" using i by (simp add: nat_less_iff)
    ultimately show ?thesis using unat_of_nat_u64 [of "nat i"] by simp
  qed
  then show ?thesis
    using assms by (auto simp: defaultHistorySize_def word_less_nat_alt)
qed

lemma reopen_rel:
  assumes "ordered_db D view" and "pb_rel view p l" and "dir \<noteq> ''''" "db_open D dir = Inr (pk_db p)" and "h < 2 ^ 63"
  shows "\<exists>p'. NewPebbleKVS D dir h = Inr p' \<and> pb_rel view p' l \<and> pk_openReaders p' = []"
proof -
  let ?h = "of_int (if h \<le> 0 then defaultHistorySize else h) :: u64"
  have "0 < ?h" "unat ?h < 2 ^ 63"
    using history_size_ok [OF assms(5)] assms(5) by (auto simp: defaultHistorySize_def nat_less_iff)
  then have "pb_rel view (p\<lparr>pk_historySize := ?h, pk_openReaders := []\<rparr>) l"
    using pb_relD [OF assms(2)] by (simp add: pb_rel_def)
  then show ?thesis using reopen [OF assms(1-4), of h] by simp
qed

lemma fresh_rel:
  assumes "ordered_db D view" and "dir \<noteq> ''''" "db_open D dir = Inr db" "view db = Map.empty" and "h < 2 ^ 63"
  shows "\<exists>p. NewPebbleKVS D dir h = Inr p \<and> pb_rel view p [] \<and> pk_openReaders p = []"
proof -
  define p0 where "p0 = \<lparr>pk_db = db, pk_historySize = 1, pk_currentBlock = 0, pk_hasCheckpoint = False,
    pk_oldestRetained = 0, pk_openReaders = []\<rparr>"
  have "content [] 0 x = None" for x
    by (cases x) (simp_all add: hist_def upto_block_def)
  then have "pb_rel view p0 []" using assms(4) by (simp add: pb_rel_def p0_def ledger_height_def)
  from reopen_rel [OF assms(1) this assms(2)] assms(3,5) show ?thesis by (simp add: p0_def)
qed

section \<open>Sessions\<close>

text \<open>
  A session state is the store, the readers that were ever opened since the last restart, each with the
  blocks it was opened on, and the ledger delivered so far.
\<close>

type_synonym 'db pb_session = "'db pebblekvs \<times> (pebbleSnapshot \<times> block list) list \<times> block list"

inductive pb_step :: "'db dbi \<Rightarrow> 'db pb_session \<Rightarrow> 'db pb_session \<Rightarrow> bool" for D where
  handle: "Pebble_Handle D p b = Inr p' \<Longrightarrow> pb_block b \<Longrightarrow> pb_step D (p, rs, l) (p', rs, applied l b)"
| open_reader: "Pebble_NewSnapshot p q = Inr (s, p') \<Longrightarrow> pb_step D (p, rs, l) (p', rs @ [(s, upto_block q l)], l)"
| close_reader: "i < length rs \<Longrightarrow> pebbleSnapshot_Close p (fst (rs ! i)) = (s', p') \<Longrightarrow>
    pb_step D (p, rs, l) (p', rs[i := (s', snd (rs ! i))], l)"
| restart: "dir \<noteq> '''' \<Longrightarrow> db_open D dir = Inr (pk_db p) \<Longrightarrow> h < 2 ^ 63 \<Longrightarrow> NewPebbleKVS D dir h = Inr p' \<Longrightarrow>
    pb_step D (p, rs, l) (p', [], l)"

inductive_cases pb_stepE: "pb_step D x y"

definition open_at :: "(pebbleSnapshot \<times> block list) list \<Rightarrow> u64 \<Rightarrow> (pebbleSnapshot \<times> block list) list" where
  "open_at rs bn = filter (\<lambda>r. \<not> ps_closed (fst r) \<and> ps_lastBlock (fst r) = bn) rs"

definition pin_of :: "nat \<Rightarrow> int option" where
  "pin_of n = (if n = 0 then None else Some (int n))"

definition pins_ok :: "(u64 \<times> int) list \<Rightarrow> (pebbleSnapshot \<times> block list) list \<Rightarrow> bool" where
  "pins_ok pins rs \<longleftrightarrow> distinct (map fst pins) \<and>
     (\<forall>bn. map_of pins bn = pin_of (length (open_at rs bn)))"

fun pb_inv :: "('db \<Rightarrow> bytes \<rightharpoonup> bytes) \<Rightarrow> 'db pb_session \<Rightarrow> bool" where
  "pb_inv view (p, rs, l) \<longleftrightarrow> pb_rel view p l \<and> pins_ok (pk_openReaders p) rs \<and>
     (\<forall>(s, ls) \<in> set rs. \<not> ps_closed s \<longrightarrow> pb_pinned view p s ls)"

lemma pins_count: "pins_ok pins rs \<Longrightarrow> open_count pins bn = int (length (open_at rs bn))"
  by (simp add: pins_ok_def open_count_def pin_of_def)

lemma pins_open:
  assumes "pins_ok pins rs" and "\<not> ps_closed s"
  shows "pins_ok (AList.update (ps_lastBlock s) (open_count pins (ps_lastBlock s) + 1) pins) (rs @ [(s, ls)])"
  using assms pins_count [OF assms(1)]
  by (auto simp: pins_ok_def distinct_update update_conv' open_at_def pin_of_def)

lemma open_at_close:
  assumes "i < length rs" and "\<not> ps_closed (fst (rs ! i))"
  shows "length (open_at (rs[i := ((fst (rs ! i))\<lparr>ps_closed := True\<rparr>, ls)]) bn) =
     length (open_at rs bn) - (if ps_lastBlock (fst (rs ! i)) = bn then 1 else 0)"
proof -
  have rs: "rs = take i rs @ rs ! i # drop (Suc i) rs" by (rule id_take_nth_drop [OF assms(1)])
  have upd: "rs[i := x] = take i rs @ x # drop (Suc i) rs" for x by (rule upd_conv_take_nth_drop [OF assms(1)])
  show ?thesis
    using assms(2) unfolding open_at_def upd by (subst (3) rs) simp
qed

lemma open_at_member: "i < length rs \<Longrightarrow> \<not> ps_closed (fst (rs ! i)) \<Longrightarrow> open_at rs (ps_lastBlock (fst (rs ! i))) \<noteq> []"
  unfolding open_at_def filter_empty_conv using nth_mem by blast

lemma pins_close:
  assumes pins: "pins_ok (pk_openReaders p) rs" and i: "i < length rs" "\<not> ps_closed (fst (rs ! i))"
  shows "pins_ok (pk_openReaders (releaseReader p (ps_lastBlock (fst (rs ! i)))))
     (rs[i := ((fst (rs ! i))\<lparr>ps_closed := True\<rparr>, ls)])"
proof -
  let ?bn = "ps_lastBlock (fst (rs ! i))" and ?rs = "rs[i := ((fst (rs ! i))\<lparr>ps_closed := True\<rparr>, ls)]"
  have len: "length (open_at ?rs bn) = length (open_at rs bn) - (if ?bn = bn then 1 else 0)" for bn
    by (rule open_at_close [OF i])
  have pos: "1 \<le> length (open_at rs ?bn)" using open_at_member [OF i] by (cases "open_at rs ?bn") simp_all
  show ?thesis
    unfolding pins_ok_def len
    using pins pins_count [OF pins, of ?bn] pos
    by (auto simp: pins_ok_def pin_of_def releaseReader_def Let_def distinct_update distinct_delete update_conv'
        delete_conv' simp del: One_nat_def)
qed

lemma pb_rel_readers:
  "pb_rel view p l \<Longrightarrow> fst ` set rs \<subseteq> fst ` set (pk_openReaders p) \<Longrightarrow> pb_rel view (p\<lparr>pk_openReaders := rs\<rparr>) l"
proof -
  assume rel: "pb_rel view p l" and sub: "fst ` set rs \<subseteq> fst ` set (pk_openReaders p)"
  have "\<forall>bn \<in> fst ` set (pk_openReaders p). unat (pk_oldestRetained p) \<le> unat bn + 1"
    using rel unfolding pb_rel_def by (elim conjE)
  with sub have "\<forall>bn \<in> fst ` set rs. unat (pk_oldestRetained p) \<le> unat bn + 1" by (meson subsetD)
  with rel show ?thesis by (simp add: pb_rel_def)
qed

lemma releaseReader_rel: "pb_rel view p l \<Longrightarrow> pb_rel view (releaseReader p bn) l"
proof -
  assume rel: "pb_rel view p l"
  have "dom (map_of (pk_openReaders (releaseReader p bn))) \<subseteq> dom (map_of (pk_openReaders p))"
    by (auto simp: releaseReader_def Let_def open_count_def update_conv' delete_conv' split: option.splits if_splits)
  then have "fst ` set (pk_openReaders (releaseReader p bn)) \<subseteq> fst ` set (pk_openReaders p)"
    by (simp add: dom_map_of_conv_image_fst)
  then show ?thesis using pb_rel_readers [OF rel] by (simp add: releaseReader_def Let_def)
qed

lemma pinned_of_count:
  assumes "pins_ok (pk_openReaders p) rs" and "(s, ls) \<in> set rs" and "\<not> ps_closed s"
  shows "ps_lastBlock s \<in> fst ` set (pk_openReaders p)"
proof -
  have "open_at rs (ps_lastBlock s) \<noteq> []" using assms(2,3) by (force simp: open_at_def filter_empty_conv)
  then have "map_of (pk_openReaders p) (ps_lastBlock s) \<noteq> None" using assms(1) by (auto simp: pins_ok_def pin_of_def)
  then show ?thesis by (simp add: map_of_eq_None_iff)
qed

text \<open>A reader stays pinned when the store changes only in its pins.\<close>

lemma pinned_transfer:
  assumes "pb_pinned view p s ls" and "\<And>l. pb_rel view p l \<Longrightarrow> pb_rel view p' l"
    and "ps_lastBlock s \<in> fst ` set (pk_openReaders p')"
  shows "pb_pinned view p' s ls"
  using assms unfolding pb_pinned_def by blast

lemma handle_inv:
  assumes db: "ordered_db D view" and "pb_inv view (p, rs, l)" and "Pebble_Handle D p b = Inr p'" and "pb_block b"
  shows "pb_inv view (p', rs, applied l b)"
  using assms(2) pb_Handle_rel [OF db _ assms(3,4), of l] Handle_pinned [OF db _ assms(3,4)] Handle_readers [OF assms(3)]
  by (auto split: prod.splits)

lemma open_inv:
  assumes inv: "pb_inv view (p, rs, l)" and op: "Pebble_NewSnapshot p q = Inr (s, p')"
  shows "pb_inv view (p', rs @ [(s, upto_block q l)], l)"
proof -
  have inv': "pb_rel view p l" "pins_ok (pk_openReaders p) rs" "\<forall>(s, ls) \<in> set rs. \<not> ps_closed s \<longrightarrow> pb_pinned view p s ls"
    using inv by auto
  note new = pb_NewSnapshot_rel [OF inv'(1) op]
  have p': "p' = p\<lparr>pk_openReaders := AList.update (ps_lastBlock s) (open_count (pk_openReaders p) (ps_lastBlock s) + 1) (pk_openReaders p)\<rparr>"
      "\<not> ps_closed s" "pk_oldestRetained p \<le> ps_lastBlock s"
    using op by (auto simp: NewSnapshot_Inr Let_def)
  have pins: "pins_ok (pk_openReaders p') (rs @ [(s, upto_block q l)])"
    using pins_open [OF inv'(2) p'(2)] p'(1) by simp
  have keep: "pb_rel view p k \<Longrightarrow> pb_rel view p' k" for k
    unfolding pb_rel_def using p'(3) by (auto simp: p'(1) dom_update word_le_nat_alt)
  have "pb_pinned view p' s' ls" if r: "(s', ls) \<in> set rs" "\<not> ps_closed s'" for s' ls
  proof -
    have "pb_pinned view p s' ls" using inv'(3) r by blast
    then show ?thesis by (rule pinned_transfer [OF _ keep pinned_of_count [OF pins, of _ ls]]) (use r in simp_all)
  qed
  with new pins show ?thesis by auto
qed

lemma close_inv:
  assumes inv: "pb_inv view (p, rs, l)" and i: "i < length rs"
    and cl: "pebbleSnapshot_Close p (fst (rs ! i)) = (s', p')"
  shows "pb_inv view (p', rs[i := (s', snd (rs ! i))], l)"
proof (cases "ps_closed (fst (rs ! i))")
  case True
  then have "s' = fst (rs ! i)" "p' = p" using cl by (auto simp: pebbleSnapshot_Close_def)
  then show ?thesis using inv by simp
next
  case False
  have inv': "pb_rel view p l" "pins_ok (pk_openReaders p) rs" "\<forall>(s, ls) \<in> set rs. \<not> ps_closed s \<longrightarrow> pb_pinned view p s ls"
    using inv by auto
  have s': "s' = (fst (rs ! i))\<lparr>ps_closed := True\<rparr>" "p' = releaseReader p (ps_lastBlock (fst (rs ! i)))"
    using cl False by (auto simp: pebbleSnapshot_Close_def)
  have pins: "pins_ok (pk_openReaders p') (rs[i := (s', snd (rs ! i))])"
    using pins_close [OF inv'(2) i False] s' by simp
  have keep: "pb_rel view p k \<Longrightarrow> pb_rel view p' k" for k unfolding s'(2) by (rule releaseReader_rel)
  have "pb_pinned view p' s ls" if r: "(s, ls) \<in> set (rs[i := (s', snd (rs ! i))])" "\<not> ps_closed s" for s ls
  proof -
    have "(s, ls) \<in> set rs" using r s'(1) set_update_subset_insert [of rs i "(s', snd (rs ! i))"] by auto
    then have "pb_pinned view p s ls" using inv'(3) r(2) by blast
    then show ?thesis by (rule pinned_transfer [OF _ keep pinned_of_count [OF pins r]])
  qed
  with pins keep [OF inv'(1)] show ?thesis by auto
qed

lemma restart_inv:
  assumes db: "ordered_db D view" and inv: "pb_inv view (p, rs, l)" and dir: "dir \<noteq> ''''" "db_open D dir = Inr (pk_db p)"
    and h: "h < 2 ^ 63" and p': "NewPebbleKVS D dir h = Inr p'"
  shows "pb_inv view (p', [], l)"
proof -
  have rel: "pb_rel view p l" using inv by simp
  obtain p2 where "NewPebbleKVS D dir h = Inr p2" "pb_rel view p2 l" "pk_openReaders p2 = []"
    using reopen_rel [OF db rel dir h] by blast
  with p' show ?thesis by (simp add: pins_ok_def open_at_def pin_of_def)
qed

lemma pb_step_inv:
  assumes db: "ordered_db D view" and step: "pb_step D x y" and inv: "pb_inv view x"
  shows "pb_inv view y"
  using step inv
  by cases (auto simp del: pb_inv.simps intro: handle_inv [OF db] open_inv close_inv restart_inv [OF db])

lemma pb_steps_inv:
  assumes "ordered_db D view" and "(pb_step D)\<^sup>*\<^sup>* x y" and "pb_inv view x"
  shows "pb_inv view y"
  using assms(2,3) by induction (auto dest: pb_step_inv [OF assms(1)])

lemma fresh_inv:
  assumes "ordered_db D view" and "dir \<noteq> ''''" and "db_open D dir = Inr db" and "view db = Map.empty"
    and "h < 2 ^ 63" and "NewPebbleKVS D dir h = Inr p"
  shows "pb_inv view (p, [], [])"
  using fresh_rel [OF assms(1-5)] assms(6) by (auto simp: pins_ok_def open_at_def pin_of_def)

lemma closed_read: "ps_closed s \<Longrightarrow> pebbleSnapshot_Get D p s ns key = Inl ''reader is closed''"
  by (simp add: pebbleSnapshot_Get_def)

section \<open>Properties\<close>


text \<open>A session on \<open>mem_db\<close>: a reader at block 1 is open while block 3 supersedes its key and prunes.\<close>

definition demo_session :: "(bytes \<times> bytes) list pebblekvs" where
  "demo_session = \<lparr>pk_db = [], pk_historySize = 1, pk_currentBlock = 0, pk_hasCheckpoint = False,
     pk_oldestRetained = 0, pk_openReaders = []\<rparr>"

lemma demo_session_new: "NewPebbleKVS (mem_db []) ''d'' 1 = Inr demo_session"
  by (simp add: NewPebbleKVS_def mem_db_def readMetaBlock_def readMeta_def demo_session_def)

lemma demo_pb_block: "0 < n \<Longrightarrow> pb_block (demo_write n ''k'' (Some [v]))"
  by (simp add: pb_block_def demo_write_def block_updates_def collectWrites_def fullKey_def ok_update_def glen_def)

section \<open>Commits succeed on a database that works\<close>

definition working_db :: "'db dbi \<Rightarrow> bool" where
  "working_db D \<longleftrightarrow> (\<forall>batch x. db_stage D batch x = None) \<and> (\<forall>db batch. \<exists>db'. db_write D db batch = Inr db')"

lemma mem_db_working: "working_db (mem_db stored)"
  by (simp add: working_db_def mem_db_def)

lemma batch_add_working: "working_db D \<Longrightarrow> batch_add D x batch = Inr (batch @ [x])"
  by (simp add: working_db_def batch_add_def)

lemma stage_updates_working:
  assumes "working_db D" and "\<And>k. db_get D db (dataKey k) = Inr (map_option encodeRecord (spec_data U k))"
    and "fits (spec_data U)"
  shows "\<exists>batch'. stage_updates D db c us nv batch = Inr batch'"
proof (induction us arbitrary: nv batch)
  case (Cons u us)
  have "\<exists>v b. seed_version D db c (ku_key u) batch = Inr (v, b)"
    by (cases "spec_data U (ku_key u)")
      (simp_all add: seed_version_def currentRecord_spec [OF assms(2,3)] stageHistory_def Let_def batch_add_working [OF assms(1)])
  then show ?case
    using Cons by (auto simp: batch_add_working [OF assms(1)] split: option.splits)
qed simp

lemma prune_entries_working:
  assumes "working_db D" and "map fst es = map (enc_key \<circ> index_key) ts"
  shows "\<exists>batch'. prune_entries D cutoff es None batch = Inr batch'"
  using assms(2)
proof (induction es arbitrary: ts batch)
  case (Cons e es)
  obtain t ts' where "ts = t # ts'" using Cons.prems by (cases ts) simp_all
  with Cons.prems have "fst e = enc_key (index_key t)" "map fst es = map (enc_key \<circ> index_key) ts'" by simp_all
  with Cons.IH [of ts'] show ?case by (cases e; cases t) (simp add: batch_add_working [OF assms(1)])
qed simp

lemma Handle_working:
  assumes db: "ordered_db D view" "working_db D" and rel: "pb_rel view p l"
    and new: "l = [] \<or> ledger_height l < bk_number b"
  shows "\<exists>p'. Pebble_Handle D p b = Inr p'"
proof -
  have R: "list_all pb_block l" "pk_currentBlock p = ledger_height l" "pk_hasCheckpoint p = (l \<noteq> [])"
    "\<forall>x. view (pk_db p) (enc_key x) = content l (pk_oldestRetained p) x"
    using pb_relD [OF rel] by auto
  have "db_get D (pk_db p) (dataKey k) = Inr (map_option encodeRecord (spec_data (ledger_updates l) k))" for k
    using db(1) R(4) [rule_format, of "KData k"] by (simp add: ordered_db_def)
  from stage_updates_working [OF db(2) this pb_fits [OF R(1)]] obtain b1 where
    1: "stage_updates D (pk_db p) (bk_number b) (block_updates b) Map.empty [] = Inr b1" by blast
  obtain es ts where es: "db_iter D (pk_db p) [prefixIndex] [] = (es, None)" "map fst es = map (enc_key \<circ> index_key) ts"
    using index_scan [OF db(1) rel] by blast
  obtain b2 where "prune_entries D (prune_cutoff p (bk_number b)) es None b1 = Inr b2"
    using prune_entries_working [OF db(2) es(2)] by blast
  then have "\<exists>o' b3. pruneLocked D p (bk_number b) b1 = Inr (o', b3)"
    by (simp add: pruneLocked_def es(1) Let_def batch_add_working [OF db(2)])
  then obtain o' b3 where 2: "pruneLocked D p (bk_number b) b1 = Inr (o', b3)" by blast
  obtain db' where "db_write D (pk_db p) (b3 @ [BPut metaBlockKey (u64be (bk_number b))]) = Inr db'"
    using db(2) unfolding working_db_def by blast
  moreover have "\<not> (pk_hasCheckpoint p \<and> bk_number b \<le> pk_currentBlock p)" using new R(2,3) by auto
  ultimately show ?thesis
    unfolding Pebble_Handle_def commitBlock_def by (simp add: 1 2 batch_add_working [OF db(2)] del: de_Morgan_conj)
qed




text \<open>
  C14. New blocks are always accepted.  On a database whose writes succeed, no state a session can reach
  (whatever was pruned, pinned or restarted before) refuses a block that is newer than the tip: no stored
  record or index entry is ever found corrupt.
\<close>

theorem Pebble_accepts:
  assumes "ordered_db D view" and "working_db D" and "dir \<noteq> ''''" and "db_open D dir = Inr db" and "view db = Map.empty"
    and "h < 2 ^ 63" and "NewPebbleKVS D dir h = Inr p0" and "(pb_step D)\<^sup>*\<^sup>* (p0, [], []) (p, rs, l)"
    and "l = [] \<or> Pebble_BlockNumber p < bk_number b"
  shows "\<exists>p'. Pebble_Handle D p b = Inr p' \<and> Pebble_BlockNumber p' = bk_number b"
proof -
  have "pb_inv view (p, rs, l)"
    using pb_steps_inv [OF assms(1,8) fresh_inv [OF assms(1,3-7)]] .
  then have rel: "pb_rel view p l" by simp
  then have new: "l = [] \<or> ledger_height l < bk_number b" and fresh: "\<not> (pk_hasCheckpoint p \<and> bk_number b \<le> pk_currentBlock p)"
    using assms(9) pb_relD [OF rel] by (auto simp: Pebble_BlockNumber_def)
  obtain p' where p': "Pebble_Handle D p b = Inr p'" using Handle_working [OF assms(1,2) rel new] by blast
  then show ?thesis using commit_steps [OF p' fresh] by (auto simp: Pebble_BlockNumber_def)
qed

theorem Pebble_accepts_witness:
  "\<exists>p'. Pebble_Handle (mem_db []) demo_session (demo_write 4 ''k'' None) = Inr p' \<and> Pebble_BlockNumber p' = 4"
proof -
  have new: "''d'' \<noteq> ''''" "db_open (mem_db []) ''d'' = Inr []" "map_of ([] :: (bytes \<times> bytes) list) = Map.empty" "(1 :: int) < 2 ^ 63"
    "(pb_step (mem_db []))\<^sup>*\<^sup>* (demo_session, [], []) (demo_session, [], [])"
    by (simp_all add: mem_db_def)
  from Pebble_accepts [OF mem_db_ordered mem_db_working new(1-4) demo_session_new new(5), of "demo_write 4 ''k'' None"]
  show ?thesis by (simp add: demo_write_def)
qed

section \<open>The retained window\<close>

lemma lowestPinned_Nil: "\<not> lowestPinnedLocked [] < c"
  using unat_u64 [of c] by (simp add: lowestPinnedLocked_def not_less word_le_nat_alt)

lemma new_oldest_window:
  assumes "pk_openReaders p = []" and "pruneLocked D p n batch = Inr (oldest, batch')"
    and h: "0 < pk_historySize p" "unat (pk_historySize p) < 2 ^ 63"
    and old: "unat (pk_oldestRetained p) = unat tip - unat (pk_historySize p)" and n: "tip \<le> n"
  shows "unat (new_oldest p oldest) = unat n - unat (pk_historySize p)"
proof -
  have h1: "unat (pk_historySize p + 1) = unat (pk_historySize p) + 1"
    using h(2) unat_word_ariths(1) [of "pk_historySize p" 1] by simp
  show ?thesis
  proof (cases "n < pk_historySize p + 1")
    case True
    then have "oldest = 0" using assms(2) by (simp add: pruneLocked_def)
    then show ?thesis using True h1 old n by (simp add: new_oldest_def word_less_nat_alt word_le_nat_alt)
  next
    case False
    have "prune_cutoff p n = n - pk_historySize p - 1"
      using lowestPinned_Nil by (simp add: prune_cutoff_def assms(1))
    then have c: "prune_cutoff p n + 1 = n - pk_historySize p" by simp
    have "pk_historySize p \<le> n" using False h1 by (simp add: word_le_nat_alt word_less_nat_alt)
    then have u: "unat (n - pk_historySize p) = unat n - unat (pk_historySize p)" by (rule unat_sub)
    have pos: "0 < n - pk_historySize p" using False h1 u by (simp add: word_less_nat_alt)
    have "oldest = (if n - pk_historySize p \<le> pk_oldestRetained p then 0 else n - pk_historySize p)"
      using assms(2) False c by (auto simp: pruneLocked_def Let_def map_sum_def split: sum.splits prod.splits if_splits)
    then show ?thesis
      using u pos old n by (auto simp: new_oldest_def word_le_nat_alt word_less_nat_alt split: if_splits)
  qed
qed

lemma handle_window:
  assumes "pb_rel view p l" and "Pebble_Handle D p b = Inr p'" and "pk_openReaders p = []"
    and "unat (pk_oldestRetained p) = unat (ledger_height l) - unat (pk_historySize p)"
  shows "pk_openReaders p' = [] \<and> pk_historySize p' = pk_historySize p \<and>
    unat (pk_oldestRetained p') = unat (ledger_height (applied l b)) - unat (pk_historySize p)"
proof (cases "l = [] \<or> ledger_height l < bk_number b")
  case True
  have R: "pk_currentBlock p = ledger_height l" "pk_hasCheckpoint p = (l \<noteq> [])" "0 < pk_historySize p"
      "unat (pk_historySize p) < 2 ^ 63"
    using pb_relD [OF assms(1)] by auto
  then have "\<not> (pk_hasCheckpoint p \<and> bk_number b \<le> pk_currentBlock p)" using True by auto
  from commit_steps [OF assms(2) this] obtain b1 b2 oldest db' where
    p': "pruneLocked D p (bk_number b) b1 = Inr (oldest, b2)"
      "p' = p\<lparr>pk_db := db', pk_currentBlock := bk_number b, pk_hasCheckpoint := True, pk_oldestRetained := new_oldest p oldest\<rparr>"
    by blast
  have "ledger_height l \<le> bk_number b" "applied l b = l @ [b]" using True by (auto simp: ledger_height_def applied_def split: if_splits)
  then show ?thesis
    using new_oldest_window [OF assms(3) p'(1) R(3,4) assms(4)] p'(2) assms(3) by simp
next
  case False
  then have "p' = p" "applied l b = l" using Handle_old [OF assms(1) _ _ assms(2)] by (auto simp: applied_def ledger_height_def)
  then show ?thesis using assms by simp
qed

lemma handle_all_window:
  assumes db: "ordered_db D view"
  shows "pb_rel view p l \<Longrightarrow> handle_all (Pebble_Handle D) bs p = Inr p' \<Longrightarrow> list_all pb_block bs \<Longrightarrow> pk_openReaders p = [] \<Longrightarrow>
    unat (pk_oldestRetained p) = unat (ledger_height l) - unat (pk_historySize p) \<Longrightarrow>
    pb_rel view p' (foldl applied l bs) \<and>
    unat (pk_oldestRetained p') = unat (ledger_height (foldl applied l bs)) - unat (pk_historySize p)"
proof (induction bs arbitrary: p l)
  case (Cons b bs)
  obtain p1 where p1: "Pebble_Handle D p b = Inr p1" "handle_all (Pebble_Handle D) bs p1 = Inr p'"
    using Cons.prems(2) by (auto split: sum.splits)
  have b: "pb_block b" "list_all pb_block bs" using Cons.prems(3) by simp_all
  note w = handle_window [OF Cons.prems(1) p1(1) Cons.prems(4,5)]
  from Cons.IH [OF pb_Handle_rel [OF db Cons.prems(1) p1(1) b(1)] p1(2) b(2)] w show ?case by simp
qed simp



section \<open>Records\<close>

text \<open>
  C31. Stored bytes read back.  A record is decoded exactly as it was encoded, deletes, nil and empty
  values included, and an index key yields the block and the history key it was built from.
\<close>

theorem codec_roundtrip:
  assumes "length (encodeRecord r) < 2 ^ 63" and "h \<noteq> []"
  shows "decodeRecord (encodeRecord r) =
     Inr \<lparr>wr_namespace = '''', wr_key = '''', wr_block = vv_block r, wr_tx = vv_tx r, wr_version = vv_version r,
       wr_value = vv_value r, wr_isdelete = vv_isdelete r, wr_txid = vv_txid r\<rparr> \<and>
     parseIndexKey (indexKey c h) = Inr (c, h)"
  using decode_encode [OF assms(1)] assms(2)
  by (cases h) (simp_all add: record_of_def parseIndexKey_def indexKey_def)

theorem codec_roundtrip_witness:
  "decodeRecord (encodeRecord \<lparr>vv_value = Some [], vv_block = 300, vv_tx = 1, vv_version = 0, vv_txid = ''t'', vv_isdelete = True\<rparr>) =
     Inr \<lparr>wr_namespace = '''', wr_key = '''', wr_block = 300, wr_tx = 1, wr_version = 0, wr_value = Some [],
       wr_isdelete = True, wr_txid = ''t''\<rparr> \<and> parseIndexKey (indexKey 7 [1]) = Inr (7, [1])"
proof -
  let ?r = "\<lparr>vv_value = Some [], vv_block = 300, vv_tx = 1, vv_version = 0, vv_txid = ''t'', vv_isdelete = True\<rparr>"
  have "length (encodeRecord ?r) < 2 ^ 63" by (rule encodeRecord_small) (simp_all add: glen_def)
  from codec_roundtrip [OF this, of "[1]" 7] show ?thesis by simp
qed


end
