(* ===== verification/GwDomain.thy ===== *)
theory GwDomain
  imports FxPrelude
begin

text \<open>
  Data of the gateway (\<open>gateway/domain/models.go\<close>): blocks, transactions and logs as they are stored and
  delivered, and an Ethereum transaction as the record of what go-ethereum's accessors return for it.
  What the code asks of go-ethereum beyond accessors (recovering the sender, decoding the raw bytes) is an
  argument of the definitions that ask.
\<close>

section \<open>Ethereum transactions\<close>

record eth_tx =
  tx_hash :: hash
  tx_nonce :: u64
  tx_to :: "address option"
  tx_data :: bytes
  tx_type :: nat
  tx_protected :: bool

text \<open>\<open>common.BytesToHash\<close> and \<open>common.BytesToAddress\<close> keep the last bytes of a longer slice.\<close>

definition BytesToHash :: "bytes \<Rightarrow> hash" where
  "BytesToHash bs = of_nat (unbe bs)"

definition BytesToAddress :: "bytes \<Rightarrow> address" where
  "BytesToAddress bs = of_nat (unbe bs)"

section \<open>Domain models\<close>

record dlog =
  dl_block :: u64
  dl_blockhash :: bytes
  dl_txhash :: bytes
  dl_txindex :: int
  dl_logindex :: int
  dl_address :: bytes
  dl_topics :: "bytes list"
  dl_data :: bytes
  dl_timestamp :: int

text \<open>\<open>dt_valid\<close> is \<open>FabricTxStatus.Valid()\<close>.\<close>

record dtx =
  dt_hash :: bytes
  dt_blockhash :: bytes
  dt_block :: u64
  dt_index :: int
  dt_raw :: bytes
  dt_from :: bytes
  dt_to :: bytes
  dt_contract :: bytes
  dt_status :: u8
  dt_fabricid :: string
  dt_valid :: bool
  dt_gas :: u64
  dt_cumgas :: u64
  dt_logs :: "dlog list"

record dblock =
  db_number :: u64
  db_hash :: bytes
  db_parent :: bytes
  db_stateroot :: bytes
  db_timestamp :: int
  db_txs :: "dtx list"

record logfilter =
  lf_blockhash :: "bytes option"
  lf_from :: "u64 option"
  lf_to :: "u64 option"
  lf_addresses :: "bytes list"
  lf_topics :: "bytes list list"

definition ToEthTx :: "(bytes \<Rightarrow> eth_tx option) \<Rightarrow> dtx \<Rightarrow> eth_tx option" where
  "ToEthTx unmarshal t = unmarshal (dt_raw t)"

definition TxType :: "dtx \<Rightarrow> u8" where
  "TxType t = (case dt_raw t of [] \<Rightarrow> 0 | b # _ \<Rightarrow> if b < 0xC0 then b else 0)"

text \<open>Errors of \<open>gateway/domain/errors.go\<close> the queues return.\<close>

definition ErrTransactionAlreadyPending :: string where
  "ErrTransactionAlreadyPending = ''transaction already pending''"

definition ErrQueueClosed :: string where
  "ErrQueueClosed = ''transaction queue is closed''"

end
