(* ===== verification/TxQueueSpec.thy ===== *)
theory TxQueueSpec
  imports GwDomain
begin

text \<open>
  The contract of the gateway's transaction queues (\<open>TxQueueInterface\<close> in \<open>gateway/core/api.go\<close>), which
  \<open>TxQueue\<close>, \<open>TxQueueV2\<close> and \<open>DepGraphQueue\<close> implement.  The abstract state is the map of tracked
  transactions by hash and the set of those handed to a worker and not yet completed.  A \<open>Dequeue\<close> that
  would block is no step; \<open>Complete\<close> is called for a transaction that is running or unknown to the queue.

  \<open>q_run\<close> runs a queue on a sequence of calls and records what happened; the lemma \<open>handed_once\<close> is
  proved for every queue that keeps the contract, and \<open>strict_once\<close>, for any calls at all, for a queue whose
  \<open>Complete\<close> ignores the transactions that are not running.
\<close>

datatype q_op = QEnqueue eth_tx | QDequeue | QComplete hash

datatype q_event = Admitted hash | Refused hash | Handed hash | Idle | Done hash

fun q_run ::
    "('s \<Rightarrow> eth_tx \<Rightarrow> 's result) \<Rightarrow> ('s \<Rightarrow> (eth_tx \<times> 's) option) \<Rightarrow> ('s \<Rightarrow> hash \<Rightarrow> 's) \<Rightarrow>
     's \<Rightarrow> q_op list \<Rightarrow> q_event list \<times> 's" where
  "q_run enq deq finish s [] = ([], s)"
| "q_run enq deq finish s (QEnqueue tx # xs) =
     (case enq s tx of
        Inl _ \<Rightarrow> (let (es, s') = q_run enq deq finish s xs in (Refused (tx_hash tx) # es, s'))
      | Inr s1 \<Rightarrow> (let (es, s') = q_run enq deq finish s1 xs in (Admitted (tx_hash tx) # es, s')))"
| "q_run enq deq finish s (QDequeue # xs) =
     (case deq s of
        None \<Rightarrow> (let (es, s') = q_run enq deq finish s xs in (Idle # es, s'))
      | Some (tx, s1) \<Rightarrow> (let (es, s') = q_run enq deq finish s1 xs in (Handed (tx_hash tx) # es, s')))"
| "q_run enq deq finish s (QComplete h # xs) =
     (let (es, s') = q_run enq deq finish (finish s h) xs in (Done h # es, s'))"

text \<open>What the events so far say about a hash: tracked by the queue, and running.\<close>

fun ev_tracked :: "hash \<Rightarrow> q_event list \<Rightarrow> bool \<Rightarrow> bool" where
  "ev_tracked h [] b = b"
| "ev_tracked h (Admitted k # es) b = ev_tracked h es (b \<or> k = h)"
| "ev_tracked h (Done k # es) b = ev_tracked h es (b \<and> k \<noteq> h)"
| "ev_tracked h (_ # es) b = ev_tracked h es b"

fun ev_running :: "hash \<Rightarrow> q_event list \<Rightarrow> bool \<Rightarrow> bool" where
  "ev_running h [] b = b"
| "ev_running h (Handed k # es) b = ev_running h es (b \<or> k = h)"
| "ev_running h (Done k # es) b = ev_running h es (b \<and> k \<noteq> h)"
| "ev_running h (_ # es) b = ev_running h es b"

text \<open>Every completion in the events is of a running or an untracked transaction.\<close>

definition fair_done :: "q_event list \<Rightarrow> bool" where
  "fair_done es \<longleftrightarrow> (\<forall>as h bs. es = as @ Done h # bs \<longrightarrow> ev_running h as False \<or> \<not> ev_tracked h as False)"

lemma ev_running_append: "ev_running h (as @ bs) b = ev_running h bs (ev_running h as b)"
  by (induction h as b rule: ev_running.induct) simp_all

lemma ev_tracked_append: "ev_tracked h (as @ bs) b = ev_tracked h bs (ev_tracked h as b)"
  by (induction h as b rule: ev_tracked.induct) simp_all

lemma ev_running_stays: "b \<Longrightarrow> Done h \<notin> set es \<Longrightarrow> ev_running h es b"
  by (induction h es b rule: ev_running.induct) auto

lemma ev_tracked_new: "ev_tracked h es b \<Longrightarrow> b \<or> Admitted h \<in> set es"
  by (induction h es b rule: ev_tracked.induct) auto

locale tx_queue =
  fixes enq :: "'s \<Rightarrow> eth_tx \<Rightarrow> 's result"
    and deq :: "'s \<Rightarrow> (eth_tx \<times> 's) option"
    and finish :: "'s \<Rightarrow> hash \<Rightarrow> 's"
    and pending :: "'s \<Rightarrow> hash \<Rightarrow> eth_tx option"
    and inflight :: "'s \<Rightarrow> nat"
    and inv :: "'s \<Rightarrow> bool"
    and tracked :: "'s \<Rightarrow> hash \<rightharpoonup> eth_tx"
    and running :: "'s \<Rightarrow> hash set"
  assumes enq_law: "inv s \<Longrightarrow> enq s tx = Inr s' \<Longrightarrow>
        tracked s (tx_hash tx) = None \<and> inv s' \<and> tracked s' = (tracked s)(tx_hash tx \<mapsto> tx) \<and> running s' = running s"
    and enq_refused: "inv s \<Longrightarrow> tracked s (tx_hash tx) \<noteq> None \<Longrightarrow> \<exists>e. enq s tx = Inl e"
    and deq_law: "inv s \<Longrightarrow> deq s = Some (tx, s') \<Longrightarrow>
        inv s' \<and> tracked s' = tracked s \<and> tracked s (tx_hash tx) = Some tx \<and> tx_hash tx \<notin> running s \<and>
        running s' = insert (tx_hash tx) (running s)"
    and finish_law: "inv s \<Longrightarrow> h \<in> running s \<or> tracked s h = None \<Longrightarrow>
        inv (finish s h) \<and> tracked (finish s h) = (tracked s)(h := None) \<and> running (finish s h) = running s - {h}"
    and pending_law: "inv s \<Longrightarrow> pending s h = tracked s h"
    and inflight_law: "inv s \<Longrightarrow> inflight s = card (dom (tracked s))"
    and running_law: "inv s \<Longrightarrow> running s \<subseteq> dom (tracked s)"
begin

lemma run_state:
  assumes "inv s" and "q_run enq deq finish s xs = (es, s')"
    and "\<forall>as h bs. es = as @ Done h # bs \<longrightarrow> ev_running h as (h \<in> running s) \<or> \<not> ev_tracked h as (h \<in> dom (tracked s))"
  shows "inv s' \<and> (\<forall>h. h \<in> dom (tracked s') \<longleftrightarrow> ev_tracked h es (h \<in> dom (tracked s))) \<and>
     (\<forall>h. h \<in> running s' \<longleftrightarrow> ev_running h es (h \<in> running s)) \<and>
     (\<forall>as h bs. es = as @ Handed h # bs \<longrightarrow> \<not> ev_running h as (h \<in> running s) \<and> ev_tracked h as (h \<in> dom (tracked s)))"
  using assms
proof (induction xs arbitrary: s es)
  case Nil
  then show ?case by simp
next
  case (Cons x xs)
  have step: ?case if s1: "inv s1" "q_run enq deq finish s1 xs = (es1, s')" "es = e # es1"
    and t: "\<And>h bs. ev_tracked h (e # bs) (h \<in> dom (tracked s)) = ev_tracked h bs (h \<in> dom (tracked s1))"
    and r: "\<And>h bs. ev_running h (e # bs) (h \<in> running s) = ev_running h bs (h \<in> running s1)"
    and hd: "\<And>h. e = Handed h \<Longrightarrow> h \<notin> running s \<and> h \<in> dom (tracked s)" for e s1 es1
  proof -
    have fair: "ev_running h as (h \<in> running s1) \<or> \<not> ev_tracked h as (h \<in> dom (tracked s1))" if "es1 = as @ Done h # bs" for as h bs
      using Cons.prems(3) [rule_format, of "e # as" h bs] that s1(3) t [of h as] r [of h as] by simp
    have IH: "inv s' \<and> (\<forall>h. h \<in> dom (tracked s') \<longleftrightarrow> ev_tracked h es1 (h \<in> dom (tracked s1))) \<and>
     (\<forall>h. h \<in> running s' \<longleftrightarrow> ev_running h es1 (h \<in> running s1)) \<and>
     (\<forall>as h bs. es1 = as @ Handed h # bs \<longrightarrow> \<not> ev_running h as (h \<in> running s1) \<and> ev_tracked h as (h \<in> dom (tracked s1)))"
      by (rule Cons.IH [OF s1(1,2)]) (use fair in blast)
    have "\<not> ev_running h as (h \<in> running s) \<and> ev_tracked h as (h \<in> dom (tracked s))" if es: "es = as @ Handed h # bs" for as h bs
    proof (cases as)
      case Nil
      then show ?thesis using es s1(3) hd [of h] by simp
    next
      case (Cons a as')
      then have "es1 = as' @ Handed h # bs" "a = e" using es s1(3) by simp_all
      then show ?thesis using IH t [of h as'] r [of h as'] Cons by simp
    qed
    moreover have "inv s'" using IH by blast
    ultimately show ?thesis using IH t r s1(3) by simp
  qed
  show ?case
  proof (cases x)
    case (QEnqueue tx)
    show ?thesis
    proof (cases "enq s tx")
      case (Inl a)
      then obtain es1 where es1: "q_run enq deq finish s xs = (es1, s')" "es = Refused (tx_hash tx) # es1"
        using Cons.prems(2) QEnqueue by (auto split: prod.splits)
      show ?thesis by (rule step [OF Cons.prems(1) es1]) simp_all
    next
      case (Inr s1)
      then obtain es1 where es1: "q_run enq deq finish s1 xs = (es1, s')" "es = Admitted (tx_hash tx) # es1"
        using Cons.prems(2) QEnqueue by (auto split: prod.splits)
      note law = enq_law [OF Cons.prems(1) Inr]
      then have "h \<in> dom (tracked s1) \<longleftrightarrow> h \<in> dom (tracked s) \<or> tx_hash tx = h" for h by auto
      then show ?thesis using law by (intro step [OF _ es1]) simp_all
    qed
  next
    case QDequeue
    show ?thesis
    proof (cases "deq s")
      case None
      then obtain es1 where es1: "q_run enq deq finish s xs = (es1, s')" "es = Idle # es1"
        using Cons.prems(2) QDequeue by (auto split: prod.splits)
      show ?thesis by (rule step [OF Cons.prems(1) es1]) simp_all
    next
      case (Some p)
      then obtain tx s1 es1 where d: "deq s = Some (tx, s1)" and es1: "q_run enq deq finish s1 xs = (es1, s')" "es = Handed (tx_hash tx) # es1"
        using Cons.prems(2) QDequeue by (cases p) (auto split: prod.splits)
      note law = deq_law [OF Cons.prems(1) d]
      then have "h \<in> running s1 \<longleftrightarrow> h \<in> running s \<or> tx_hash tx = h" for h by auto
      then show ?thesis using law by (intro step [OF _ es1]) auto
    qed
  next
    case (QComplete k)
    then obtain es1 where es1: "q_run enq deq finish (finish s k) xs = (es1, s')" "es = Done k # es1"
      using Cons.prems(2) by (auto split: prod.splits)
    have "k \<in> running s \<or> tracked s k = None" using Cons.prems(3) [rule_format, of "[]" k es1] es1(2) by auto
    note law = finish_law [OF Cons.prems(1) this]
    then have "h \<in> running (finish s k) \<longleftrightarrow> h \<in> running s \<and> k \<noteq> h"
      "h \<in> dom (tracked (finish s k)) \<longleftrightarrow> h \<in> dom (tracked s) \<and> k \<noteq> h" for h by auto
    then show ?thesis using law by (intro step [OF _ es1]) simp_all
  qed
qed

lemma run_facts:
  assumes "inv s" and "tracked s = Map.empty" and "q_run enq deq finish s xs = (es, s')" and "fair_done es"
  shows "inv s' \<and> (\<forall>as h bs. es = as @ Handed h # bs \<longrightarrow> \<not> ev_running h as False \<and> ev_tracked h as False)"
proof -
  have "running s = {}" using running_law [OF assms(1)] assms(2) by simp
  then have b: "h \<in> running s \<longleftrightarrow> False" "h \<in> dom (tracked s) \<longleftrightarrow> False" for h using assms(2) by simp_all
  from run_state [OF assms(1,3), unfolded b, OF assms(4) [unfolded fair_done_def]] show ?thesis by blast
qed

lemma run_inv:
  "inv s \<Longrightarrow> tracked s = Map.empty \<Longrightarrow> q_run enq deq finish s xs = (es, s') \<Longrightarrow> fair_done es \<Longrightarrow> inv s'"
  using run_facts by blast

text \<open>A transaction is handed to a worker at most once for every time it is admitted.\<close>

lemma handed_once:
  assumes "inv s" and "tracked s = Map.empty" and "q_run enq deq finish s xs = (es, s')" and "fair_done es"
    and "es = as @ Handed h # bs @ Handed h # cs"
  shows "\<exists>b1 b2 b3. bs = b1 @ Done h # b2 @ Admitted h # b3"
proof -
  have hd: "\<not> ev_running k us False \<and> ev_tracked k us False" if "es = us @ Handed k # vs" for us k vs
    using run_facts [OF assms(1-4)] that by blast
  have 1: "\<not> ev_running h (as @ Handed h # bs) False" "ev_tracked h (as @ Handed h # bs) False"
    using hd [of "as @ Handed h # bs" h cs] assms(5) by simp_all
  then have "Done h \<in> set bs" using ev_running_stays [of True h bs] by (auto simp: ev_running_append)
  then obtain b1 b2 where b: "bs = b1 @ Done h # b2" "Done h \<notin> set b2" using split_list_last by metis
  then have "ev_tracked h b2 False" using 1(2) by (simp add: ev_tracked_append)
  then have "Admitted h \<in> set b2" using ev_tracked_new by blast
  then show ?thesis using b(1) split_list [of "Admitted h" b2] by auto
qed

end

text \<open>
  A queue whose \<open>Complete\<close> ignores a transaction that is waiting in it: what it promises needs nothing of
  the callers.
\<close>

locale tx_queue_strict = tx_queue +
  assumes finish_idle: "inv s \<Longrightarrow> h \<notin> running s \<Longrightarrow>
      inv (finish s h) \<and> tracked (finish s h) = tracked s \<and> running (finish s h) = running s"
begin

lemma strict_step:
  assumes "inv s" and "q_run enq deq finish s (x # xs) = (es, s')"
  obtains e es1 s1 where "es = e # es1" "q_run enq deq finish s1 xs = (es1, s')" "inv s1"
    "\<forall>h. tracked s h = None \<longrightarrow> e \<noteq> Handed h \<and> (e = Admitted h \<or> tracked s1 h = None)"
    "\<forall>h. h \<in> running s \<longrightarrow> e \<noteq> Handed h \<and> (h \<in> running s1 \<or> e = Done h \<and> tracked s1 h = None)"
    "\<forall>h. e = Handed h \<longrightarrow> h \<in> running s1"
proof (cases x)
  case (QEnqueue tx)
  show thesis
  proof (cases "enq s tx")
    case (Inl a)
    then obtain es1 where es1: "es = Refused (tx_hash tx) # es1" "q_run enq deq finish s xs = (es1, s')"
      using assms(2) QEnqueue by (auto split: prod.splits)
    show thesis by (rule that [OF es1 assms(1)]) simp_all
  next
    case (Inr s1)
    then obtain es1 where es1: "es = Admitted (tx_hash tx) # es1" "q_run enq deq finish s1 xs = (es1, s')"
      using assms(2) QEnqueue by (auto split: prod.splits)
    show thesis by (rule that [OF es1]) (use enq_law [OF assms(1) Inr] in simp_all)
  qed
next
  case QDequeue
  show thesis
  proof (cases "deq s")
    case None
    then obtain es1 where es1: "es = Idle # es1" "q_run enq deq finish s xs = (es1, s')"
      using assms(2) QDequeue by (auto split: prod.splits)
    show thesis by (rule that [OF es1 assms(1)]) simp_all
  next
    case (Some p)
    then obtain tx s1 es1 where d: "deq s = Some (tx, s1)"
      and es1: "es = Handed (tx_hash tx) # es1" "q_run enq deq finish s1 xs = (es1, s')"
      using assms(2) QDequeue by (cases p) (auto split: prod.splits)
    show thesis by (rule that [OF es1]) (use deq_law [OF assms(1) d] in auto)
  qed
next
  case (QComplete k)
  then obtain es1 where es1: "es = Done k # es1" "q_run enq deq finish (finish s k) xs = (es1, s')"
    using assms(2) by (auto split: prod.splits)
  show thesis
    by (rule that [OF es1])
      (use finish_law [OF assms(1), of k] finish_idle [OF assms(1), of k] in \<open>cases "k \<in> running s"; auto\<close>)+
qed

lemma strict_inv: "inv s \<Longrightarrow> q_run enq deq finish s xs = (es, s') \<Longrightarrow> inv s'"
proof (induction xs arbitrary: s es)
  case (Cons x xs)
  show ?case by (rule strict_step [OF Cons.prems]) (rule Cons.IH)
qed simp

lemma untracked_readmitted:
  "inv s \<Longrightarrow> q_run enq deq finish s xs = (es, s') \<Longrightarrow> tracked s h = None \<Longrightarrow> es = as @ Handed h # bs \<Longrightarrow>
   Admitted h \<in> set as"
proof (induction xs arbitrary: s es as)
  case (Cons x xs)
  obtain e es1 s1 where st: "es = e # es1" "q_run enq deq finish s1 xs = (es1, s')" "inv s1"
    "\<forall>h. tracked s h = None \<longrightarrow> e \<noteq> Handed h \<and> (e = Admitted h \<or> tracked s1 h = None)"
    "\<forall>h. h \<in> running s \<longrightarrow> e \<noteq> Handed h \<and> (h \<in> running s1 \<or> e = Done h \<and> tracked s1 h = None)"
    "\<forall>h. e = Handed h \<longrightarrow> h \<in> running s1"
    by (rule strict_step [OF Cons.prems(1,2)])
  have e: "e \<noteq> Handed h" "e = Admitted h \<or> tracked s1 h = None" using st(4) Cons.prems(3) by simp_all
  then obtain as' where as': "as = e # as'" "es1 = as' @ Handed h # bs" using st(1) Cons.prems(4) by (cases as) simp_all
  show ?case using e(2) Cons.IH [OF st(3,2) _ as'(2)] as'(1) by (elim disjE) simp_all
qed simp

lemma running_readmitted:
  "inv s \<Longrightarrow> q_run enq deq finish s xs = (es, s') \<Longrightarrow> h \<in> running s \<Longrightarrow> es = as @ Handed h # bs \<Longrightarrow>
   \<exists>b1 b2 b3. as = b1 @ Done h # b2 @ Admitted h # b3"
proof (induction xs arbitrary: s es as)
  case (Cons x xs)
  obtain e es1 s1 where st: "es = e # es1" "q_run enq deq finish s1 xs = (es1, s')" "inv s1"
    "\<forall>h. tracked s h = None \<longrightarrow> e \<noteq> Handed h \<and> (e = Admitted h \<or> tracked s1 h = None)"
    "\<forall>h. h \<in> running s \<longrightarrow> e \<noteq> Handed h \<and> (h \<in> running s1 \<or> e = Done h \<and> tracked s1 h = None)"
    "\<forall>h. e = Handed h \<longrightarrow> h \<in> running s1"
    by (rule strict_step [OF Cons.prems(1,2)])
  have e: "e \<noteq> Handed h" "h \<in> running s1 \<or> e = Done h \<and> tracked s1 h = None" using st(5) Cons.prems(3) by simp_all
  then obtain as' where as': "as = e # as'" "es1 = as' @ Handed h # bs" using st(1) Cons.prems(4) by (cases as) simp_all
  show ?case
  proof (cases "h \<in> running s1")
    case True
    then obtain b1 b2 b3 where "as' = b1 @ Done h # b2 @ Admitted h # b3"
      using Cons.IH [OF st(3,2) _ as'(2)] by blast
    then show ?thesis using as'(1) by (intro exI [of _ "e # b1"] exI [of _ b2] exI [of _ b3]) simp
  next
    case False
    then have "e = Done h" "tracked s1 h = None" using e(2) by simp_all
    moreover from this obtain b2 b3 where "as' = b2 @ Admitted h # b3"
      using untracked_readmitted [OF st(3,2) _ as'(2)] by (meson split_list)
    ultimately show ?thesis using as'(1) by (intro exI [of _ "[]"] exI [of _ b2] exI [of _ b3]) simp
  qed
qed simp

text \<open>A transaction is handed out again only after it was completed and then admitted again.\<close>

lemma strict_once:
  "inv s \<Longrightarrow> q_run enq deq finish s xs = (es, s') \<Longrightarrow> es = as @ Handed h # bs @ Handed h # cs \<Longrightarrow>
   \<exists>b1 b2 b3. bs = b1 @ Done h # b2 @ Admitted h # b3"
proof (induction xs arbitrary: s es as)
  case (Cons x xs)
  obtain e es1 s1 where st: "es = e # es1" "q_run enq deq finish s1 xs = (es1, s')" "inv s1"
    "\<forall>h. tracked s h = None \<longrightarrow> e \<noteq> Handed h \<and> (e = Admitted h \<or> tracked s1 h = None)"
    "\<forall>h. h \<in> running s \<longrightarrow> e \<noteq> Handed h \<and> (h \<in> running s1 \<or> e = Done h \<and> tracked s1 h = None)"
    "\<forall>h. e = Handed h \<longrightarrow> h \<in> running s1"
    by (rule strict_step [OF Cons.prems(1,2)])
  show ?case
  proof (cases as)
    case Nil
    then have "e = Handed h" "es1 = bs @ Handed h # cs" using st(1) Cons.prems(3) by auto
    then show ?thesis using running_readmitted [OF st(3,2), of h bs cs] st(6) by simp
  next
    case (Cons a as')
    then show ?thesis using Cons.IH [OF st(3,2), of as'] st(1) Cons.prems(3) by simp
  qed
qed simp

end

end
