(* ===== verification/TxQueue.thy ===== *)
theory TxQueue
  imports TxQueueSpec
begin

text \<open>
  The default transaction queue (\<open>gateway/core/txqueue.go\<close>): a FIFO of transactions, a map that mirrors it
  by hash and the map of transactions in progress.  \<open>Dequeue\<close> blocks while the queue is empty and open;
  the model's \<open>TxQueue_Dequeue\<close> returns \<open>None\<close> for a call that would wait, and \<open>Some (None, q)\<close> for one
  that finds the queue closed and drained.  The interpretation \<open>v1\<close> shows the queue contract.
\<close>

section \<open>Operations\<close>

record txqueue =
  tq_pendingQueue :: "eth_tx list"
  tq_queuedMap :: "hash \<rightharpoonup> eth_tx"
  tq_inProgressMap :: "(hash \<times> eth_tx) list"
  tq_done :: bool
  tq_total :: int
  tq_invalid :: int

definition NewTxQueue :: txqueue where
  "NewTxQueue = \<lparr>tq_pendingQueue = [], tq_queuedMap = Map.empty, tq_inProgressMap = [], tq_done = False,
     tq_total = 0, tq_invalid = 0\<rparr>"

definition TxQueue_Enqueue :: "txqueue \<Rightarrow> eth_tx \<Rightarrow> txqueue result" where
  "TxQueue_Enqueue q tx =
     (let txHash = tx_hash tx in
      if tq_queuedMap q txHash \<noteq> None then Inl ErrTransactionAlreadyPending
      else if map_of (tq_inProgressMap q) txHash \<noteq> None then Inl ErrTransactionAlreadyPending
      else Inr (q\<lparr>tq_pendingQueue := tq_pendingQueue q @ [tx], tq_queuedMap := (tq_queuedMap q)(txHash \<mapsto> tx)\<rparr>))"

definition TxQueue_Dequeue :: "txqueue \<Rightarrow> (eth_tx option \<times> txqueue) option" where
  "TxQueue_Dequeue q =
     (case tq_pendingQueue q of
        [] \<Rightarrow> if tq_done q then Some (None, q) else None
      | tx # rest \<Rightarrow>
          Some (Some tx, q\<lparr>tq_pendingQueue := rest, tq_queuedMap := (tq_queuedMap q)(tx_hash tx := None),
            tq_inProgressMap := AList.update (tx_hash tx) tx (tq_inProgressMap q)\<rparr>))"

definition TxQueue_Close :: "txqueue \<Rightarrow> txqueue" where
  "TxQueue_Close q = q\<lparr>tq_done := True\<rparr>"

definition TxQueue_IsPending :: "txqueue \<Rightarrow> hash \<Rightarrow> eth_tx option" where
  "TxQueue_IsPending q txHash =
     (case map_of (tq_inProgressMap q) txHash of
        Some tx \<Rightarrow> Some tx
      | None \<Rightarrow> (case tq_queuedMap q txHash of Some tx \<Rightarrow> Some tx | None \<Rightarrow> None))"

definition TxQueue_InFlight :: "txqueue \<Rightarrow> nat" where
  "TxQueue_InFlight q = length (tq_pendingQueue q) + length (tq_inProgressMap q)"

definition TxQueue_Complete :: "txqueue \<Rightarrow> hash \<Rightarrow> txqueue" where
  "TxQueue_Complete q h = q\<lparr>tq_inProgressMap := AList.delete h (tq_inProgressMap q)\<rparr>"

fun TxQueue_handle_txs :: "txqueue \<Rightarrow> dtx list \<Rightarrow> txqueue" where
  "TxQueue_handle_txs q [] = q"
| "TxQueue_handle_txs q (tx # txs) =
     TxQueue_handle_txs
       (TxQueue_Complete
         (q\<lparr>tq_total := tq_total q + 1, tq_invalid := (if dt_status tx = 0 then tq_invalid q + 1 else tq_invalid q)\<rparr>)
         (BytesToHash (dt_hash tx))) txs"

definition TxQueue_Handle :: "txqueue \<Rightarrow> dblock \<Rightarrow> txqueue" where
  "TxQueue_Handle q block = TxQueue_handle_txs q (db_txs block)"

definition TxQueue_Stats :: "txqueue \<Rightarrow> int \<times> int \<times> int \<times> int" where
  "TxQueue_Stats q = (tq_total q, tq_invalid q, 0, 0)"

section \<open>The queue contract\<close>

definition tq_tracked :: "txqueue \<Rightarrow> hash \<rightharpoonup> eth_tx" where
  "tq_tracked q = tq_queuedMap q ++ map_of (tq_inProgressMap q)"

definition tq_running :: "txqueue \<Rightarrow> hash set" where
  "tq_running q = dom (map_of (tq_inProgressMap q))"

definition tq_inv :: "txqueue \<Rightarrow> bool" where
  "tq_inv q \<longleftrightarrow>
     distinct (map tx_hash (tq_pendingQueue q)) \<and>
     tq_queuedMap q = map_of (map (\<lambda>tx. (tx_hash tx, tx)) (tq_pendingQueue q)) \<and>
     distinct (map fst (tq_inProgressMap q)) \<and> (\<forall>(h, tx) \<in> set (tq_inProgressMap q). tx_hash tx = h) \<and>
     tx_hash ` set (tq_pendingQueue q) \<inter> fst ` set (tq_inProgressMap q) = {}"

definition tq_take :: "txqueue \<Rightarrow> (eth_tx \<times> txqueue) option" where
  "tq_take q = (case TxQueue_Dequeue q of Some (Some tx, q') \<Rightarrow> Some (tx, q') | _ \<Rightarrow> None)"

lemma dom_queued: "tq_inv q \<Longrightarrow> dom (tq_queuedMap q) = tx_hash ` set (tq_pendingQueue q)"
  by (simp add: tq_inv_def dom_map_of_conv_image_fst image_image)

lemma dom_running: "dom (map_of (tq_inProgressMap q)) = fst ` set (tq_inProgressMap q)"
  by (simp add: dom_map_of_conv_image_fst)

lemma tq_enqueue:
  assumes inv: "tq_inv q" and q': "TxQueue_Enqueue q tx = Inr q'"
  shows "tq_tracked q (tx_hash tx) = None \<and> tq_inv q' \<and> tq_tracked q' = (tq_tracked q)(tx_hash tx \<mapsto> tx) \<and> tq_running q' = tq_running q"
proof -
  have none: "tq_queuedMap q (tx_hash tx) = None" "map_of (tq_inProgressMap q) (tx_hash tx) = None"
    and q'': "q' = q\<lparr>tq_pendingQueue := tq_pendingQueue q @ [tx], tq_queuedMap := (tq_queuedMap q)(tx_hash tx \<mapsto> tx)\<rparr>"
    using q' by (auto simp: TxQueue_Enqueue_def Let_def split: if_splits)
  have new: "tx_hash tx \<notin> tx_hash ` set (tq_pendingQueue q)" "tx_hash tx \<notin> fst ` set (tq_inProgressMap q)"
    using none dom_queued [OF inv] by (auto simp: map_of_eq_None_iff)
  have "(tq_queuedMap q)(tx_hash tx \<mapsto> tx) = map_of (map (\<lambda>tx. (tx_hash tx, tx)) (tq_pendingQueue q @ [tx]))"
    using inv none(1) by (auto simp: tq_inv_def map_add_def fun_eq_iff split: option.splits)
  then have "tq_inv q'" using inv new by (auto simp: tq_inv_def q'')
  moreover have "tq_tracked q' = (tq_tracked q)(tx_hash tx \<mapsto> tx)"
    using none(2) by (auto simp: tq_tracked_def q'' map_add_def fun_eq_iff split: option.splits)
  ultimately show ?thesis using none by (simp add: tq_tracked_def tq_running_def q'' map_add_def)
qed

lemma update_append_new: "k \<notin> fst ` set xs \<Longrightarrow> AList.update k v xs = xs @ [(k, v)]"
  by (induction xs) auto

lemma tq_dequeue:
  assumes inv: "tq_inv q" and q': "tq_take q = Some (tx, q')"
  shows "tq_inv q' \<and> tq_tracked q' = tq_tracked q \<and> tq_tracked q (tx_hash tx) = Some tx \<and> tx_hash tx \<notin> tq_running q \<and>
    tq_running q' = insert (tx_hash tx) (tq_running q)"
proof -
  obtain rest where rest: "tq_pendingQueue q = tx # rest"
    and q'': "q' = q\<lparr>tq_pendingQueue := rest, tq_queuedMap := (tq_queuedMap q)(tx_hash tx := None),
            tq_inProgressMap := AList.update (tx_hash tx) tx (tq_inProgressMap q)\<rparr>"
    using q' by (auto simp: tq_take_def TxQueue_Dequeue_def split: list.splits if_splits)
  have new: "tx_hash tx \<notin> tx_hash ` set rest" "tx_hash tx \<notin> fst ` set (tq_inProgressMap q)"
    using inv rest by (auto simp: tq_inv_def)
  have m: "tq_queuedMap q = (map_of (map (\<lambda>tx. (tx_hash tx, tx)) rest))(tx_hash tx \<mapsto> tx)"
    using inv rest by (simp add: tq_inv_def)
  have "map_of (map (\<lambda>tx. (tx_hash tx, tx)) rest) (tx_hash tx) = None"
    using new(1) by (simp add: map_of_eq_None_iff image_image)
  then have m': "(tq_queuedMap q)(tx_hash tx := None) = map_of (map (\<lambda>tx. (tx_hash tx, tx)) rest)"
    unfolding m by (auto simp: fun_eq_iff)
  have up: "AList.update (tx_hash tx) tx (tq_inProgressMap q) = tq_inProgressMap q @ [(tx_hash tx, tx)]"
    by (rule update_append_new [OF new(2)])
  have f: "tq_pendingQueue q' = rest" "tq_queuedMap q' = map_of (map (\<lambda>tx. (tx_hash tx, tx)) rest)"
      "tq_inProgressMap q' = tq_inProgressMap q @ [(tx_hash tx, tx)]"
    using m' up by (simp_all add: q'')
  have "distinct (map tx_hash (tx # rest))" "distinct (map fst (tq_inProgressMap q))"
      "\<forall>(h, tx) \<in> set (tq_inProgressMap q). tx_hash tx = h"
      "tx_hash ` set (tx # rest) \<inter> fst ` set (tq_inProgressMap q) = {}"
    using inv unfolding tq_inv_def rest by simp_all
  then have "tq_inv q'" unfolding tq_inv_def f using new(2) by auto
  moreover have none: "map_of (tq_inProgressMap q) (tx_hash tx) = None" using new(2) by (simp add: map_of_eq_None_iff)
  then have "tq_tracked q' = tq_tracked q"
    unfolding tq_tracked_def f m by (auto simp: map_add_def fun_eq_iff split: option.splits)
  moreover have "tq_tracked q (tx_hash tx) = Some tx" unfolding tq_tracked_def m using none by (simp add: map_add_def)
  ultimately show ?thesis
    using new(2) unfolding tq_running_def f by (simp add: dom_map_of_conv_image_fst)
qed

lemma tq_complete:
  assumes inv: "tq_inv q" and h: "h \<in> tq_running q \<or> tq_tracked q h = None"
  shows "tq_inv (TxQueue_Complete q h) \<and> tq_tracked (TxQueue_Complete q h) = (tq_tracked q)(h := None) \<and>
    tq_running (TxQueue_Complete q h) = tq_running q - {h}"
proof -
  have "tq_queuedMap q h = None"
  proof (cases "h \<in> tq_running q")
    case True
    then show ?thesis using inv dom_queued [OF inv] by (auto simp: tq_inv_def tq_running_def dom_running domIff)
  next
    case False
    then show ?thesis using h by (auto simp: tq_tracked_def map_add_def split: option.splits)
  qed
  then have "tq_tracked (TxQueue_Complete q h) = (tq_tracked q)(h := None)"
    by (auto simp: tq_tracked_def TxQueue_Complete_def delete_conv' map_add_def fun_eq_iff split: option.splits)
  moreover have "tq_inv (TxQueue_Complete q h)"
    using inv distinct_delete [of "tq_inProgressMap q" h] by (auto simp: tq_inv_def TxQueue_Complete_def AList.delete_eq)
  ultimately show ?thesis by (simp add: tq_running_def TxQueue_Complete_def delete_conv')
qed

lemma tq_inflight: "tq_inv q \<Longrightarrow> TxQueue_InFlight q = card (dom (tq_tracked q))"
proof -
  assume inv: "tq_inv q"
  have "dom (tq_tracked q) = tx_hash ` set (tq_pendingQueue q) \<union> fst ` set (tq_inProgressMap q)"
    using dom_queued [OF inv] dom_running [of q] by (simp add: tq_tracked_def Un_commute)
  moreover have "card (tx_hash ` set (tq_pendingQueue q)) = length (tq_pendingQueue q)"
    "card (fst ` set (tq_inProgressMap q)) = length (tq_inProgressMap q)"
    using inv distinct_card [of "map tx_hash (tq_pendingQueue q)"] distinct_card [of "map fst (tq_inProgressMap q)"]
    by (auto simp: tq_inv_def)
  ultimately show ?thesis using inv by (simp add: tq_inv_def TxQueue_InFlight_def card_Un_disjoint)
qed

lemma tq_refused: "tq_inv q \<Longrightarrow> tq_tracked q (tx_hash tx) \<noteq> None \<Longrightarrow> \<exists>e. TxQueue_Enqueue q tx = Inl e"
  by (auto simp: tq_tracked_def TxQueue_Enqueue_def Let_def map_add_def split: option.splits)

lemma tq_pending: "tq_inv q \<Longrightarrow> TxQueue_IsPending q h = tq_tracked q h"
  by (auto simp: TxQueue_IsPending_def tq_tracked_def map_add_def split: option.splits)

lemma tq_running_tracked: "tq_inv q \<Longrightarrow> tq_running q \<subseteq> dom (tq_tracked q)"
  by (simp add: tq_running_def tq_tracked_def)

lemma tq_complete_idle:
  assumes "tq_inv q" and "h \<notin> tq_running q"
  shows "tq_inv (TxQueue_Complete q h) \<and> tq_tracked (TxQueue_Complete q h) = tq_tracked q \<and>
    tq_running (TxQueue_Complete q h) = tq_running q"
proof -
  have "h \<notin> fst ` set (tq_inProgressMap q)" using assms(2) by (simp add: tq_running_def dom_running)
  then have "TxQueue_Complete q h = q" by (simp add: TxQueue_Complete_def delete_idem)
  then show ?thesis using assms(1) by simp
qed

interpretation v1: tx_queue_strict TxQueue_Enqueue tq_take TxQueue_Complete TxQueue_IsPending TxQueue_InFlight
    tq_inv tq_tracked tq_running
  by unfold_locales
    (rule tq_enqueue tq_refused tq_dequeue tq_complete tq_pending tq_inflight tq_running_tracked tq_complete_idle;
      assumption)+

lemma tq_inv_new: "tq_inv NewTxQueue" "tq_tracked NewTxQueue = Map.empty"
  by (simp_all add: tq_inv_def NewTxQueue_def tq_tracked_def)

section \<open>Order\<close>

definition admitted :: "q_event list \<Rightarrow> hash list" where
  "admitted es = concat (map (\<lambda>e. case e of Admitted h \<Rightarrow> [h] | _ \<Rightarrow> []) es)"

definition handed :: "q_event list \<Rightarrow> hash list" where
  "handed es = concat (map (\<lambda>e. case e of Handed h \<Rightarrow> [h] | _ \<Rightarrow> []) es)"

lemma admitted_Cons [simp]: "admitted (e # es) = (case e of Admitted h \<Rightarrow> h # admitted es | _ \<Rightarrow> admitted es)"
  by (cases e) (simp_all add: admitted_def)

lemma handed_Cons [simp]: "handed (e # es) = (case e of Handed h \<Rightarrow> h # handed es | _ \<Rightarrow> handed es)"
  by (cases e) (simp_all add: handed_def)

lemma admitted_Nil [simp]: "admitted [] = []" and handed_Nil [simp]: "handed [] = []"
  by (simp_all add: admitted_def handed_def)

lemma tq_order:
  "q_run TxQueue_Enqueue tq_take TxQueue_Complete q xs = (es, q') \<Longrightarrow>
   handed es @ map tx_hash (tq_pendingQueue q') = map tx_hash (tq_pendingQueue q) @ admitted es"
proof (induction xs arbitrary: q es)
  case (Cons x xs)
  show ?case
  proof (cases x)
    case (QEnqueue tx)
    show ?thesis
    proof (cases "TxQueue_Enqueue q tx")
      case (Inl e)
      then show ?thesis using Cons.prems Cons.IH [of q] by (auto simp: QEnqueue split: prod.splits)
    next
      case (Inr q1)
      then have "tq_pendingQueue q1 = tq_pendingQueue q @ [tx]"
        by (auto simp: TxQueue_Enqueue_def Let_def split: if_splits)
      then show ?thesis using Inr Cons.prems Cons.IH [of q1] by (auto simp: QEnqueue split: prod.splits)
    qed
  next
    case QDequeue
    show ?thesis
    proof (cases "tq_take q")
      case None
      then show ?thesis using Cons.prems Cons.IH [of q] by (auto simp: QDequeue split: prod.splits)
    next
      case (Some p)
      then obtain tx q1 where q1: "tq_take q = Some (tx, q1)" by (cases p) simp
      then have "tq_pendingQueue q = tx # tq_pendingQueue q1"
        by (auto simp: tq_take_def TxQueue_Dequeue_def split: list.splits if_splits)
      then show ?thesis using q1 Cons.prems Cons.IH [of q1] by (auto simp: QDequeue split: prod.splits)
    qed
  next
    case (QComplete h)
    have "tq_pendingQueue (TxQueue_Complete q h) = tq_pendingQueue q" by (simp add: TxQueue_Complete_def)
    then show ?thesis using Cons.prems Cons.IH [of "TxQueue_Complete q h"] by (auto simp: QComplete split: prod.splits)
  qed
qed simp

text \<open>
  C32. First in, first out, each admitted transaction once.  For every sequence of calls on a new queue,
  completions of transactions that are still queued or unknown included, the transactions handed to workers
  are, in order, the first ones admitted, and the rest are still queued, in order; \<open>InFlight\<close> counts what
  \<open>IsPending\<close> reports; and a transaction is handed out again only after it was completed and then admitted
  again.
\<close>

theorem TxQueue_fifo:
  assumes run: "q_run TxQueue_Enqueue tq_take TxQueue_Complete NewTxQueue xs = (es, q)"
  shows "admitted es = handed es @ map tx_hash (tq_pendingQueue q) \<and>
    TxQueue_InFlight q = card (dom (TxQueue_IsPending q)) \<and>
    (\<forall>as bs cs h. es = as @ Handed h # bs @ Handed h # cs \<longrightarrow> (\<exists>b1 b2 b3. bs = b1 @ Done h # b2 @ Admitted h # b3))"
proof -
  have inv: "tq_inv q" by (rule v1.strict_inv [OF tq_inv_new(1) run])
  have "TxQueue_IsPending q = tq_tracked q" by (rule ext) (rule v1.pending_law [OF inv])
  then have "TxQueue_InFlight q = card (dom (TxQueue_IsPending q))" using v1.inflight_law [OF inv] by simp
  moreover have "admitted es = handed es @ map tx_hash (tq_pendingQueue q)"
    using tq_order [OF run] by (simp add: NewTxQueue_def)
  moreover have "\<exists>b1 b2 b3. bs = b1 @ Done h # b2 @ Admitted h # b3" if "es = as @ Handed h # bs @ Handed h # cs" for as bs cs h
    by (rule v1.strict_once [OF tq_inv_new(1) run that])
  ultimately show ?thesis by simp
qed

definition demo_tx :: "nat \<Rightarrow> eth_tx" where
  "demo_tx n = \<lparr>tx_hash = of_nat n, tx_nonce = of_nat n, tx_to = None, tx_data = [], tx_type = 2, tx_protected = True\<rparr>"

theorem TxQueue_fifo_witness:
  "\<exists>es q. q_run TxQueue_Enqueue tq_take TxQueue_Complete NewTxQueue
      [QEnqueue (demo_tx 1), QEnqueue (demo_tx 2), QComplete 2, QEnqueue (demo_tx 1), QDequeue, QComplete 1] = (es, q) \<and>
    admitted es = [1, 2] \<and> handed es = [1] \<and> map tx_hash (tq_pendingQueue q) = [2] \<and>
    TxQueue_InFlight q = card (dom (TxQueue_IsPending q))"
proof -
  let ?xs = "[QEnqueue (demo_tx 1), QEnqueue (demo_tx 2), QComplete 2, QEnqueue (demo_tx 1), QDequeue, QComplete 1]"
  obtain q where run: "q_run TxQueue_Enqueue tq_take TxQueue_Complete NewTxQueue ?xs =
      ([Admitted 1, Admitted 2, Done 2, Refused 1, Handed 1, Done 1], q)"
    by (simp add: NewTxQueue_def TxQueue_Enqueue_def tq_take_def TxQueue_Dequeue_def TxQueue_Complete_def demo_tx_def)
  from TxQueue_fifo [OF run] show ?thesis using run by simp
qed

end
