(* ===== verification/TxQueueV2.thy ===== *)
theory TxQueueV2
  imports TxQueue
begin

text \<open>
  The dependency-aware queue (\<open>gateway/core/txqueue_v2.go\<close>, participants in
  \<open>gateway/core/txqueue_helpers.go\<close>): transactions that share a participant are processed one after the
  other.  Entries are Go pointers that reference each other, so the model has a heap of entries addressed
  by number; a list or map of entries is a list or map of addresses.  \<open>conflictingTxs\<close> is a Go map used as a
  set: its entries are linked in an order Go leaves open, and no lemma depends on the order.  An entry's
  \<open>listElement\<close> is not kept: it is non-nil exactly while the entry is in one of the two lists, and
  \<open>list.Remove\<close> leaves a list alone that the element is not in.
\<close>

section \<open>Participants\<close>

text \<open>\<open>sender\<close> is \<open>types.Sender\<close> with the latest signer of the transaction's chain.\<close>

definition senderForTx :: "(eth_tx \<Rightarrow> address option) \<Rightarrow> eth_tx \<Rightarrow> address option" where
  "senderForTx sender tx = (if \<not> tx_protected tx \<and> tx_type tx = 0 then None else sender tx)"

definition recipientForTx :: "eth_tx \<Rightarrow> address option" where
  "recipientForTx tx =
     (if tx_to tx = None then None
      else if length (tx_data tx) < 4 + 32 + 32 then None
      else Some (BytesToAddress (take 20 (drop (4 + 12) (tx_data tx)))))"

definition participantsForTx :: "(eth_tx \<Rightarrow> address option) \<Rightarrow> eth_tx \<Rightarrow> address list" where
  "participantsForTx sender tx =
     (let participants = (case senderForTx sender tx of Some s \<Rightarrow> [s] | None \<Rightarrow> [])
      in case recipientForTx tx of
           Some r \<Rightarrow> if r \<in> set participants then participants else participants @ [r]
         | None \<Rightarrow> participants)"

section \<open>The queue\<close>

datatype txstate = stateReady | stateWaiting | statePending

record txentry =
  te_tx :: eth_tx
  te_hash :: hash
  te_participants :: "address list"
  te_state :: txstate
  te_blocks :: "nat list"
  te_isBlockedBy :: "nat list"

record txqueuev2 =
  v2_heap :: "nat \<Rightarrow> txentry"
  v2_next :: nat
  v2_readyList :: "nat list"
  v2_waitingList :: "nat list"
  v2_participantMap :: "address \<Rightarrow> nat list"
  v2_hashMap :: "(hash \<times> nat) list"
  v2_pendingMap :: "hash \<rightharpoonup> eth_tx"
  v2_done :: bool
  v2_total :: int
  v2_invalid :: int
  v2_totalEnq :: int
  v2_conflictEnq :: int

definition NewTxQueueV2 :: "txentry \<Rightarrow> txqueuev2" where
  "NewTxQueueV2 e = \<lparr>v2_heap = (\<lambda>_. e), v2_next = 0, v2_readyList = [], v2_waitingList = [],
     v2_participantMap = (\<lambda>_. []), v2_hashMap = [], v2_pendingMap = Map.empty, v2_done = False,
     v2_total = 0, v2_invalid = 0, v2_totalEnq = 0, v2_conflictEnq = 0\<rparr>"

definition removeFromSlice :: "'a list \<Rightarrow> 'a \<Rightarrow> 'a list" where
  "removeFromSlice xs t =
     (if t \<in> set xs
      then butlast (xs[length (takeWhile (\<lambda>x. x \<noteq> t) xs) := last xs])
      else xs)"

section \<open>Enqueue\<close>

definition sharing :: "txqueuev2 \<Rightarrow> address list \<Rightarrow> nat list" where
  "sharing q participants = concat (map (v2_participantMap q) participants)"

definition conflictingTxs :: "txqueuev2 \<Rightarrow> address list \<Rightarrow> nat list" where
  "conflictingTxs q participants =
     remdups (filter (\<lambda>i. te_state (v2_heap q i) = stateReady \<or> te_state (v2_heap q i) = statePending)
       (sharing q participants))"

definition waitingTxsToBlock :: "txqueuev2 \<Rightarrow> address list \<Rightarrow> nat list" where
  "waitingTxsToBlock q participants =
     filter (\<lambda>i. te_state (v2_heap q i) = stateWaiting) (sharing q participants)"

fun add_blocks :: "nat \<Rightarrow> nat list \<Rightarrow> (nat \<Rightarrow> txentry) \<Rightarrow> (nat \<Rightarrow> txentry)" where
  "add_blocks n [] H = H"
| "add_blocks n (i # is) H = add_blocks n is (H(i := (H i)\<lparr>te_blocks := te_blocks (H i) @ [n]\<rparr>))"

fun add_blockers :: "nat \<Rightarrow> nat list \<Rightarrow> (nat \<Rightarrow> txentry) \<Rightarrow> (nat \<Rightarrow> txentry)" where
  "add_blockers n [] H = H"
| "add_blockers n (i # is) H =
     add_blockers n is (H(i := (H i)\<lparr>te_isBlockedBy := te_isBlockedBy (H i) @ [n]\<rparr>))"

fun add_participants :: "nat \<Rightarrow> address list \<Rightarrow> (address \<Rightarrow> nat list) \<Rightarrow> (address \<Rightarrow> nat list)" where
  "add_participants n [] m = m"
| "add_participants n (a # as) m = add_participants n as (m(a := m a @ [n]))"

definition V2_Enqueue :: "(eth_tx \<Rightarrow> address option) \<Rightarrow> txqueuev2 \<Rightarrow> eth_tx \<Rightarrow> txqueuev2 result" where
  "V2_Enqueue sender q tx =
     (let txHash = tx_hash tx; participants = participantsForTx sender tx in
      if map_of (v2_hashMap q) txHash \<noteq> None then Inl ErrTransactionAlreadyPending
      else
        let n = v2_next q;
            conflicts = conflictingTxs q participants;
            waiting = waitingTxsToBlock q participants;
            entry = \<lparr>te_tx = tx, te_hash = txHash, te_participants = participants,
              te_state = (if conflicts \<noteq> [] then stateWaiting else stateReady),
              te_blocks = waiting, te_isBlockedBy = conflicts\<rparr>;
            H = add_blockers n waiting (add_blocks n conflicts ((v2_heap q)(n := entry)));
            q = q\<lparr>v2_heap := H, v2_next := n + 1, v2_totalEnq := v2_totalEnq q + 1,
                  v2_hashMap := AList.update txHash n (v2_hashMap q),
                  v2_participantMap := add_participants n participants (v2_participantMap q)\<rparr>
        in if conflicts \<noteq> []
           then Inr (q\<lparr>v2_conflictEnq := v2_conflictEnq q + 1, v2_waitingList := v2_waitingList q @ [n]\<rparr>)
           else Inr (q\<lparr>v2_readyList := v2_readyList q @ [n]\<rparr>))"

section \<open>Dequeue, completion and the rest\<close>

definition V2_Dequeue :: "txqueuev2 \<Rightarrow> (eth_tx option \<times> txqueuev2) option" where
  "V2_Dequeue q =
     (case v2_readyList q of
        [] \<Rightarrow> if v2_done q then Some (None, q) else None
      | i # rest \<Rightarrow>
          Some (Some (te_tx (v2_heap q i)),
            q\<lparr>v2_readyList := rest, v2_heap := (v2_heap q)(i := (v2_heap q i)\<lparr>te_state := statePending\<rparr>),
              v2_pendingMap := (v2_pendingMap q)(te_hash (v2_heap q i) \<mapsto> te_tx (v2_heap q i))\<rparr>))"

text \<open>The loop over the entries blocked by \<open>e\<close>; the count of promoted entries is the last component.\<close>

fun unblock :: "nat \<Rightarrow> nat list \<Rightarrow> (nat \<Rightarrow> txentry) \<times> nat list \<times> nat list \<times> nat \<Rightarrow> (nat \<Rightarrow> txentry) \<times> nat list \<times> nat list \<times> nat" where
  "unblock e [] st = st"
| "unblock e (i # is) (H, ready, waiting, k) =
     (let H = H(i := (H i)\<lparr>te_isBlockedBy := removeFromSlice (te_isBlockedBy (H i)) e\<rparr>)
      in if te_isBlockedBy (H i) = []
         then unblock e is (H(i := (H i)\<lparr>te_state := stateReady\<rparr>), ready @ [i], remove1 i waiting, k + 1)
         else unblock e is (H, ready, waiting, k))"

fun remove_participants :: "nat \<Rightarrow> address list \<Rightarrow> (address \<Rightarrow> nat list) \<Rightarrow> (address \<Rightarrow> nat list)" where
  "remove_participants n [] m = m"
| "remove_participants n (a # as) m = remove_participants n as (m(a := removeFromSlice (m a) n))"

definition completeUnlocked :: "txqueuev2 \<Rightarrow> hash \<Rightarrow> nat \<times> txqueuev2" where
  "completeUnlocked q h =
     (let q = q\<lparr>v2_pendingMap := (v2_pendingMap q)(h := None)\<rparr> in
      case map_of (v2_hashMap q) h of
        None \<Rightarrow> (0, q)
      | Some e \<Rightarrow>
          let (H, ready, waiting, promoted) =
                unblock e (te_blocks (v2_heap q e)) (v2_heap q, v2_readyList q, v2_waitingList q, 0)
          in (promoted, q\<lparr>v2_heap := H, v2_readyList := ready, v2_waitingList := waiting,
                v2_hashMap := AList.delete h (v2_hashMap q),
                v2_participantMap := remove_participants e (te_participants (H e)) (v2_participantMap q)\<rparr>))"

definition V2_Complete :: "txqueuev2 \<Rightarrow> hash \<Rightarrow> txqueuev2" where
  "V2_Complete q h = snd (completeUnlocked q h)"

definition V2_InFlight :: "txqueuev2 \<Rightarrow> nat" where
  "V2_InFlight q = length (v2_hashMap q)"

definition V2_IsPending :: "txqueuev2 \<Rightarrow> hash \<Rightarrow> eth_tx option" where
  "V2_IsPending q h =
     (case v2_pendingMap q h of
        Some tx \<Rightarrow> Some tx
      | None \<Rightarrow> (case map_of (v2_hashMap q) h of Some e \<Rightarrow> Some (te_tx (v2_heap q e)) | None \<Rightarrow> None))"

definition V2_Close :: "txqueuev2 \<Rightarrow> txqueuev2" where
  "V2_Close q = q\<lparr>v2_done := True\<rparr>"

fun V2_handle_txs :: "txqueuev2 \<Rightarrow> dtx list \<Rightarrow> txqueuev2" where
  "V2_handle_txs q [] = q"
| "V2_handle_txs q (tx # txs) =
     V2_handle_txs
       (snd (completeUnlocked
          (q\<lparr>v2_total := v2_total q + 1, v2_invalid := (if dt_status tx = 0 then v2_invalid q + 1 else v2_invalid q)\<rparr>)
          (BytesToHash (dt_hash tx)))) txs"

definition V2_Handle :: "txqueuev2 \<Rightarrow> dblock \<Rightarrow> txqueuev2" where
  "V2_Handle q block = V2_handle_txs q (db_txs block)"

definition V2_Stats :: "txqueuev2 \<Rightarrow> int \<times> int \<times> int \<times> int" where
  "V2_Stats q = (v2_total q, v2_invalid q, v2_totalEnq q, v2_conflictEnq q)"

end
