(* ===== verification/TxQueueV2Inv.thy ===== *)
theory TxQueueV2Inv
  imports TxQueueV2
begin

text \<open>
  Correctness of the dependency-aware queue.  The invariant \<open>v2_inv\<close> says what the source's comments say of
  the lists and maps, that two tracked transactions with a common participant are always linked, and that
  an entry of the waiting list is never blocked by an earlier one.  It holds after every sequence of calls:
  the lists are described over all entries ever allocated, since an entry whose transaction is completed
  while it is still in a list stays there.  From it follow mutual exclusion of conflicting transactions and
  freedom from deadlock, and the queue contract (interpretation \<open>v2\<close>) while no such early completion happens.
\<close>

section \<open>Slices and links\<close>

lemma mset_removeFromSlice: "mset (removeFromSlice xs t) = mset xs - {#t#}"
proof (cases "t \<in> set xs")
  case True
  then obtain ys zs where xs: "xs = ys @ t # zs" "t \<notin> set ys" by (metis split_list_first)
  then have "takeWhile (\<lambda>x. x \<noteq> t) xs = ys" by (subst xs(1), subst takeWhile_append2) auto
  then have "removeFromSlice xs t = butlast (ys @ last (t # zs) # zs)"
    using True xs(1) by (simp add: removeFromSlice_def)
  then show ?thesis
    using xs(1) by (cases zs rule: rev_cases) (simp_all add: butlast_append)
qed (simp add: removeFromSlice_def)

lemma mset_removeFromSlice': "mset (removeFromSlice xs t) = mset (remove1 t xs)"
  by (simp add: mset_removeFromSlice)

lemma set_removeFromSlice: "distinct xs \<Longrightarrow> set (removeFromSlice xs t) = set xs - {t}"
  using mset_eq_setD [OF mset_removeFromSlice'] set_remove1_eq by metis

lemma distinct_removeFromSlice: "distinct xs \<Longrightarrow> distinct (removeFromSlice xs t)"
  using mset_removeFromSlice [of xs t] by (metis distinct_remove1 mset_eq_imp_distinct_iff mset_remove1)

lemma add_blocks_eq: "add_blocks n is H j = (H j)\<lparr>te_blocks := te_blocks (H j) @ replicate (count_list is j) n\<rparr>"
  by (induction "is" arbitrary: H) (auto simp: replicate_app_Cons_same)

lemma add_blockers_eq:
  "add_blockers n is H j = (H j)\<lparr>te_isBlockedBy := te_isBlockedBy (H j) @ replicate (count_list is j) n\<rparr>"
  by (induction "is" arbitrary: H) (auto simp: replicate_app_Cons_same)

lemma add_participants_eq:
  "distinct as \<Longrightarrow> add_participants n as m a = (if a \<in> set as then m a @ [n] else m a)"
  by (induction "as" arbitrary: m) auto

lemma remove_participants_eq:
  "distinct as \<Longrightarrow> remove_participants n as m a = (if a \<in> set as then removeFromSlice (m a) n else m a)"
  by (induction "as" arbitrary: m) auto

lemma distinct_participantsForTx: "distinct (participantsForTx sender tx)"
  by (auto simp: participantsForTx_def Let_def split: option.splits)

text \<open>What the loop of \<open>completeUnlocked\<close> does to the entries blocked by \<open>e\<close>.\<close>

lemma unblock_spec:
  assumes "unblock e is (H, R, W, k) = (H', R', W', k')"
    and "\<And>i. count_list is i \<le> count (mset (te_isBlockedBy (H i))) e" and "distinct W"
  shows "(\<forall>i. mset (te_isBlockedBy (H' i)) = mset (te_isBlockedBy (H i)) - replicate_mset (count_list is i) e \<and>
      H' i = (H i)\<lparr>te_isBlockedBy := te_isBlockedBy (H' i),
        te_state := (if i \<in> set is \<and> te_isBlockedBy (H' i) = [] then stateReady else te_state (H i))\<rparr>) \<and>
    (\<exists>P. distinct P \<and> set P = {i \<in> set is. te_isBlockedBy (H' i) = []} \<and> R' = R @ P \<and> W' = filter (\<lambda>i. i \<notin> set P) W)"
  using assms
proof (induction "is" arbitrary: H R W k)
  case Nil
  then show ?case by simp
next
  case (Cons i "is")
  let ?b = "removeFromSlice (te_isBlockedBy (H i)) e"
  let ?H1 = "H(i := (H i)\<lparr>te_isBlockedBy := ?b\<rparr>)"
  have b: "mset ?b = mset (te_isBlockedBy (H i)) - {#e#}" by (rule mset_removeFromSlice)
  have cnt: "count_list is j \<le> count (mset (te_isBlockedBy (?H1 j))) e" for j
    using Cons.prems(2) [of j] b by (auto split: if_splits)
  show ?case
  proof (cases "?b = []")
    case True
    let ?H2 = "?H1(i := (?H1 i)\<lparr>te_state := stateReady\<rparr>)"
    have i: "i \<notin> set is" using cnt [of i] True by (simp add: count_list_0_iff)
    have run: "unblock e is (?H2, R @ [i], remove1 i W, k + 1) = (H', R', W', k')"
      using Cons.prems(1) True by (simp add: Let_def)
    have "count_list is j \<le> count (mset (te_isBlockedBy (?H2 j))) e" for j
      using cnt [of j] by (auto split: if_splits)
    from Cons.IH [OF run this] Cons.prems(3) obtain P where
      H': "\<forall>j. mset (te_isBlockedBy (H' j)) = mset (te_isBlockedBy (?H2 j)) - replicate_mset (count_list is j) e \<and>
        H' j = (?H2 j)\<lparr>te_isBlockedBy := te_isBlockedBy (H' j),
          te_state := (if j \<in> set is \<and> te_isBlockedBy (H' j) = [] then stateReady else te_state (?H2 j))\<rparr>"
      and P: "distinct P" "set P = {i \<in> set is. te_isBlockedBy (H' i) = []}" "R' = (R @ [i]) @ P"
        "W' = filter (\<lambda>i. i \<notin> set P) (remove1 i W)" by auto
    have Hi: "te_isBlockedBy (H' i) = []" using H' [rule_format, of i] True by simp
    have W': "W' = filter (\<lambda>j. j \<notin> set (i # P)) W"
      using P(4) Cons.prems(3) by (auto simp: distinct_remove1_removeAll removeAll_filter_not_eq intro!: filter_cong)
    have sP: "set (i # P) = {j \<in> set (i # is). te_isBlockedBy (H' j) = []}" using P(2) Hi by auto
    have dP: "distinct (i # P)" using P(1,2) i by auto
    have "mset (te_isBlockedBy (H' j)) = mset (te_isBlockedBy (H j)) - replicate_mset (count_list (i # is) j) e \<and>
      H' j = (H j)\<lparr>te_isBlockedBy := te_isBlockedBy (H' j),
        te_state := (if j \<in> set (i # is) \<and> te_isBlockedBy (H' j) = [] then stateReady else te_state (H j))\<rparr>" for j
    proof (cases "j = i")
      case True
      then show ?thesis
        using H' [rule_format, of i] Hi b \<open>?b = []\<close> i by (simp add: count_list_0_iff)
    next
      case False
      then have "?H2 j = H j" "count_list (i # is) j = count_list is j" "j \<in> set (i # is) \<longleftrightarrow> j \<in> set is" by auto
      with H' [rule_format, of j] show ?thesis by (simp only:)
    qed
    moreover have "R' = R @ i # P" using P(3) by simp
    ultimately show ?thesis by (intro conjI allI exI [of _ "i # P"] dP sP W') blast+
  next
    case False
    have run: "unblock e is (?H1, R, W, k) = (H', R', W', k')" using Cons.prems(1) False by (simp add: Let_def)
    from Cons.IH [OF run cnt Cons.prems(3)] obtain P where
      H': "\<forall>j. mset (te_isBlockedBy (H' j)) = mset (te_isBlockedBy (?H1 j)) - replicate_mset (count_list is j) e \<and>
        H' j = (?H1 j)\<lparr>te_isBlockedBy := te_isBlockedBy (H' j),
          te_state := (if j \<in> set is \<and> te_isBlockedBy (H' j) = [] then stateReady else te_state (?H1 j))\<rparr>"
      and P: "distinct P" "set P = {i \<in> set is. te_isBlockedBy (H' i) = []}" "R' = R @ P" "W' = filter (\<lambda>i. i \<notin> set P) W" by auto
    have Hi: "i \<in> set is" if "te_isBlockedBy (H' i) = []"
    proof (rule ccontr)
      assume "i \<notin> set is"
      then have "mset (te_isBlockedBy (H' i)) = mset ?b" using H' [rule_format, of i] by (simp add: count_list_0_iff)
      with that False show False by simp
    qed
    have "mset (te_isBlockedBy (H' j)) = mset (te_isBlockedBy (H j)) - replicate_mset (count_list (i # is) j) e \<and>
      H' j = (H j)\<lparr>te_isBlockedBy := te_isBlockedBy (H' j),
        te_state := (if j \<in> set (i # is) \<and> te_isBlockedBy (H' j) = [] then stateReady else te_state (H j))\<rparr>" for j
      using H' [rule_format, of j] Hi b by (cases "j = i") (auto simp: diff_diff_add)
    moreover have "{j \<in> set (i # is). te_isBlockedBy (H' j) = []} = set P" using P(2) Hi by auto
    ultimately show ?thesis using P(1,3,4) by (intro conjI allI exI [of _ P]) blast+
  qed
qed

section \<open>The invariant\<close>

definition ids :: "txqueuev2 \<Rightarrow> nat set" where
  "ids q = snd ` set (v2_hashMap q)"

definition linked :: "(nat \<Rightarrow> txentry) \<Rightarrow> nat \<Rightarrow> nat \<Rightarrow> bool" where
  "linked H i j \<longleftrightarrow> j \<in> set (te_isBlockedBy (H i)) \<or> i \<in> set (te_isBlockedBy (H j))"

definition share :: "(nat \<Rightarrow> txentry) \<Rightarrow> nat \<Rightarrow> nat \<Rightarrow> bool" where
  "share H i j \<longleftrightarrow> set (te_participants (H i)) \<inter> set (te_participants (H j)) \<noteq> {}"

definition maps_ok :: "txqueuev2 \<Rightarrow> bool" where
  "maps_ok q \<longleftrightarrow> distinct (map fst (v2_hashMap q)) \<and>
     (\<forall>(h, i) \<in> set (v2_hashMap q). i < v2_next q \<and> te_hash (v2_heap q i) = h) \<and>
     (\<forall>i < v2_next q. te_hash (v2_heap q i) = tx_hash (te_tx (v2_heap q i)) \<and> distinct (te_participants (v2_heap q i))) \<and>
     (\<forall>a. distinct (v2_participantMap q a) \<and>
        set (v2_participantMap q a) = {i \<in> ids q. a \<in> set (te_participants (v2_heap q i))})"

definition lists_ok :: "txqueuev2 \<Rightarrow> bool" where
  "lists_ok q \<longleftrightarrow> distinct (v2_readyList q) \<and> distinct (v2_waitingList q) \<and>
     set (v2_readyList q) = {i. i < v2_next q \<and> te_state (v2_heap q i) = stateReady} \<and>
     set (v2_waitingList q) = {i. i < v2_next q \<and> te_state (v2_heap q i) = stateWaiting} \<and>
     (\<forall>h i. map_of (v2_hashMap q) h = Some i \<and> te_state (v2_heap q i) = statePending \<longrightarrow> v2_pendingMap q h \<noteq> None)"

definition links_ok :: "txqueuev2 \<Rightarrow> bool" where
  "links_ok q \<longleftrightarrow>
     (\<forall>i < v2_next q. te_isBlockedBy (v2_heap q i) = [] \<longleftrightarrow> te_state (v2_heap q i) \<noteq> stateWaiting) \<and>
     (\<forall>i < v2_next q. \<forall>j. count (mset (te_isBlockedBy (v2_heap q i))) j =
        (if j \<in> ids q then count (mset (te_blocks (v2_heap q j))) i else 0)) \<and>
     (\<forall>j \<in> ids q. \<forall>i \<in> set (te_blocks (v2_heap q j)). i < v2_next q) \<and>
     (\<forall>i \<in> ids q. \<forall>j \<in> ids q. i \<noteq> j \<longrightarrow> share (v2_heap q) i j \<longrightarrow> linked (v2_heap q) i j) \<and>
     sorted_wrt (\<lambda>a b. a \<notin> set (te_isBlockedBy (v2_heap q b))) (v2_waitingList q) \<and>
     (\<forall>i < v2_next q. i \<notin> set (te_isBlockedBy (v2_heap q i)))"

definition v2_inv :: "txqueuev2 \<Rightarrow> bool" where
  "v2_inv q \<longleftrightarrow> maps_ok q \<and> lists_ok q \<and> links_ok q"

lemma ids_less: "maps_ok q \<Longrightarrow> i \<in> ids q \<Longrightarrow> i < v2_next q"
  by (auto simp: maps_ok_def ids_def)

lemma ids_map_of: "maps_ok q \<Longrightarrow> map_of (v2_hashMap q) h = Some i \<longleftrightarrow> i \<in> ids q \<and> te_hash (v2_heap q i) = h"
proof -
  assume ok: "maps_ok q"
  have "map_of (v2_hashMap q) h = Some i \<longleftrightarrow> (h, i) \<in> set (v2_hashMap q)"
    using ok by (simp add: maps_ok_def map_of_eq_Some_iff)
  moreover have "te_hash (v2_heap q j) = k" if "(k, j) \<in> set (v2_hashMap q)" for k j
    using ok that by (auto simp: maps_ok_def)
  moreover have "i \<in> ids q \<longleftrightarrow> (\<exists>k. (k, i) \<in> set (v2_hashMap q))" by (force simp: ids_def)
  ultimately show ?thesis by blast
qed

lemma v2_new: "v2_inv (NewTxQueueV2 e)"
  by (simp add: v2_inv_def maps_ok_def lists_ok_def links_ok_def NewTxQueueV2_def ids_def)

lemma conflict_sets:
  assumes "maps_ok q"
  shows "set (conflictingTxs q ps) = {i \<in> ids q. set (te_participants (v2_heap q i)) \<inter> set ps \<noteq> {} \<and> te_state (v2_heap q i) \<noteq> stateWaiting}"
    and "set (waitingTxsToBlock q ps) = {i \<in> ids q. set (te_participants (v2_heap q i)) \<inter> set ps \<noteq> {} \<and> te_state (v2_heap q i) = stateWaiting}"
proof -
  have "set (sharing q ps) = {i \<in> ids q. set (te_participants (v2_heap q i)) \<inter> set ps \<noteq> {}}"
    using assms by (auto simp: sharing_def maps_ok_def)
  moreover have "s = stateReady \<or> s = statePending \<longleftrightarrow> s \<noteq> stateWaiting" for s by (cases s) simp_all
  ultimately show "set (conflictingTxs q ps) = {i \<in> ids q. set (te_participants (v2_heap q i)) \<inter> set ps \<noteq> {} \<and> te_state (v2_heap q i) \<noteq> stateWaiting}"
    "set (waitingTxsToBlock q ps) = {i \<in> ids q. set (te_participants (v2_heap q i)) \<inter> set ps \<noteq> {} \<and> te_state (v2_heap q i) = stateWaiting}"
    by (auto simp: conflictingTxs_def waitingTxsToBlock_def)
qed

section \<open>Enqueue\<close>

text \<open>The state after a successful \<open>Enqueue\<close>, entry by entry.\<close>

lemma enqueue_shape:
  assumes inv: "v2_inv q" and q': "V2_Enqueue sender q tx = Inr q'"
  defines "ps \<equiv> participantsForTx sender tx" and "n \<equiv> v2_next q"
  defines "C \<equiv> conflictingTxs q ps" and "W \<equiv> waitingTxsToBlock q ps"
  shows "map_of (v2_hashMap q) (tx_hash tx) = None" and "n \<notin> ids q" and "ids q' = insert n (ids q)"
    and "v2_next q' = Suc n" and "v2_pendingMap q' = v2_pendingMap q"
    and "v2_hashMap q' = v2_hashMap q @ [(tx_hash tx, n)]"
    and "\<And>a. v2_participantMap q' a = (if a \<in> set ps then v2_participantMap q a @ [n] else v2_participantMap q a)"
    and "v2_heap q' n = \<lparr>te_tx = tx, te_hash = tx_hash tx, te_participants = ps,
           te_state = (if C \<noteq> [] then stateWaiting else stateReady), te_blocks = W, te_isBlockedBy = C\<rparr>"
    and "\<And>i. i < n \<Longrightarrow> v2_heap q' i = (v2_heap q i)\<lparr>te_blocks := te_blocks (v2_heap q i) @ replicate (count_list C i) n,
           te_isBlockedBy := te_isBlockedBy (v2_heap q i) @ replicate (count_list W i) n\<rparr>"
    and "v2_readyList q' = (if C = [] then v2_readyList q @ [n] else v2_readyList q)"
    and "v2_waitingList q' = (if C = [] then v2_waitingList q else v2_waitingList q @ [n])"
proof -
  have maps: "maps_ok q" using inv by (simp add: v2_inv_def)
  show none: "map_of (v2_hashMap q) (tx_hash tx) = None"
    using q' by (auto simp: V2_Enqueue_def Let_def split: if_splits)
  show n: "n \<notin> ids q" using maps by (auto simp: maps_ok_def ids_def n_def)
  let ?e = "\<lparr>te_tx = tx, te_hash = tx_hash tx, te_participants = ps,
           te_state = (if C \<noteq> [] then stateWaiting else stateReady), te_blocks = W, te_isBlockedBy = C\<rparr>"
  let ?q1 = "q\<lparr>v2_heap := add_blockers n W (add_blocks n C ((v2_heap q)(n := ?e))), v2_next := n + 1,
      v2_totalEnq := v2_totalEnq q + 1, v2_hashMap := AList.update (tx_hash tx) n (v2_hashMap q),
      v2_participantMap := add_participants n ps (v2_participantMap q)\<rparr>"
  have q'': "q' = (if C \<noteq> [] then ?q1\<lparr>v2_conflictEnq := v2_conflictEnq ?q1 + 1, v2_waitingList := v2_waitingList ?q1 @ [n]\<rparr>
      else ?q1\<lparr>v2_readyList := v2_readyList ?q1 @ [n]\<rparr>)"
    using q' none unfolding V2_Enqueue_def Let_def C_def W_def ps_def n_def by (simp split: if_splits)
  have up: "AList.update (tx_hash tx) n (v2_hashMap q) = v2_hashMap q @ [(tx_hash tx, n)]"
    by (rule update_append_new) (use none in \<open>simp add: map_of_eq_None_iff\<close>)
  have CW: "count_list C n = 0" "count_list W n = 0"
    using n conflict_sets [OF maps, of ps] by (auto simp: count_list_0_iff C_def W_def)
  show "ids q' = insert n (ids q)" "v2_hashMap q' = v2_hashMap q @ [(tx_hash tx, n)]"
    by (simp_all add: q'' ids_def up)
  show "v2_next q' = Suc n" "v2_pendingMap q' = v2_pendingMap q"
    "v2_readyList q' = (if C = [] then v2_readyList q @ [n] else v2_readyList q)"
    "v2_waitingList q' = (if C = [] then v2_waitingList q else v2_waitingList q @ [n])" by (simp_all add: q'')
  show "v2_participantMap q' a = (if a \<in> set ps then v2_participantMap q a @ [n] else v2_participantMap q a)" for a
    using add_participants_eq [OF distinct_participantsForTx, of n sender tx] by (simp add: q'' ps_def)
  have heap: "v2_heap q' = add_blockers n W (add_blocks n C ((v2_heap q)(n := ?e)))" by (simp add: q'')
  show "v2_heap q' n = ?e" unfolding heap add_blockers_eq add_blocks_eq by (simp add: CW)
  show "v2_heap q' i = (v2_heap q i)\<lparr>te_blocks := te_blocks (v2_heap q i) @ replicate (count_list C i) n,
           te_isBlockedBy := te_isBlockedBy (v2_heap q i) @ replicate (count_list W i) n\<rparr>" if "i < n" for i
    unfolding heap add_blockers_eq add_blocks_eq using that by auto
qed

lemma enqueue_maps:
  assumes inv: "v2_inv q" and q': "V2_Enqueue sender q tx = Inr q'"
  shows "maps_ok q'"
proof -
  note sh = enqueue_shape [OF inv q']
  have maps: "maps_ok q" using inv by (simp add: v2_inv_def)
  have heap: "te_participants (v2_heap q' i) = te_participants (v2_heap q i)" "te_hash (v2_heap q' i) = te_hash (v2_heap q i)"
    "te_tx (v2_heap q' i) = te_tx (v2_heap q i)" if "i < v2_next q" for i
    using sh(9) [OF that] by simp_all
  have new: "te_participants (v2_heap q' (v2_next q)) = participantsForTx sender tx"
    "te_hash (v2_heap q' (v2_next q)) = tx_hash tx" "te_tx (v2_heap q' (v2_next q)) = tx" using sh(8) by simp_all
  have "distinct (map fst (v2_hashMap q'))" using maps sh(1,6) by (auto simp: maps_ok_def map_of_eq_None_iff)
  moreover have "i < v2_next q' \<and> te_hash (v2_heap q' i) = h" if "(h, i) \<in> set (v2_hashMap q')" for h i
  proof (cases "(h, i) \<in> set (v2_hashMap q)")
    case True
    then have "i < v2_next q" "te_hash (v2_heap q i) = h" using maps by (auto simp: maps_ok_def)
    then show ?thesis using sh(4) heap by simp
  next
    case False
    then show ?thesis using that sh(4,6) new by auto
  qed
  moreover have "te_hash (v2_heap q' i) = tx_hash (te_tx (v2_heap q' i)) \<and> distinct (te_participants (v2_heap q' i))"
    if "i < v2_next q'" for i
    using that sh(4) heap [of i] new maps distinct_participantsForTx by (cases "i = v2_next q") (auto simp: maps_ok_def less_Suc_eq)
  moreover have "distinct (v2_participantMap q' a) \<and>
      set (v2_participantMap q' a) = {i \<in> ids q'. a \<in> set (te_participants (v2_heap q' i))}" for a
  proof -
    have "distinct (v2_participantMap q a)" "set (v2_participantMap q a) = {i \<in> ids q. a \<in> set (te_participants (v2_heap q i))}"
      using maps by (auto simp: maps_ok_def)
    then show ?thesis unfolding sh(7) sh(3) using sh(2) heap new ids_less [OF maps] by auto
  qed
  ultimately show ?thesis unfolding maps_ok_def by auto
qed

lemma enqueue_lists:
  assumes inv: "v2_inv q" and q': "V2_Enqueue sender q tx = Inr q'"
  shows "lists_ok q'"
proof -
  note sh = enqueue_shape [OF inv q']
  have maps: "maps_ok q" and lists: "lists_ok q" using inv by (simp_all add: v2_inv_def)
  have st: "te_state (v2_heap q' i) = te_state (v2_heap q i)" if "i < v2_next q" for i
    using sh(9) [OF that] by simp
  have old: "v2_next q \<notin> set (v2_readyList q)" "v2_next q \<notin> set (v2_waitingList q)" using lists by (auto simp: lists_ok_def)
  have "v2_pendingMap q' h \<noteq> None" if h: "map_of (v2_hashMap q') h = Some i" "te_state (v2_heap q' i) = statePending" for h i
  proof (cases "map_of (v2_hashMap q) h")
    case None
    then have "i = v2_next q" using h(1) sh(6) by (auto simp: map_add_def split: if_splits option.splits)
    then show ?thesis using h(2) sh(8) by (simp split: if_splits)
  next
    case (Some j)
    then have "j < v2_next q" using ids_map_of [OF maps] ids_less [OF maps] by blast
    moreover have "j = i" using Some h(1) sh(1,6) by (auto simp: map_add_def split: if_splits option.splits)
    ultimately show ?thesis using Some h(2) lists sh(5) st [of i] by (auto simp: lists_ok_def)
  qed
  moreover have "set (v2_readyList q') = {i. i < v2_next q' \<and> te_state (v2_heap q' i) = stateReady}"
    and "set (v2_waitingList q') = {i. i < v2_next q' \<and> te_state (v2_heap q' i) = stateWaiting}"
    using lists sh(4,8,10,11) st by (auto simp: lists_ok_def less_Suc_eq)
  moreover have "distinct (v2_readyList q')" "distinct (v2_waitingList q')"
    using lists old sh(10,11) by (simp_all add: lists_ok_def)
  ultimately show ?thesis unfolding lists_ok_def by simp
qed

lemma count_mset_0: "x \<notin> set xs \<Longrightarrow> count (mset xs) x = 0"
  by (simp add: count_eq_zero_iff)

lemma links_okD:
  assumes "links_ok q"
  shows "i < v2_next q \<Longrightarrow> te_isBlockedBy (v2_heap q i) = [] \<longleftrightarrow> te_state (v2_heap q i) \<noteq> stateWaiting"
    and "i < v2_next q \<Longrightarrow> count (mset (te_isBlockedBy (v2_heap q i))) j =
           (if j \<in> ids q then count (mset (te_blocks (v2_heap q j))) i else 0)"
    and "j \<in> ids q \<Longrightarrow> i \<in> set (te_blocks (v2_heap q j)) \<Longrightarrow> i < v2_next q"
    and "i \<in> ids q \<Longrightarrow> j \<in> ids q \<Longrightarrow> i \<noteq> j \<Longrightarrow> share (v2_heap q) i j \<Longrightarrow> linked (v2_heap q) i j"
    and "sorted_wrt (\<lambda>a b. a \<notin> set (te_isBlockedBy (v2_heap q b))) (v2_waitingList q)"
    and "i < v2_next q \<Longrightarrow> i \<notin> set (te_isBlockedBy (v2_heap q i))"
  using assms by (auto simp: links_ok_def)

lemma enqueue_heap:
  assumes inv: "v2_inv q" and q': "V2_Enqueue sender q tx = Inr q'"
  defines "n \<equiv> v2_next q" and "C \<equiv> conflictingTxs q (participantsForTx sender tx)"
    and "W \<equiv> waitingTxsToBlock q (participantsForTx sender tx)"
  shows "n \<notin> ids q" "n \<notin> set C" "n \<notin> set W" "ids q' = insert n (ids q)"
    and "te_isBlockedBy (v2_heap q' n) = C" "te_blocks (v2_heap q' n) = W"
    and "te_state (v2_heap q' n) = (if C \<noteq> [] then stateWaiting else stateReady)"
    and "te_participants (v2_heap q' n) = participantsForTx sender tx"
    and "i < n \<Longrightarrow> te_isBlockedBy (v2_heap q' i) = te_isBlockedBy (v2_heap q i) @ replicate (count_list W i) n"
    and "i < n \<Longrightarrow> te_blocks (v2_heap q' i) = te_blocks (v2_heap q i) @ replicate (count_list C i) n"
    and "i < n \<Longrightarrow> te_state (v2_heap q' i) = te_state (v2_heap q i)"
    and "i < n \<Longrightarrow> te_participants (v2_heap q' i) = te_participants (v2_heap q i)"
    and "i < n \<Longrightarrow> n \<notin> set (te_isBlockedBy (v2_heap q i))"
    and "i \<in> ids q \<Longrightarrow> n \<notin> set (te_blocks (v2_heap q i))"
    and "v2_next q' = Suc n" and "i \<in> ids q \<Longrightarrow> i < n"
proof -
  note sh = enqueue_shape [OF inv q']
  have maps: "maps_ok q" and links: "links_ok q" using inv by (simp_all add: v2_inv_def)
  show n: "n \<notin> ids q" using sh(2) by (simp add: n_def)
  show "n \<notin> set C" "n \<notin> set W" using n conflict_sets [OF maps] by (auto simp: C_def W_def)
  show "ids q' = insert n (ids q)" using sh(3) by (simp add: n_def)
  show "te_isBlockedBy (v2_heap q' n) = C" "te_blocks (v2_heap q' n) = W" "te_state (v2_heap q' n) = (if C \<noteq> [] then stateWaiting else stateReady)"
    "te_participants (v2_heap q' n) = participantsForTx sender tx" using sh(8) by (simp_all add: n_def C_def W_def)
  show "te_isBlockedBy (v2_heap q' i) = te_isBlockedBy (v2_heap q i) @ replicate (count_list W i) n"
    "te_blocks (v2_heap q' i) = te_blocks (v2_heap q i) @ replicate (count_list C i) n"
    "te_state (v2_heap q' i) = te_state (v2_heap q i)" "te_participants (v2_heap q' i) = te_participants (v2_heap q i)" if "i < n"
    using sh(9) [of i] that by (simp_all add: n_def C_def W_def)
  show "n \<notin> set (te_isBlockedBy (v2_heap q i))" if "i < n"
    using links_okD(2) [OF links, of i n] n that by (simp add: count_eq_zero_iff n_def)
  show "n \<notin> set (te_blocks (v2_heap q i))" if "i \<in> ids q"
    using links_okD(3) [OF links that, of n] by (auto simp: n_def)
  show "v2_next q' = Suc n" using sh(4) by (simp add: n_def)
  show "i < n" if "i \<in> ids q" using ids_less [OF maps that] by (simp add: n_def)
qed

lemma enqueue_counts:
  assumes inv: "v2_inv q" and q': "V2_Enqueue sender q tx = Inr q'" and i: "i < v2_next q'"
  shows "count (mset (te_isBlockedBy (v2_heap q' i))) j =
           (if j \<in> ids q' then count (mset (te_blocks (v2_heap q' j))) i else 0)"
proof -
  note h = enqueue_heap [OF inv q']
  have maps: "maps_ok q" and links: "links_ok q" using inv by (simp_all add: v2_inv_def)
  let ?n = "v2_next q"
  note cs = conflict_sets [OF maps, of "participantsForTx sender tx"]
  show ?thesis
  proof (cases "i = ?n"; cases "j = ?n")
    assume "i = ?n" "j = ?n"
    then show ?thesis using h(1-6) by (simp add: count_mset_0)
  next
    assume ij: "i = ?n" "j \<noteq> ?n"
    then show ?thesis using h(4,5) h(10,14,16) [of j] cs by (cases "j \<in> ids q") (simp_all add: count_mset count_mset_0)
  next
    assume ij: "i \<noteq> ?n" "j = ?n"
    then have "i < ?n" using i h(15) by simp
    then show ?thesis using ij h(4,6) h(9,13) [of i] by (simp add: count_mset)
  next
    assume ij: "i \<noteq> ?n" "j \<noteq> ?n"
    then have "i < ?n" using i h(15) by simp
    then show ?thesis using ij h(4) h(9) [of i] h(10,16) [of j] links_okD(2) [OF links, of i j] by (auto simp: count_mset)
  qed
qed

lemma enqueue_linked:
  assumes inv: "v2_inv q" and q': "V2_Enqueue sender q tx = Inr q'"
    and ij: "i \<in> ids q'" "j \<in> ids q'" "i \<noteq> j" "share (v2_heap q') i j"
  shows "linked (v2_heap q') i j"
proof -
  note h = enqueue_heap [OF inv q']
  have maps: "maps_ok q" and links: "links_ok q" using inv by (simp_all add: v2_inv_def)
  let ?n = "v2_next q"
  note cs = conflict_sets [OF maps, of "participantsForTx sender tx"]
  have own: "linked (v2_heap q') ?n k" if k: "k \<in> ids q" "share (v2_heap q') ?n k" for k
  proof -
    have kn: "k < ?n" by (rule h(16) [OF k(1)])
    show ?thesis
    proof (cases "te_state (v2_heap q k) = stateWaiting")
      case True
      then have "k \<in> set (waitingTxsToBlock q (participantsForTx sender tx))" using k cs h(8) h(12) [OF kn] by (auto simp: share_def)
      then show ?thesis using h(9) [OF kn] by (auto simp: linked_def set_replicate_conv_if count_list_0_iff)
    next
      case False
      then have "k \<in> set (conflictingTxs q (participantsForTx sender tx))" using k cs h(8) h(12) [OF kn] by (auto simp: share_def)
      then show ?thesis using h(5) by (simp add: linked_def)
    qed
  qed
  have sym: "linked (v2_heap q') a b \<Longrightarrow> linked (v2_heap q') b a" "share (v2_heap q') a b \<Longrightarrow> share (v2_heap q') b a" for a b
    by (auto simp: linked_def share_def)
  show ?thesis
  proof (cases "i = ?n \<or> j = ?n")
    case True
    then show ?thesis using own sym ij h(4) by auto
  next
    case False
    then have k: "i \<in> ids q" "j \<in> ids q" using ij h(4) by auto
    then have "linked (v2_heap q) i j" using links_okD(4) [OF links k ij(3)] ij(4) h(12) [OF h(16) [OF k(1)]] h(12) [OF h(16) [OF k(2)]] by (simp add: share_def)
    then show ?thesis using h(9) [OF h(16) [OF k(1)]] h(9) [OF h(16) [OF k(2)]] by (auto simp: linked_def)
  qed
qed

lemma enqueue_links:
  assumes inv: "v2_inv q" and q': "V2_Enqueue sender q tx = Inr q'"
  shows "links_ok q'"
proof -
  note h = enqueue_heap [OF inv q']
  have maps: "maps_ok q" and lists: "lists_ok q" and links: "links_ok q" using inv by (simp_all add: v2_inv_def)
  note L = links_okD [OF links]
  let ?bb' = "\<lambda>i. te_isBlockedBy (v2_heap q' i)"
  note cs = conflict_sets [OF maps, of "participantsForTx sender tx"]
  have less: "i = v2_next q \<or> i < v2_next q" if "i < v2_next q'" for i using that h(15) by auto
  have "?bb' i = [] \<longleftrightarrow> te_state (v2_heap q' i) \<noteq> stateWaiting" if "i < v2_next q'" for i
  proof (cases "i = v2_next q")
    case False
    then have i: "i < v2_next q" using less [OF that] by simp
    then show ?thesis using L(1) [OF i] h(9,11) [OF i] cs by (auto simp: count_list_0_iff)
  qed (use h(5,7) in simp)
  moreover have "i < v2_next q'" if j: "j \<in> ids q'" "i \<in> set (te_blocks (v2_heap q' j))" for i j
  proof (cases "j = v2_next q")
    case False
    then have k: "j \<in> ids q" using j(1) h(4) by simp
    then show ?thesis using j(2) h(10) [OF h(16) [OF k]] h(15) L(3) [OF k, of i] by (auto simp: set_replicate_conv_if split: if_splits)
  qed (use j h(6,15) h(16) [of i] cs in auto)
  moreover have "sorted_wrt (\<lambda>a b. a \<notin> set (?bb' b)) (v2_waitingList q')"
  proof -
    have w: "set (v2_waitingList q) = {i. i < v2_next q \<and> te_state (v2_heap q i) = stateWaiting}" using lists by (simp add: lists_ok_def)
    have "a \<notin> set (?bb' b)" if ab: "a \<in> set (v2_waitingList q)" "b \<in> set (v2_waitingList q)" "a \<notin> set (te_isBlockedBy (v2_heap q b))" for a b
      using ab w h(9) [of b] by (auto simp: set_replicate_conv_if split: if_splits)
    then have "sorted_wrt (\<lambda>a b. a \<notin> set (?bb' b)) (v2_waitingList q)"
      by (rule sorted_wrt_mono_rel [OF _ L(5)])
    then show ?thesis using enqueue_shape(11) [OF inv q'] h(5) w cs by (auto simp: sorted_wrt_append)
  qed
  moreover have "i \<notin> set (?bb' i)" if "i < v2_next q'" for i
    using less [OF that] L(6) [of i] h(2,5) h(9) [of i] by (auto simp: set_replicate_conv_if split: if_splits)
  ultimately show ?thesis using enqueue_counts [OF inv q'] enqueue_linked [OF inv q'] unfolding links_ok_def by blast
qed

lemma v2_enqueue_inv:
  assumes "v2_inv q" and "V2_Enqueue sender q tx = Inr q'"
  shows "v2_inv q'"
  unfolding v2_inv_def by (intro conjI enqueue_maps [OF assms] enqueue_lists [OF assms] enqueue_links [OF assms])

section \<open>Dequeue\<close>

lemma dequeue_shape:
  assumes inv: "v2_inv q" and q': "V2_Dequeue q = Some (Some tx, q')"
  obtains e rest where "v2_readyList q = e # rest" "e < v2_next q" "e \<notin> set rest" "te_state (v2_heap q e) = stateReady"
    "tx = te_tx (v2_heap q e)" "te_hash (v2_heap q e) = tx_hash tx"
    "q' = q\<lparr>v2_readyList := rest, v2_heap := (v2_heap q)(e := (v2_heap q e)\<lparr>te_state := statePending\<rparr>),
              v2_pendingMap := (v2_pendingMap q)(tx_hash tx \<mapsto> tx)\<rparr>"
proof -
  have maps: "maps_ok q" and lists: "lists_ok q" using inv by (simp_all add: v2_inv_def)
  obtain e rest where r: "v2_readyList q = e # rest" "tx = te_tx (v2_heap q e)"
    "q' = q\<lparr>v2_readyList := rest, v2_heap := (v2_heap q)(e := (v2_heap q e)\<lparr>te_state := statePending\<rparr>),
              v2_pendingMap := (v2_pendingMap q)(te_hash (v2_heap q e) \<mapsto> te_tx (v2_heap q e))\<rparr>"
    using q' by (auto simp: V2_Dequeue_def split: list.splits if_splits)
  have "e \<in> set (v2_readyList q)" using r(1) by simp
  then have e: "e < v2_next q" "te_state (v2_heap q e) = stateReady" "e \<notin> set rest" using lists r(1) by (auto simp: lists_ok_def)
  have h: "te_hash (v2_heap q e) = tx_hash (te_tx (v2_heap q e))" using maps e(1) by (simp add: maps_ok_def)
  show thesis by (rule that [OF r(1) e(1,3,2) r(2)]) (use r h in simp_all)
qed

lemma v2_dequeue_inv:
  assumes inv: "v2_inv q" and q': "V2_Dequeue q = Some (Some tx, q')"
  shows "v2_inv q'"
proof -
  have maps: "maps_ok q" and lists: "lists_ok q" and links: "links_ok q" using inv by (simp_all add: v2_inv_def)
  obtain e rest where e: "v2_readyList q = e # rest" "e < v2_next q" "e \<notin> set rest" "te_state (v2_heap q e) = stateReady"
    "tx = te_tx (v2_heap q e)" "te_hash (v2_heap q e) = tx_hash tx"
    "q' = q\<lparr>v2_readyList := rest, v2_heap := (v2_heap q)(e := (v2_heap q e)\<lparr>te_state := statePending\<rparr>),
              v2_pendingMap := (v2_pendingMap q)(tx_hash tx \<mapsto> tx)\<rparr>"
    by (rule dequeue_shape [OF inv q'])
  have ids: "ids q' = ids q" "v2_hashMap q' = v2_hashMap q" "v2_waitingList q' = v2_waitingList q" "v2_next q' = v2_next q"
    "v2_participantMap q' = v2_participantMap q" "v2_readyList q' = rest" using e(7) by (simp_all add: ids_def)
  have heap: "te_participants (v2_heap q' i) = te_participants (v2_heap q i)" "te_hash (v2_heap q' i) = te_hash (v2_heap q i)"
    "te_tx (v2_heap q' i) = te_tx (v2_heap q i)" "te_blocks (v2_heap q' i) = te_blocks (v2_heap q i)"
    "te_isBlockedBy (v2_heap q' i) = te_isBlockedBy (v2_heap q i)"
    "te_state (v2_heap q' i) = (if i = e then statePending else te_state (v2_heap q i))" for i using e(7) by simp_all
  have "maps_ok q'" using maps unfolding maps_ok_def ids heap .
  moreover have "links_ok q'"
  proof -
    have "share (v2_heap q') = share (v2_heap q)" "linked (v2_heap q') = linked (v2_heap q)"
      by (intro ext, simp add: share_def linked_def heap)+
    moreover have "te_state (v2_heap q' i) \<noteq> stateWaiting \<longleftrightarrow> te_state (v2_heap q i) \<noteq> stateWaiting" for i
      using heap(6) e(4) by simp
    ultimately show ?thesis using links unfolding links_ok_def ids heap(1-5) by simp
  qed
  moreover have "lists_ok q'"
  proof -
    have "v2_pendingMap q' h \<noteq> None" if h: "map_of (v2_hashMap q) h = Some i" "te_state (v2_heap q' i) = statePending" for h i
    proof (cases "i = e")
      case True
      then have "h = tx_hash tx" using h(1) e(6) ids_map_of [OF maps] by simp
      then show ?thesis using e(7) by simp
    next
      case False
      then have "v2_pendingMap q h \<noteq> None" using h lists heap(6) [of i] by (auto simp: lists_ok_def)
      then show ?thesis using e(7) by simp
    qed
    moreover have "set rest = {i. i < v2_next q \<and> te_state (v2_heap q' i) = stateReady}"
      "set (v2_waitingList q) = {i. i < v2_next q \<and> te_state (v2_heap q' i) = stateWaiting}"
      "distinct rest" "distinct (v2_waitingList q)"
      using lists e(1,2,3,4) heap(6) by (auto simp: lists_ok_def split: if_splits)
    ultimately show ?thesis unfolding lists_ok_def ids by blast
  qed
  ultimately show ?thesis by (simp add: v2_inv_def)
qed

end
