(* ===== verification/TxQueueV2Props.thy ===== *)
theory TxQueueV2Props
  imports TxQueueV2Inv
begin

text \<open>
  Completion in the dependency-aware queue, the interpretation of the queue contract, and what the
  invariant gives, for every sequence of calls: transactions with a common participant never run together, and
  the queue never stalls.
\<close>

section \<open>Completion\<close>

text \<open>The state after completing the tracked entry \<open>e\<close>, whatever its state, entry by entry.\<close>

lemma complete_shape:
  assumes inv: "v2_inv q" and e: "map_of (v2_hashMap q) h = Some e"
  defines "q' \<equiv> V2_Complete q h" and "B \<equiv> te_blocks (v2_heap q e)"
  shows "ids q' = ids q - {e}" and "v2_hashMap q' = AList.delete h (v2_hashMap q)"
    and "v2_next q' = v2_next q" and "v2_pendingMap q' = (v2_pendingMap q)(h := None)"
    and "v2_participantMap q' a = (if a \<in> set (te_participants (v2_heap q e)) then removeFromSlice (v2_participantMap q a) e else v2_participantMap q a)"
    and "mset (te_isBlockedBy (v2_heap q' i)) = mset (te_isBlockedBy (v2_heap q i)) - replicate_mset (count_list B i) e"
    and "v2_heap q' i = (v2_heap q i)\<lparr>te_isBlockedBy := te_isBlockedBy (v2_heap q' i),
           te_state := (if i \<in> set B \<and> te_isBlockedBy (v2_heap q' i) = [] then stateReady else te_state (v2_heap q i))\<rparr>"
    and "\<exists>P. distinct P \<and> set P = {i \<in> set B. te_isBlockedBy (v2_heap q' i) = []} \<and>
           v2_readyList q' = v2_readyList q @ P \<and> v2_waitingList q' = filter (\<lambda>i. i \<notin> set P) (v2_waitingList q)"
proof -
  have maps: "maps_ok q" and lists: "lists_ok q" and links: "links_ok q" using inv by (simp_all add: v2_inv_def)
  have eid: "e \<in> ids q" "te_hash (v2_heap q e) = h" using e ids_map_of [OF maps] by blast+
  obtain H R W k where u: "unblock e B (v2_heap q, v2_readyList q, v2_waitingList q, 0) = (H, R, W, k)"
    by (cases "unblock e B (v2_heap q, v2_readyList q, v2_waitingList q, 0)")
  have cnt: "count_list B i \<le> count (mset (te_isBlockedBy (v2_heap q i))) e" for i
  proof (cases "i < v2_next q")
    case True
    then show ?thesis using links_okD(2) [OF links True, of e] eid by (simp add: B_def count_mset)
  next
    case False
    then have "i \<notin> set B" using links_okD(3) [OF links eid(1)] by (auto simp: B_def)
    then show ?thesis by (simp add: count_list_0_iff)
  qed
  have "distinct (v2_waitingList q)" using lists by (simp add: lists_ok_def)
  note us = unblock_spec [OF u cnt this]
  have q': "q' = q\<lparr>v2_pendingMap := (v2_pendingMap q)(h := None), v2_heap := H, v2_readyList := R, v2_waitingList := W,
      v2_hashMap := AList.delete h (v2_hashMap q), v2_participantMap := remove_participants e (te_participants (H e)) (v2_participantMap q)\<rparr>"
    using e u by (simp add: q'_def V2_Complete_def completeUnlocked_def Let_def B_def)
  show "v2_hashMap q' = AList.delete h (v2_hashMap q)" "v2_next q' = v2_next q" "v2_pendingMap q' = (v2_pendingMap q)(h := None)"
    using q' by simp_all
  show "mset (te_isBlockedBy (v2_heap q' i)) = mset (te_isBlockedBy (v2_heap q i)) - replicate_mset (count_list B i) e"
    "v2_heap q' i = (v2_heap q i)\<lparr>te_isBlockedBy := te_isBlockedBy (v2_heap q' i),
           te_state := (if i \<in> set B \<and> te_isBlockedBy (v2_heap q' i) = [] then stateReady else te_state (v2_heap q i))\<rparr>"
    using conjunct1 [OF us, rule_format, of i] q' by simp_all
  show "\<exists>P. distinct P \<and> set P = {i \<in> set B. te_isBlockedBy (v2_heap q' i) = []} \<and>
           v2_readyList q' = v2_readyList q @ P \<and> v2_waitingList q' = filter (\<lambda>i. i \<notin> set P) (v2_waitingList q)"
    using conjunct2 [OF us] q' by simp
  have "te_participants (H e) = te_participants (v2_heap q e)"
    using arg_cong [OF conjunct2 [OF conjunct1 [OF us, rule_format, of e]], of te_participants] by simp
  moreover have "distinct (te_participants (v2_heap q e))" using maps ids_less [OF maps eid(1)] by (simp add: maps_ok_def)
  ultimately show "v2_participantMap q' a = (if a \<in> set (te_participants (v2_heap q e)) then removeFromSlice (v2_participantMap q a) e else v2_participantMap q a)"
    using q' by (simp add: remove_participants_eq)
  have keys: "te_hash (v2_heap q j) = g" if "(g, j) \<in> set (v2_hashMap q)" for g j using maps that by (auto simp: maps_ok_def)
  show "ids q' = ids q - {e}"
  proof -
    have dist: "distinct (map fst (v2_hashMap q))" using maps by (simp add: maps_ok_def)
    have iff: "g = h \<longleftrightarrow> j = e" if gj: "(g, j) \<in> set (v2_hashMap q)" for g j
    proof
      assume "g = h"
      then show "j = e" using map_of_is_SomeI [OF dist gj] e by simp
    next
      assume "j = e"
      then show "g = h" using keys [OF gj] eid(2) by simp
    qed
    have "filter (\<lambda>(g, _). h \<noteq> g) (v2_hashMap q) = filter (\<lambda>(_, j). j \<noteq> e) (v2_hashMap q)"
    proof (rule filter_cong [OF refl])
      fix x assume "x \<in> set (v2_hashMap q)"
      then show "(case x of (g, _) \<Rightarrow> h \<noteq> g) = (case x of (_, j) \<Rightarrow> j \<noteq> e)" using iff [of "fst x" "snd x"] by (cases x) auto
    qed
    moreover have "v2_hashMap q' = filter (\<lambda>(g, _). h \<noteq> g) (v2_hashMap q)"
      unfolding q' AList.delete_eq by simp
    ultimately have "set (v2_hashMap q') = {x \<in> set (v2_hashMap q). snd x \<noteq> e}" by (simp add: split_def)
    then show ?thesis unfolding ids_def by (simp only:) auto
  qed
qed

lemma in_set_count: "x \<in> set xs \<longleftrightarrow> count (mset xs) x \<noteq> 0"
  by (simp add: count_eq_zero_iff)

lemma complete_heap:
  assumes inv: "v2_inv q" and e: "map_of (v2_hashMap q) h = Some e"
    and i: "i < v2_next q"
  defines "q' \<equiv> V2_Complete q h"
  shows "count (mset (te_isBlockedBy (v2_heap q' i))) j = (if j = e then 0 else count (mset (te_isBlockedBy (v2_heap q i))) j)"
    and "set (te_isBlockedBy (v2_heap q' i)) = set (te_isBlockedBy (v2_heap q i)) - {e}"
    and "i \<in> set (te_blocks (v2_heap q e)) \<longleftrightarrow> e \<in> set (te_isBlockedBy (v2_heap q i))"
    and "te_participants (v2_heap q' i) = te_participants (v2_heap q i)" and "te_hash (v2_heap q' i) = te_hash (v2_heap q i)"
    and "te_tx (v2_heap q' i) = te_tx (v2_heap q i)" and "te_blocks (v2_heap q' i) = te_blocks (v2_heap q i)"
    and "te_state (v2_heap q' i) = (if te_state (v2_heap q i) = stateWaiting \<and> te_isBlockedBy (v2_heap q' i) = [] then stateReady
           else te_state (v2_heap q i))"
proof -
  note sh = complete_shape [OF inv e, folded q'_def]
  have maps: "maps_ok q" and links: "links_ok q" using inv by (simp_all add: v2_inv_def)
  have eid: "e \<in> ids q" using e ids_map_of [OF maps] by blast
  have B: "count_list (te_blocks (v2_heap q e)) i = count (mset (te_isBlockedBy (v2_heap q i))) e"
    using links_okD(2) [OF links i, of e] eid by (simp add: count_mset)
  then show cnt: "count (mset (te_isBlockedBy (v2_heap q' i))) j = (if j = e then 0 else count (mset (te_isBlockedBy (v2_heap q i))) j)" for j
    unfolding sh(6) by simp
  show st: "set (te_isBlockedBy (v2_heap q' i)) = set (te_isBlockedBy (v2_heap q i)) - {e}"
  proof (rule set_eqI)
    show "x \<in> set (te_isBlockedBy (v2_heap q' i)) \<longleftrightarrow> x \<in> set (te_isBlockedBy (v2_heap q i)) - {e}" for x
      unfolding Diff_iff in_set_count cnt by simp
  qed
  show mem: "i \<in> set (te_blocks (v2_heap q e)) \<longleftrightarrow> e \<in> set (te_isBlockedBy (v2_heap q i))"
    using B by (metis count_list_0_iff count_mset)
  note f = sh(7) [of i]
  show "te_participants (v2_heap q' i) = te_participants (v2_heap q i)" "te_hash (v2_heap q' i) = te_hash (v2_heap q i)"
    "te_tx (v2_heap q' i) = te_tx (v2_heap q i)" "te_blocks (v2_heap q' i) = te_blocks (v2_heap q i)"
    using arg_cong [OF f, of te_participants] arg_cong [OF f, of te_hash] arg_cong [OF f, of te_tx] arg_cong [OF f, of te_blocks] by simp_all
  have "te_isBlockedBy (v2_heap q i) = [] \<longleftrightarrow> te_state (v2_heap q i) \<noteq> stateWaiting" by (rule links_okD(1) [OF links i])
  moreover have "te_isBlockedBy (v2_heap q i) = [] \<longleftrightarrow> e \<notin> set (te_isBlockedBy (v2_heap q i))" if "te_isBlockedBy (v2_heap q' i) = []"
  proof -
    have "set (te_isBlockedBy (v2_heap q i)) - {e} = {}" unfolding st [symmetric] that by simp
    then show ?thesis by (cases "te_isBlockedBy (v2_heap q i)") auto
  qed
  ultimately have "i \<in> set (te_blocks (v2_heap q e)) \<and> te_isBlockedBy (v2_heap q' i) = [] \<longleftrightarrow>
      te_state (v2_heap q i) = stateWaiting \<and> te_isBlockedBy (v2_heap q' i) = []"
    unfolding mem by blast
  then show "te_state (v2_heap q' i) = (if te_state (v2_heap q i) = stateWaiting \<and> te_isBlockedBy (v2_heap q' i) = [] then stateReady
           else te_state (v2_heap q i))"
    using arg_cong [OF f, of te_state] by simp
qed

lemma complete_maps:
  assumes inv: "v2_inv q" and e: "map_of (v2_hashMap q) h = Some e"
  shows "maps_ok (V2_Complete q h)"
proof -
  note sh = complete_shape [OF inv e] and hp = complete_heap [OF inv e]
  have maps: "maps_ok q" using inv by (simp add: v2_inv_def)
  have sub: "set (AList.delete h (v2_hashMap q)) \<subseteq> set (v2_hashMap q)" by (auto simp: AList.delete_eq)
  have "distinct (map fst (AList.delete h (v2_hashMap q)))" using maps by (intro distinct_delete) (simp add: maps_ok_def)
  moreover have "i < v2_next q \<and> te_hash (v2_heap (V2_Complete q h) i) = g"
    if gi: "(g, i) \<in> set (AList.delete h (v2_hashMap q))" for g i
  proof -
    have "(g, i) \<in> set (v2_hashMap q)" using gi sub by blast
    then have "i < v2_next q" "te_hash (v2_heap q i) = g" using maps by (auto simp: maps_ok_def)
    then show ?thesis using hp(5) [of i] by simp
  qed
  moreover have "te_hash (v2_heap (V2_Complete q h) i) = tx_hash (te_tx (v2_heap (V2_Complete q h) i)) \<and>
      distinct (te_participants (v2_heap (V2_Complete q h) i))" if "i < v2_next q" for i
    using that hp(4-6) [OF that] maps by (simp add: maps_ok_def)
  moreover have "distinct (v2_participantMap (V2_Complete q h) a) \<and> set (v2_participantMap (V2_Complete q h) a) =
      {i \<in> ids q - {e}. a \<in> set (te_participants (v2_heap (V2_Complete q h) i))}" for a
  proof -
    have d: "distinct (v2_participantMap q a)" "set (v2_participantMap q a) = {i \<in> ids q. a \<in> set (te_participants (v2_heap q i))}"
      using maps by (auto simp: maps_ok_def)
    have "{i \<in> ids q - {e}. a \<in> set (te_participants (v2_heap (V2_Complete q h) i))} = {i \<in> ids q - {e}. a \<in> set (te_participants (v2_heap q i))}"
      using hp(4) ids_less [OF maps] by auto
    then show ?thesis unfolding sh(5) using d set_removeFromSlice [OF d(1), of e] distinct_removeFromSlice [OF d(1), of e] by auto
  qed
  ultimately show ?thesis unfolding maps_ok_def sh(1-3) by blast
qed

lemma complete_promoted:
  assumes inv: "v2_inv q" and e: "map_of (v2_hashMap q) h = Some e"
  shows "{i \<in> set (te_blocks (v2_heap q e)). te_isBlockedBy (v2_heap (V2_Complete q h) i) = []} =
    {i. i < v2_next q \<and> te_state (v2_heap q i) = stateWaiting \<and> te_isBlockedBy (v2_heap (V2_Complete q h) i) = []}"
proof (rule set_eqI)
  fix i
  let ?q' = "V2_Complete q h"
  note hp = complete_heap [OF inv e]
  have maps: "maps_ok q" and links: "links_ok q" using inv by (simp_all add: v2_inv_def)
  have eid: "e \<in> ids q" using e ids_map_of [OF maps] by blast
  show "i \<in> {i \<in> set (te_blocks (v2_heap q e)). te_isBlockedBy (v2_heap ?q' i) = []} \<longleftrightarrow>
    i \<in> {i. i < v2_next q \<and> te_state (v2_heap q i) = stateWaiting \<and> te_isBlockedBy (v2_heap ?q' i) = []}"
  proof (cases "i < v2_next q")
    case True
    have "te_isBlockedBy (v2_heap ?q' i) = [] \<longleftrightarrow> set (te_isBlockedBy (v2_heap q i)) \<subseteq> {e}" using hp(2) [OF True] by (simp flip: set_empty)
    then show ?thesis using hp(3) [OF True] links_okD(1) [OF links True] True by (cases "te_isBlockedBy (v2_heap q i)") auto
  next
    case False
    then show ?thesis using links_okD(3) [OF links eid, of i] by auto
  qed
qed

lemma complete_lists:
  assumes inv: "v2_inv q" and e: "map_of (v2_hashMap q) h = Some e"
  shows "lists_ok (V2_Complete q h)"
proof -
  let ?q' = "V2_Complete q h"
  note sh = complete_shape [OF inv e] and hp = complete_heap [OF inv e]
  have maps: "maps_ok q" and lists: "lists_ok q" and links: "links_ok q" using inv by (simp_all add: v2_inv_def)
  have L: "distinct (v2_readyList q)" "distinct (v2_waitingList q)"
    "set (v2_readyList q) = {i. i < v2_next q \<and> te_state (v2_heap q i) = stateReady}"
    "set (v2_waitingList q) = {i. i < v2_next q \<and> te_state (v2_heap q i) = stateWaiting}" using lists by (auto simp: lists_ok_def)
  obtain P where P: "distinct P" "set P = {i \<in> set (te_blocks (v2_heap q e)). te_isBlockedBy (v2_heap ?q' i) = []}"
    "v2_readyList ?q' = v2_readyList q @ P" "v2_waitingList ?q' = filter (\<lambda>i. i \<notin> set P) (v2_waitingList q)" using sh(8) by blast
  note sP = P(2) [unfolded complete_promoted [OF inv e]]
  have "set (v2_readyList ?q') = {i. i < v2_next q \<and> te_state (v2_heap ?q' i) = stateReady}"
    unfolding P(3) set_append L(3) sP using hp(8) by (auto split: if_splits)
  moreover have "set (v2_waitingList ?q') = {i. i < v2_next q \<and> te_state (v2_heap ?q' i) = stateWaiting}"
    unfolding P(4) set_filter L(4) sP using hp(8) by (auto split: if_splits)
  moreover have "distinct (v2_readyList ?q')" "distinct (v2_waitingList ?q')"
    unfolding P(3,4) using L P(1) sP by auto
  moreover have "v2_pendingMap ?q' g \<noteq> None" if g: "map_of (v2_hashMap ?q') g = Some i" "te_state (v2_heap ?q' i) = statePending" for g i
  proof -
    have g': "map_of (v2_hashMap q) g = Some i" "g \<noteq> h" using g(1) unfolding sh(2) delete_conv by (auto split: if_splits)
    then have "i < v2_next q" using ids_map_of [OF maps] ids_less [OF maps] by blast
    then have "te_state (v2_heap q i) = statePending" using hp(8) [of i] g(2) by (auto split: if_splits)
    then show ?thesis using g' lists unfolding sh(4) by (auto simp: lists_ok_def)
  qed
  ultimately show ?thesis unfolding lists_ok_def sh(3) by blast
qed

lemma complete_links:
  assumes inv: "v2_inv q" and e: "map_of (v2_hashMap q) h = Some e"
  shows "links_ok (V2_Complete q h)"
proof -
  let ?q' = "V2_Complete q h"
  note sh = complete_shape [OF inv e] and hp = complete_heap [OF inv e]
  have maps: "maps_ok q" and lists: "lists_ok q" and links: "links_ok q" using inv by (simp_all add: v2_inv_def)
  have w: "\<forall>i \<in> set (v2_waitingList q). i < v2_next q" using lists by (auto simp: lists_ok_def)
  note L = links_okD [OF links]
  have "te_isBlockedBy (v2_heap ?q' i) = [] \<longleftrightarrow> te_state (v2_heap ?q' i) \<noteq> stateWaiting" if "i < v2_next q" for i
  proof (cases "te_state (v2_heap q i) = stateWaiting")
    case True
    then show ?thesis using hp(8) [of i] that by simp
  next
    case False
    then have "te_isBlockedBy (v2_heap q i) = []" using L(1) [of i] that by simp
    then have "te_isBlockedBy (v2_heap ?q' i) = []" using hp(2) [of i] that by simp
    then show ?thesis using False hp(8) [of i] that by simp
  qed
  moreover have "count (mset (te_isBlockedBy (v2_heap ?q' i))) j = (if j \<in> ids q - {e} then count (mset (te_blocks (v2_heap ?q' j))) i else 0)"
    if "i < v2_next q" for i j
    using L(2) [of i j] hp(1) [of i j] hp(7) [of j] ids_less [OF maps, of j] that by (auto split: if_splits)
  moreover have "i < v2_next q" if "j \<in> ids q - {e}" "i \<in> set (te_blocks (v2_heap ?q' j))" for i j
    using that L(3) [of j i] hp(7) [OF ids_less [OF maps, of j]] by simp
  moreover have "linked (v2_heap ?q') i j" if ij: "i \<in> ids q - {e}" "j \<in> ids q - {e}" "i \<noteq> j" "share (v2_heap ?q') i j" for i j
  proof -
    have l: "i < v2_next q" "j < v2_next q" using ij ids_less [OF maps] by simp_all
    have "share (v2_heap q) i j" using ij(4) hp(4) l by (simp add: share_def)
    then have "linked (v2_heap q) i j" using L(4) [of i j] ij by simp
    then show ?thesis using ij hp(2) [OF l(1)] hp(2) [OF l(2)] by (auto simp: linked_def)
  qed
  moreover have "sorted_wrt (\<lambda>a b. a \<notin> set (te_isBlockedBy (v2_heap ?q' b))) (v2_waitingList ?q')"
  proof -
    obtain P where P: "v2_waitingList ?q' = filter (\<lambda>i. i \<notin> set P) (v2_waitingList q)" using sh(8) by blast
    have sub: "a \<notin> set (te_isBlockedBy (v2_heap ?q' b))"
      if "a \<in> set (v2_waitingList ?q')" "b \<in> set (v2_waitingList ?q')" "a \<notin> set (te_isBlockedBy (v2_heap q b))" for a b
      using that w P hp(2) [of b] by auto
    have old: "sorted_wrt (\<lambda>a b. a \<notin> set (te_isBlockedBy (v2_heap q b))) (v2_waitingList ?q')"
      unfolding P by (rule sorted_wrt_filter [OF L(5)])
    show ?thesis by (rule sorted_wrt_mono_rel [OF _ old]) (rule sub)
  qed
  moreover have "i \<notin> set (te_isBlockedBy (v2_heap ?q' i))" if "i < v2_next q" for i
    using L(6) [OF that] hp(2) [OF that] by simp
  ultimately show ?thesis unfolding links_ok_def sh(1,3) by blast
qed

section \<open>Every sequence of calls\<close>

definition v2_take :: "txqueuev2 \<Rightarrow> (eth_tx \<times> txqueuev2) option" where
  "v2_take q = (case V2_Dequeue q of Some (Some tx, q') \<Rightarrow> Some (tx, q') | _ \<Rightarrow> None)"

lemma v2_take_iff: "v2_take q = Some (tx, q') \<longleftrightarrow> V2_Dequeue q = Some (Some tx, q')"
  by (auto simp: v2_take_def split: option.splits prod.splits)

text \<open>The invariant with the participants of every entry: those of its own transaction.\<close>

definition v2_gen :: "(eth_tx \<Rightarrow> address option) \<Rightarrow> txqueuev2 \<Rightarrow> bool" where
  "v2_gen sender q \<longleftrightarrow> v2_inv q \<and>
     (\<forall>i < v2_next q. te_participants (v2_heap q i) = participantsForTx sender (te_tx (v2_heap q i)))"

lemma v2_genD: "v2_gen sender q \<Longrightarrow> v2_inv q"
  by (simp add: v2_gen_def)

lemma v2_gen_new: "v2_gen sender (NewTxQueueV2 d)"
  using v2_new [of d] by (simp add: v2_gen_def NewTxQueueV2_def)

lemma v2_gen_enqueue:
  assumes gen: "v2_gen sender q" and q': "V2_Enqueue sender q tx = Inr q'"
  shows "v2_gen sender q'"
proof -
  note sh = enqueue_shape [OF v2_genD [OF gen] q']
  have "te_participants (v2_heap q' i) = participantsForTx sender (te_tx (v2_heap q' i))" if "i < v2_next q'" for i
  proof (cases "i = v2_next q")
    case True
    then show ?thesis using sh(8) by simp
  next
    case False
    then have "i < v2_next q" using that sh(4) by simp
    then show ?thesis using sh(9) [of i] gen by (simp add: v2_gen_def)
  qed
  then show ?thesis using v2_enqueue_inv [OF v2_genD [OF gen] q'] by (simp add: v2_gen_def)
qed

lemma v2_gen_dequeue:
  assumes gen: "v2_gen sender q" and q': "V2_Dequeue q = Some (Some tx, q')"
  shows "v2_gen sender q'"
proof -
  have "te_participants (v2_heap q' i) = te_participants (v2_heap q i)" "te_tx (v2_heap q' i) = te_tx (v2_heap q i)"
    "v2_next q' = v2_next q" for i
    by (rule dequeue_shape [OF v2_genD [OF gen] q']; simp)+
  then show ?thesis using gen v2_dequeue_inv [OF v2_genD [OF gen] q'] by (simp add: v2_gen_def)
qed

lemma complete_untracked:
  "map_of (v2_hashMap q) h = None \<Longrightarrow> V2_Complete q h = q\<lparr>v2_pendingMap := (v2_pendingMap q)(h := None)\<rparr>"
  by (simp add: V2_Complete_def completeUnlocked_def)

lemma v2_gen_complete:
  assumes gen: "v2_gen sender q"
  shows "v2_gen sender (V2_Complete q h)"
proof (cases "map_of (v2_hashMap q) h")
  case None
  let ?q' = "q\<lparr>v2_pendingMap := (v2_pendingMap q)(h := None)\<rparr>"
  have "maps_ok ?q'" "lists_ok ?q'" "links_ok ?q'"
    using v2_genD [OF gen] None by (auto simp: v2_inv_def maps_ok_def lists_ok_def links_ok_def ids_def)
  then show ?thesis using gen by (simp add: complete_untracked [OF None] v2_gen_def v2_inv_def)
next
  case (Some e)
  note inv = v2_genD [OF gen]
  have "v2_inv (V2_Complete q h)"
    unfolding v2_inv_def by (intro conjI complete_maps [OF inv Some] complete_lists [OF inv Some] complete_links [OF inv Some])
  then show ?thesis using gen complete_shape(3) [OF inv Some] complete_heap(4,6) [OF inv Some] by (simp add: v2_gen_def)
qed

text \<open>The hashes of all entries ever allocated, and of those that were handed out.\<close>

definition all_hashes :: "txqueuev2 \<Rightarrow> hash multiset" where
  "all_hashes q = image_mset (\<lambda>i. te_hash (v2_heap q i)) (mset_set {i. i < v2_next q})"

definition taken_hashes :: "txqueuev2 \<Rightarrow> hash multiset" where
  "taken_hashes q = image_mset (\<lambda>i. te_hash (v2_heap q i)) (mset_set {i. i < v2_next q \<and> te_state (v2_heap q i) = statePending})"

lemma hashes_cong:
  fixes q q' :: txqueuev2
  assumes "\<And>i. i < n \<Longrightarrow> te_hash (v2_heap q' i) = te_hash (v2_heap q i)" and "A \<subseteq> {i. i < n}"
  shows "image_mset (\<lambda>i. te_hash (v2_heap q' i)) (mset_set A) = image_mset (\<lambda>i. te_hash (v2_heap q i)) (mset_set A)"
proof (rule image_mset_cong)
  fix i assume "i \<in># mset_set A"
  moreover have "finite A" using assms(2) finite_subset by blast
  ultimately show "te_hash (v2_heap q' i) = te_hash (v2_heap q i)" using assms by auto
qed

lemma enqueue_hashes:
  assumes gen: "v2_gen sender q" and q': "V2_Enqueue sender q tx = Inr q'"
  shows "all_hashes q' = add_mset (tx_hash tx) (all_hashes q) \<and> taken_hashes q' = taken_hashes q"
proof -
  note sh = enqueue_shape [OF v2_genD [OF gen] q']
  have old: "te_hash (v2_heap q' i) = te_hash (v2_heap q i)" "te_state (v2_heap q' i) = te_state (v2_heap q i)" if "i < v2_next q" for i
    using sh(9) [OF that] by simp_all
  have new: "te_hash (v2_heap q' (v2_next q)) = tx_hash tx" "te_state (v2_heap q' (v2_next q)) \<noteq> statePending"
    using sh(8) by simp_all
  have "{i. i < v2_next q'} = insert (v2_next q) {i. i < v2_next q}" using sh(4) by auto
  moreover have "{i. i < v2_next q' \<and> te_state (v2_heap q' i) = statePending} = {i. i < v2_next q \<and> te_state (v2_heap q i) = statePending}"
    using sh(4) old(2) new(2) by (auto simp: less_Suc_eq)
  moreover note hashes_cong [where n = "v2_next q", OF old(1)]
  ultimately show ?thesis using new(1) unfolding all_hashes_def taken_hashes_def by (simp add: subset_iff)
qed

lemma dequeue_hashes:
  assumes gen: "v2_gen sender q" and q': "V2_Dequeue q = Some (Some tx, q')"
  shows "all_hashes q' = all_hashes q \<and> taken_hashes q' = add_mset (tx_hash tx) (taken_hashes q)"
proof -
  obtain e rest where e: "v2_readyList q = e # rest" "e < v2_next q" "e \<notin> set rest" "te_state (v2_heap q e) = stateReady"
    "tx = te_tx (v2_heap q e)" "te_hash (v2_heap q e) = tx_hash tx"
    "q' = q\<lparr>v2_readyList := rest, v2_heap := (v2_heap q)(e := (v2_heap q e)\<lparr>te_state := statePending\<rparr>),
              v2_pendingMap := (v2_pendingMap q)(tx_hash tx \<mapsto> tx)\<rparr>"
    by (rule dequeue_shape [OF v2_genD [OF gen] q'])
  let ?T = "{i. i < v2_next q \<and> te_state (v2_heap q i) = statePending}"
  have "te_hash (v2_heap q' i) = te_hash (v2_heap q i)" for i using e(7) by simp
  moreover have "v2_next q' = v2_next q" using e(7) by simp
  moreover have "{i. i < v2_next q \<and> te_state (v2_heap q' i) = statePending} = insert e ?T" using e(2,7) by auto
  moreover have "finite ?T" "e \<notin> ?T" using e(4) by simp_all
  ultimately show ?thesis using e(6) by (simp add: all_hashes_def taken_hashes_def)
qed

lemma complete_hashes:
  assumes gen: "v2_gen sender q"
  shows "all_hashes (V2_Complete q h) = all_hashes q \<and> taken_hashes (V2_Complete q h) = taken_hashes q"
proof (cases "map_of (v2_hashMap q) h")
  case None
  then show ?thesis by (simp add: complete_untracked all_hashes_def taken_hashes_def)
next
  case (Some e)
  note sh = complete_shape(3) [OF v2_genD [OF gen] Some] and hp = complete_heap(5,8) [OF v2_genD [OF gen] Some]
  have "{i. i < v2_next q \<and> te_state (v2_heap (V2_Complete q h) i) = statePending} = {i. i < v2_next q \<and> te_state (v2_heap q i) = statePending}"
    using hp(2) by (auto split: if_splits)
  moreover note hashes_cong [where n = "v2_next q", OF hp(1)]
  ultimately show ?thesis unfolding all_hashes_def taken_hashes_def sh by (simp add: subset_iff)
qed

lemma v2_run_gen:
  assumes "v2_gen sender q" and "q_run (V2_Enqueue sender) v2_take V2_Complete q xs = (es, q')"
  shows "v2_gen sender q' \<and> all_hashes q' = all_hashes q + mset (admitted es) \<and> taken_hashes q' = taken_hashes q + mset (handed es)"
  using assms
proof (induction xs arbitrary: q es)
  case (Cons x xs)
  show ?case
  proof (cases x)
    case (QEnqueue tx)
    show ?thesis
    proof (cases "V2_Enqueue sender q tx")
      case (Inl a)
      then obtain es1 where "q_run (V2_Enqueue sender) v2_take V2_Complete q xs = (es1, q')" "es = Refused (tx_hash tx) # es1"
        using Cons.prems(2) QEnqueue by (auto split: prod.splits)
      then show ?thesis using Cons.IH [OF Cons.prems(1)] by simp
    next
      case (Inr q1)
      then obtain es1 where "q_run (V2_Enqueue sender) v2_take V2_Complete q1 xs = (es1, q')" "es = Admitted (tx_hash tx) # es1"
        using Cons.prems(2) QEnqueue by (auto split: prod.splits)
      then show ?thesis using Cons.IH [OF v2_gen_enqueue [OF Cons.prems(1) Inr]] enqueue_hashes [OF Cons.prems(1) Inr] by simp
    qed
  next
    case QDequeue
    show ?thesis
    proof (cases "v2_take q")
      case None
      then obtain es1 where "q_run (V2_Enqueue sender) v2_take V2_Complete q xs = (es1, q')" "es = Idle # es1"
        using Cons.prems(2) QDequeue by (auto split: prod.splits)
      then show ?thesis using Cons.IH [OF Cons.prems(1)] by simp
    next
      case (Some p)
      then obtain tx q1 es1 where d: "v2_take q = Some (tx, q1)"
        and es1: "q_run (V2_Enqueue sender) v2_take V2_Complete q1 xs = (es1, q')" "es = Handed (tx_hash tx) # es1"
        using Cons.prems(2) QDequeue by (cases p) (auto split: prod.splits)
      note d' = d [unfolded v2_take_iff]
      show ?thesis
        using Cons.IH [OF v2_gen_dequeue [OF Cons.prems(1) d'] es1(1)] dequeue_hashes [OF Cons.prems(1) d'] es1(2) by simp
    qed
  next
    case (QComplete k)
    then obtain es1 where "q_run (V2_Enqueue sender) v2_take V2_Complete (V2_Complete q k) xs = (es1, q')" "es = Done k # es1"
      using Cons.prems(2) by (auto split: prod.splits)
    then show ?thesis using Cons.IH [OF v2_gen_complete [OF Cons.prems(1)]] complete_hashes [OF Cons.prems(1), of k] by simp
  qed
qed simp

lemma v2_run_new:
  assumes "q_run (V2_Enqueue sender) v2_take V2_Complete (NewTxQueueV2 d) xs = (es, q)"
  shows "v2_gen sender q" "mset (handed es) \<subseteq># mset (admitted es)"
proof -
  note run = v2_run_gen [OF v2_gen_new assms]
  have new: "all_hashes (NewTxQueueV2 d) = {#}" "taken_hashes (NewTxQueueV2 d) = {#}"
    by (simp_all add: all_hashes_def taken_hashes_def NewTxQueueV2_def)
  have "taken_hashes q \<subseteq># all_hashes q"
    unfolding all_hashes_def taken_hashes_def by (intro image_mset_subseteq_mono subset_imp_msubset_mset_set) auto
  then show "v2_gen sender q" "mset (handed es) \<subseteq># mset (admitted es)" using run new by simp_all
qed

section \<open>The queue contract\<close>

definition v2_tracked :: "txqueuev2 \<Rightarrow> hash \<rightharpoonup> eth_tx" where
  "v2_tracked q h = map_option (\<lambda>i. te_tx (v2_heap q i)) (map_of (v2_hashMap q) h)"

definition v2_running :: "txqueuev2 \<Rightarrow> hash set" where
  "v2_running q = dom (v2_pendingMap q)"

text \<open>
  While only running or unknown transactions are completed, the entries in the lists are tracked and the
  pending map holds the tracked entries that are running.
\<close>

definition tidy :: "txqueuev2 \<Rightarrow> bool" where
  "tidy q \<longleftrightarrow> (\<forall>i < v2_next q. te_state (v2_heap q i) \<noteq> statePending \<longrightarrow> i \<in> ids q) \<and>
     (\<forall>h. v2_pendingMap q h =
        (case map_of (v2_hashMap q) h of
           Some i \<Rightarrow> if te_state (v2_heap q i) = statePending then Some (te_tx (v2_heap q i)) else None
         | None \<Rightarrow> None))"

definition v2_full :: "(eth_tx \<Rightarrow> address option) \<Rightarrow> txqueuev2 \<Rightarrow> bool" where
  "v2_full sender q \<longleftrightarrow> v2_gen sender q \<and> tidy q"

lemma v2_fullD: "v2_full sender q \<Longrightarrow> v2_gen sender q" "v2_full sender q \<Longrightarrow> v2_inv q" "v2_full sender q \<Longrightarrow> maps_ok q"
  by (simp_all add: v2_full_def v2_gen_def v2_inv_def)

lemma tracked_eqI:
  assumes "maps_ok q" and "v2_hashMap q' = v2_hashMap q" and "\<And>i. i \<in> ids q \<Longrightarrow> te_tx (v2_heap q' i) = te_tx (v2_heap q i)"
  shows "v2_tracked q' = v2_tracked q"
proof
  fix h
  show "v2_tracked q' h = v2_tracked q h"
  proof (cases "map_of (v2_hashMap q) h")
    case (Some i)
    then have "i \<in> ids q" using ids_map_of [OF assms(1)] by blast
    then show ?thesis using Some assms(2,3) by (simp add: v2_tracked_def)
  qed (use assms(2) in \<open>simp add: v2_tracked_def\<close>)
qed

lemma map_of_less: "maps_ok q \<Longrightarrow> map_of (v2_hashMap q) h = Some i \<Longrightarrow> i \<in> ids q \<and> i < v2_next q"
  using ids_map_of ids_less by blast

lemma tidy_enqueue:
  assumes full: "v2_full sender q" and q': "V2_Enqueue sender q tx = Inr q'"
  shows "tidy q'"
proof -
  note sh = enqueue_shape [OF v2_fullD(2) [OF full] q'] and less = map_of_less [OF v2_fullD(3) [OF full]]
  have old: "te_state (v2_heap q' i) = te_state (v2_heap q i)" "te_tx (v2_heap q' i) = te_tx (v2_heap q i)" if "i < v2_next q" for i
    using sh(9) [OF that] by simp_all
  have t: "te_state (v2_heap q i) \<noteq> statePending \<Longrightarrow> i < v2_next q \<Longrightarrow> i \<in> ids q" for i
    using full by (simp add: v2_full_def tidy_def)
  have p: "v2_pendingMap q g = (case map_of (v2_hashMap q) g of
           Some i \<Rightarrow> if te_state (v2_heap q i) = statePending then Some (te_tx (v2_heap q i)) else None
         | None \<Rightarrow> None)" for g
    using full by (simp add: v2_full_def tidy_def)
  have "v2_pendingMap q' g = (case map_of (v2_hashMap q') g of
           Some i \<Rightarrow> if te_state (v2_heap q' i) = statePending then Some (te_tx (v2_heap q' i)) else None
         | None \<Rightarrow> None)" for g
  proof (cases "map_of (v2_hashMap q) g")
    case None
    then have "v2_pendingMap q' g = None" using p [of g] sh(5) by simp
    then show ?thesis using None sh(6,8) by (auto simp: map_add_def split: option.splits)
  next
    case (Some i)
    have "g \<noteq> tx_hash tx" using Some sh(1) by auto
    then have "map_of (v2_hashMap q') g = Some i" using Some sh(6) by (simp add: map_add_def)
    then show ?thesis using Some p [of g] sh(5) old [of i] less [OF Some] by simp
  qed
  moreover have "i \<in> ids q'" if "i < v2_next q'" "te_state (v2_heap q' i) \<noteq> statePending" for i
    using that sh(3,4) old(1) [of i] t [of i] by (cases "i = v2_next q") simp_all
  ultimately show ?thesis by (simp add: tidy_def)
qed

lemma v2_enq_law:
  assumes full: "v2_full sender q" and q': "V2_Enqueue sender q tx = Inr q'"
  shows "v2_tracked q (tx_hash tx) = None \<and> v2_full sender q' \<and> v2_tracked q' = (v2_tracked q)(tx_hash tx \<mapsto> tx) \<and>
    v2_running q' = v2_running q"
proof -
  note sh = enqueue_shape [OF v2_fullD(2) [OF full] q']
  have "v2_tracked q' h = ((v2_tracked q)(tx_hash tx \<mapsto> tx)) h" for h
  proof (cases "map_of (v2_hashMap q) h")
    case None
    then show ?thesis using sh(6,8) by (simp add: v2_tracked_def map_add_def)
  next
    case (Some i)
    then have i: "i < v2_next q" using map_of_less [OF v2_fullD(3) [OF full]] by blast
    moreover have "h \<noteq> tx_hash tx" using Some sh(1) by auto
    ultimately show ?thesis using Some sh(6) sh(9) [OF i] by (simp add: v2_tracked_def map_add_def)
  qed
  moreover have "v2_full sender q'"
    using v2_gen_enqueue [OF v2_fullD(1) [OF full] q'] tidy_enqueue [OF full q'] by (simp add: v2_full_def)
  ultimately show ?thesis using sh(1,5) by (auto simp: v2_running_def v2_tracked_def)
qed

lemma v2_deq_law:
  assumes full: "v2_full sender q" and q': "v2_take q = Some (tx, q')"
  shows "v2_full sender q' \<and> v2_tracked q' = v2_tracked q \<and> v2_tracked q (tx_hash tx) = Some tx \<and> tx_hash tx \<notin> v2_running q \<and>
    v2_running q' = insert (tx_hash tx) (v2_running q)"
proof -
  note maps = v2_fullD(3) [OF full] and q'' = q' [unfolded v2_take_iff]
  obtain e rest where e: "v2_readyList q = e # rest" "e < v2_next q" "e \<notin> set rest" "te_state (v2_heap q e) = stateReady"
    "tx = te_tx (v2_heap q e)" "te_hash (v2_heap q e) = tx_hash tx"
    "q' = q\<lparr>v2_readyList := rest, v2_heap := (v2_heap q)(e := (v2_heap q e)\<lparr>te_state := statePending\<rparr>),
              v2_pendingMap := (v2_pendingMap q)(tx_hash tx \<mapsto> tx)\<rparr>"
    by (rule dequeue_shape [OF v2_fullD(2) [OF full] q''])
  have tidy: "tidy q" using full by (simp add: v2_full_def)
  then have "e \<in> ids q" using e(2,4) by (simp add: tidy_def)
  then have m: "map_of (v2_hashMap q) (tx_hash tx) = Some e" using e(6) ids_map_of [OF maps] by simp
  have ne: "map_of (v2_hashMap q) h \<noteq> Some e" if "h \<noteq> tx_hash tx" for h using that ids_map_of [OF maps] e(6) by simp
  have "tidy q'" unfolding tidy_def
  proof (intro conjI allI impI)
    show "i \<in> ids q'" if "i < v2_next q'" "te_state (v2_heap q' i) \<noteq> statePending" for i
      using that tidy e(7) by (simp add: tidy_def ids_def split: if_splits)
    show "v2_pendingMap q' h = (case map_of (v2_hashMap q') h of
           Some i \<Rightarrow> if te_state (v2_heap q' i) = statePending then Some (te_tx (v2_heap q' i)) else None
         | None \<Rightarrow> None)" for h
      using tidy m ne [of h] e(5,7) by (cases "h = tx_hash tx") (auto simp: tidy_def split: option.splits)
  qed
  moreover have "v2_tracked q' = v2_tracked q" by (rule tracked_eqI [OF maps]) (simp_all add: e(7))
  moreover have "v2_pendingMap q (tx_hash tx) = None" using tidy e(4) m by (simp add: tidy_def)
  ultimately show ?thesis using v2_gen_dequeue [OF v2_fullD(1) [OF full] q''] e(5,7) m
    by (simp add: v2_full_def v2_tracked_def v2_running_def domIff)
qed

lemma tidy_complete:
  assumes full: "v2_full sender q" and h: "map_of (v2_hashMap q) h = Some e" and e: "te_state (v2_heap q e) = statePending"
  shows "tidy (V2_Complete q h)"
proof -
  note sh = complete_shape [OF v2_fullD(2) [OF full] h] and hp = complete_heap [OF v2_fullD(2) [OF full] h]
  have tidy: "tidy q" using full by (simp add: v2_full_def)
  have st: "te_state (v2_heap (V2_Complete q h) i) = statePending \<longleftrightarrow> te_state (v2_heap q i) = statePending" if "i < v2_next q" for i
    using hp(8) [OF that] by (auto split: if_splits)
  have "i \<in> ids q - {e}" if "i < v2_next q" "te_state (v2_heap (V2_Complete q h) i) \<noteq> statePending" for i
    using that st [OF that(1)] tidy e by (auto simp: tidy_def)
  moreover have "v2_pendingMap (V2_Complete q h) g = (case map_of (v2_hashMap (V2_Complete q h)) g of
           Some i \<Rightarrow> if te_state (v2_heap (V2_Complete q h) i) = statePending then Some (te_tx (v2_heap (V2_Complete q h) i)) else None
         | None \<Rightarrow> None)" for g
  proof (cases "map_of (v2_hashMap q) g")
    case None
    then show ?thesis using tidy unfolding sh(2,4) delete_conv by (simp add: tidy_def)
  next
    case (Some i)
    then have i: "i < v2_next q" using map_of_less [OF v2_fullD(3) [OF full]] by blast
    show ?thesis using tidy Some hp(6) [OF i] st [OF i] unfolding sh(2,4) delete_conv by (simp add: tidy_def)
  qed
  ultimately show ?thesis unfolding tidy_def sh(1,3) by blast
qed

lemma v2_finish_law:
  assumes full: "v2_full sender q" and h: "h \<in> v2_running q \<or> v2_tracked q h = None"
  shows "v2_full sender (V2_Complete q h) \<and> v2_tracked (V2_Complete q h) = (v2_tracked q)(h := None) \<and>
    v2_running (V2_Complete q h) = v2_running q - {h}"
proof (cases "map_of (v2_hashMap q) h")
  case None
  then have p: "v2_pendingMap q h = None" using full by (simp add: v2_full_def tidy_def)
  then have "V2_Complete q h = q" using None by (simp add: complete_untracked fun_upd_idem)
  then show ?thesis using None full p by (auto simp: v2_tracked_def v2_running_def fun_upd_idem)
next
  case (Some e)
  then have "v2_pendingMap q h \<noteq> None" using h by (auto simp: v2_running_def v2_tracked_def)
  then have e: "te_state (v2_heap q e) = statePending" using full Some by (simp add: v2_full_def tidy_def split: if_splits)
  note sh = complete_shape [OF v2_fullD(2) [OF full] Some] and hp = complete_heap [OF v2_fullD(2) [OF full] Some]
  have "v2_tracked (V2_Complete q h) g = ((v2_tracked q)(h := None)) g" for g
  proof (cases "map_of (v2_hashMap q) g")
    case None
    then show ?thesis unfolding v2_tracked_def sh(2) delete_conv by simp
  next
    case (Some i)
    then have "i < v2_next q" using map_of_less [OF v2_fullD(3) [OF full]] by blast
    then show ?thesis using Some hp(6) [of i] unfolding v2_tracked_def sh(2) delete_conv by simp
  qed
  moreover have "v2_running (V2_Complete q h) = v2_running q - {h}" unfolding v2_running_def sh(4) by simp
  ultimately show ?thesis
    using v2_gen_complete [OF v2_fullD(1) [OF full], of h] tidy_complete [OF full Some e] by (auto simp: v2_full_def)
qed

lemma v2_refused: "v2_full sender q \<Longrightarrow> v2_tracked q (tx_hash tx) \<noteq> None \<Longrightarrow> \<exists>e. V2_Enqueue sender q tx = Inl e"
  by (auto simp: v2_tracked_def V2_Enqueue_def)

lemma v2_pending: "v2_full sender q \<Longrightarrow> V2_IsPending q h = v2_tracked q h"
  by (auto simp: v2_full_def tidy_def V2_IsPending_def v2_tracked_def split: option.splits)

lemma v2_inflight:
  assumes "v2_full sender q"
  shows "V2_InFlight q = card (dom (v2_tracked q))"
proof -
  have "distinct (map fst (v2_hashMap q))" using v2_fullD(3) [OF assms] by (simp add: maps_ok_def)
  moreover have "dom (v2_tracked q) = set (map fst (v2_hashMap q))" by (auto simp: v2_tracked_def dom_map_of_conv_image_fst [symmetric] domIff)
  ultimately show ?thesis using distinct_card by (fastforce simp: V2_InFlight_def)
qed

lemma v2_running_tracked:
  assumes "v2_full sender q"
  shows "v2_running q \<subseteq> dom (v2_tracked q)"
proof -
  have "map_of (v2_hashMap q) h \<noteq> None" if "v2_pendingMap q h \<noteq> None" for h
    using that assms by (cases "map_of (v2_hashMap q) h") (auto simp: v2_full_def tidy_def)
  then show ?thesis by (auto simp: v2_running_def v2_tracked_def domIff)
qed

interpretation v2: tx_queue "V2_Enqueue sender" v2_take V2_Complete V2_IsPending V2_InFlight
    "v2_full sender" v2_tracked v2_running
  by unfold_locales
    (rule v2_enq_law v2_refused v2_deq_law v2_finish_law v2_pending v2_inflight v2_running_tracked; assumption)+

section \<open>Exclusion and progress\<close>

lemma v2_full_new: "v2_full sender (NewTxQueueV2 d)" "v2_tracked (NewTxQueueV2 d) = Map.empty"
  using v2_gen_new [of sender d] by (simp_all add: v2_full_def tidy_def v2_tracked_def NewTxQueueV2_def fun_eq_iff)

lemma held_disjoint:
  assumes gen: "v2_gen sender q" and h: "map_of (v2_hashMap q) h = Some i" "map_of (v2_hashMap q) h' = Some j" "h \<noteq> h'"
    and st: "te_state (v2_heap q i) = statePending" "te_state (v2_heap q j) = statePending"
  shows "set (participantsForTx sender (te_tx (v2_heap q i))) \<inter> set (participantsForTx sender (te_tx (v2_heap q j))) = {}"
proof -
  have maps: "maps_ok q" and links: "links_ok q" using v2_genD [OF gen] by (simp_all add: v2_inv_def)
  have ij: "i \<in> ids q" "i < v2_next q" "j \<in> ids q" "j < v2_next q" using map_of_less [OF maps] h by blast+
  have "i \<noteq> j" using h ids_map_of [OF maps] by auto
  moreover have "te_isBlockedBy (v2_heap q i) = []" "te_isBlockedBy (v2_heap q j) = []"
    using links_okD(1) [OF links ij(2)] links_okD(1) [OF links ij(4)] st by simp_all
  then have "\<not> linked (v2_heap q) i j" by (simp add: linked_def)
  ultimately have "\<not> share (v2_heap q) i j" using links_okD(4) [OF links ij(1,3)] by blast
  then show ?thesis using gen ij(2,4) by (simp add: share_def v2_gen_def)
qed

lemma tidy_held:
  assumes "v2_full sender q" and "v2_pendingMap q h = Some tx"
  obtains i where "map_of (v2_hashMap q) h = Some i" "te_state (v2_heap q i) = statePending" "te_tx (v2_heap q i) = tx"
proof (cases "map_of (v2_hashMap q) h")
  case None
  then show thesis using assms by (simp add: v2_full_def tidy_def)
next
  case (Some i)
  then show thesis using that [OF Some] assms by (simp add: v2_full_def tidy_def split: if_splits)
qed

lemma never_stuck:
  assumes gen: "v2_gen sender q" and "0 < V2_InFlight q" and ready: "v2_readyList q = []"
  shows "\<exists>h i. map_of (v2_hashMap q) h = Some i \<and> te_state (v2_heap q i) = statePending \<and> v2_pendingMap q h \<noteq> None"
proof (rule ccontr)
  assume no: "\<not> ?thesis"
  have maps: "maps_ok q" and lists: "lists_ok q" and links: "links_ok q" using v2_genD [OF gen] by (simp_all add: v2_inv_def)
  have w: "i \<in> set (v2_waitingList q)" if i: "i \<in> ids q" for i
  proof -
    have h: "map_of (v2_hashMap q) (te_hash (v2_heap q i)) = Some i" using ids_map_of [OF maps] i by simp
    then have "te_state (v2_heap q i) \<noteq> statePending" using no lists by (auto simp: lists_ok_def)
    moreover have "te_state (v2_heap q i) \<noteq> stateReady" using lists ready ids_less [OF maps i] by (auto simp: lists_ok_def)
    ultimately show ?thesis using lists ids_less [OF maps i] by (cases "te_state (v2_heap q i)") (auto simp: lists_ok_def)
  qed
  have "ids q \<noteq> {}" using assms(2) by (auto simp: V2_InFlight_def ids_def)
  then obtain i0 where "i0 \<in> ids q" by auto
  then have "\<exists>x \<in> set (v2_waitingList q). x \<in> ids q" using w by blast
  then obtain us l vs where l: "v2_waitingList q = us @ l # vs" "l \<in> ids q" "\<forall>x \<in> set vs. x \<notin> ids q"
    by (elim split_list_last_propE)
  have ln: "l < v2_next q" by (rule ids_less [OF maps l(2)])
  have "te_state (v2_heap q l) = stateWaiting" using lists l(1) by (auto simp: lists_ok_def)
  then obtain j where j: "j \<in> set (te_isBlockedBy (v2_heap q l))"
    using links_okD(1) [OF links ln] by (cases "te_isBlockedBy (v2_heap q l)") auto
  then have jid: "j \<in> ids q" using links_okD(2) [OF links ln, of j] unfolding in_set_count by (simp split: if_splits)
  moreover have "j \<noteq> l" using links_okD(6) [OF links ln] j by auto
  ultimately have "j \<in> set us" using w [OF jid] l by auto
  then show False using links_okD(5) [OF links] l(1) j by (auto simp: sorted_wrt_append)
qed


text \<open>Two senders: the transactions 1 and 3 have the same one, 2 has the other.\<close>

definition demo_sender :: "eth_tx \<Rightarrow> address option" where
  "demo_sender tx = Some (if tx_nonce tx = 2 then 2 else 1)"

definition demo_entry :: txentry where
  "demo_entry = \<lparr>te_tx = demo_tx 0, te_hash = 0, te_participants = [], te_state = stateReady, te_blocks = [], te_isBlockedBy = []\<rparr>"

lemmas v2_eval = NewTxQueueV2_def V2_Enqueue_def v2_take_def V2_Dequeue_def V2_Complete_def completeUnlocked_def demo_tx_def
  demo_sender_def demo_entry_def participantsForTx_def senderForTx_def recipientForTx_def conflictingTxs_def waitingTxsToBlock_def
  sharing_def removeFromSlice_def

lemma v2_demo_run:
  "\<exists>q. q_run (V2_Enqueue demo_sender) v2_take V2_Complete (NewTxQueueV2 demo_entry)
      [QEnqueue (demo_tx 1), QEnqueue (demo_tx 2), QEnqueue (demo_tx 3), QDequeue, QDequeue, QDequeue] =
    ([Admitted 1, Admitted 2, Admitted 3, Handed 1, Handed 2, Idle], q) \<and>
    v2_pendingMap q 1 = Some (demo_tx 1) \<and> v2_pendingMap q 2 = Some (demo_tx 2) \<and> v2_pendingMap q 3 = None \<and> V2_InFlight q = 3 \<and>
    map_of (v2_hashMap q) 1 = Some 0 \<and> map_of (v2_hashMap q) 2 = Some 1 \<and> te_state (v2_heap q 0) = statePending \<and>
    te_state (v2_heap q 1) = statePending \<and> te_tx (v2_heap q 0) = demo_tx 1 \<and> te_tx (v2_heap q 1) = demo_tx 2"
  by (simp add: v2_eval V2_InFlight_def Let_def)


text \<open>
  C15. No deadlock.  After any sequence of calls on a new queue, completions of transactions no worker has
  taken yet included, while a transaction is in flight either \<open>Dequeue\<close> returns one at once, or one of those
  in flight was handed to a worker and is not completed: the waiting transactions never all block each other.
\<close>

theorem V2_progress:
  assumes "q_run (V2_Enqueue sender) v2_take V2_Complete (NewTxQueueV2 d) xs = (es, q)" and "0 < V2_InFlight q"
  shows "(\<exists>tx q'. V2_Dequeue q = Some (Some tx, q')) \<or>
    (\<exists>h i. map_of (v2_hashMap q) h = Some i \<and> te_state (v2_heap q i) = statePending \<and> v2_pendingMap q h \<noteq> None)"
proof (cases "v2_readyList q")
  case Nil
  then show ?thesis using never_stuck [OF v2_run_new(1) [OF assms(1)] assms(2)] by blast
qed (simp add: V2_Dequeue_def)

theorem V2_progress_witness:
  "\<exists>es q. q_run (V2_Enqueue demo_sender) v2_take V2_Complete (NewTxQueueV2 demo_entry)
      [QEnqueue (demo_tx 1), QEnqueue (demo_tx 2), QEnqueue (demo_tx 3), QDequeue, QDequeue, QDequeue] = (es, q) \<and>
    V2_InFlight q = 3 \<and> ((\<exists>tx q'. V2_Dequeue q = Some (Some tx, q')) \<or>
      (\<exists>h i. map_of (v2_hashMap q) h = Some i \<and> te_state (v2_heap q i) = statePending \<and> v2_pendingMap q h \<noteq> None))"
proof -
  obtain q where q: "q_run (V2_Enqueue demo_sender) v2_take V2_Complete (NewTxQueueV2 demo_entry)
      [QEnqueue (demo_tx 1), QEnqueue (demo_tx 2), QEnqueue (demo_tx 3), QDequeue, QDequeue, QDequeue] =
    ([Admitted 1, Admitted 2, Admitted 3, Handed 1, Handed 2, Idle], q)" "V2_InFlight q = 3"
    using v2_demo_run by blast
  then have "0 < V2_InFlight q" by simp
  then show ?thesis using V2_progress [OF q(1)] q by blast
qed

section \<open>Completion of a transaction that is still queued\<close>

lemma unblock_keeps:
  "unblock e is (H, R, W, k) = (H', R', W', k') \<Longrightarrow>
   (\<exists>P. R' = R @ P) \<and> (\<forall>i. te_tx (H' i) = te_tx (H i) \<and> te_hash (H' i) = te_hash (H i))"
proof (induction "is" arbitrary: H R W k)
  case (Cons i "is")
  show ?case
  proof (cases "removeFromSlice (te_isBlockedBy (H i)) e = []")
    case True
    then show ?thesis using Cons.prems Cons.IH by (fastforce simp: Let_def)
  next
    case False
    then show ?thesis using Cons.prems Cons.IH by (fastforce simp: Let_def)
  qed
qed simp

text \<open>What is left of a queued entry when its transaction is completed: its place in the ready list.\<close>

definition still_ready :: "txqueuev2 \<Rightarrow> txqueuev2 \<Rightarrow> bool" where
  "still_ready q q' \<longleftrightarrow> (\<exists>P. v2_readyList q' = v2_readyList q @ P) \<and>
     (\<forall>i. te_tx (v2_heap q' i) = te_tx (v2_heap q i) \<and> te_hash (v2_heap q' i) = te_hash (v2_heap q i))"

lemma still_ready_trans: "still_ready q q1 \<Longrightarrow> still_ready q1 q2 \<Longrightarrow> still_ready q q2"
  by (auto simp: still_ready_def)

lemma complete_still_ready:
  "still_ready q (snd (completeUnlocked q h)) \<and>
   (\<forall>g. map_of (v2_hashMap (snd (completeUnlocked q h))) g = (if g = h then None else map_of (v2_hashMap q) g)) \<and>
   (\<forall>g. v2_pendingMap (snd (completeUnlocked q h)) g = (if g = h then None else v2_pendingMap q g))"
proof (cases "map_of (v2_hashMap q) h")
  case None
  then show ?thesis by (auto simp: completeUnlocked_def still_ready_def)
next
  case (Some e)
  obtain H R W k where u: "unblock e (te_blocks (v2_heap q e)) (v2_heap q, v2_readyList q, v2_waitingList q, 0) = (H, R, W, k)"
    by (cases "unblock e (te_blocks (v2_heap q e)) (v2_heap q, v2_readyList q, v2_waitingList q, 0)")
  show ?thesis using Some u unblock_keeps [OF u] by (auto simp: completeUnlocked_def still_ready_def delete_conv')
qed

lemma handle_still_ready:
  "still_ready q (V2_handle_txs q txs) \<and>
   (\<forall>g. map_of (v2_hashMap (V2_handle_txs q txs)) g = (if g \<in> (\<lambda>t. BytesToHash (dt_hash t)) ` set txs then None else map_of (v2_hashMap q) g)) \<and>
   (\<forall>g. v2_pendingMap (V2_handle_txs q txs) g = (if g \<in> (\<lambda>t. BytesToHash (dt_hash t)) ` set txs then None else v2_pendingMap q g))"
proof (induction txs arbitrary: q)
  case Nil
  then show ?case by (simp add: still_ready_def)
next
  case (Cons tx txs)
  let ?q = "q\<lparr>v2_total := v2_total q + 1, v2_invalid := (if dt_status tx = 0 then v2_invalid q + 1 else v2_invalid q)\<rparr>"
  define q1 where "q1 = snd (completeUnlocked ?q (BytesToHash (dt_hash tx)))"
  note c = complete_still_ready [of ?q "BytesToHash (dt_hash tx)", folded q1_def]
  have sr: "still_ready q q1" using c by (simp add: still_ready_def)
  have m: "map_of (v2_hashMap q1) g = (if g = BytesToHash (dt_hash tx) then None else map_of (v2_hashMap q) g)"
    "v2_pendingMap q1 g = (if g = BytesToHash (dt_hash tx) then None else v2_pendingMap q g)" for g
    using c by simp_all
  have "V2_handle_txs q (tx # txs) = V2_handle_txs q1 txs" by (simp add: q1_def)
  then show ?case using Cons.IH [of q1] still_ready_trans [OF sr] by (simp add: m)
qed

lemma dequeue_front:
  "k < length (v2_readyList q) \<Longrightarrow> v2_readyList q ! k = e \<Longrightarrow>
   \<exists>es' q2. q_run enq v2_take finish q (replicate (Suc k) QDequeue) = (es' @ [Handed (tx_hash (te_tx (v2_heap q e)))], q2) \<and>
     v2_pendingMap q2 (te_hash (v2_heap q e)) = Some (te_tx (v2_heap q e)) \<and> v2_hashMap q2 = v2_hashMap q"
proof (induction k arbitrary: q)
  case 0
  then show ?case by (cases "v2_readyList q") (simp_all add: v2_take_def V2_Dequeue_def)
next
  case (Suc k)
  then obtain i rest where r: "v2_readyList q = i # rest" by (cases "v2_readyList q") simp_all
  let ?q1 = "q\<lparr>v2_readyList := rest, v2_heap := (v2_heap q)(i := (v2_heap q i)\<lparr>te_state := statePending\<rparr>),
              v2_pendingMap := (v2_pendingMap q)(te_hash (v2_heap q i) \<mapsto> te_tx (v2_heap q i))\<rparr>"
  have t: "v2_take q = Some (te_tx (v2_heap q i), ?q1)" using r by (simp add: v2_take_def V2_Dequeue_def)
  obtain es' q2 where q2: "q_run enq v2_take finish ?q1 (replicate (Suc k) QDequeue) = (es' @ [Handed (tx_hash (te_tx (v2_heap q e)))], q2)"
    "v2_pendingMap q2 (te_hash (v2_heap q e)) = Some (te_tx (v2_heap q e))" "v2_hashMap q2 = v2_hashMap q"
  proof -
    have heap: "te_tx (v2_heap ?q1 e) = te_tx (v2_heap q e)" "te_hash (v2_heap ?q1 e) = te_hash (v2_heap q e)" by simp_all
    have "k < length (v2_readyList ?q1)" "v2_readyList ?q1 ! k = e" using Suc.prems r by simp_all
    from Suc.IH [OF this, unfolded heap] show thesis using that by (elim exE conjE) simp
  qed
  have "q_run enq v2_take finish q (replicate (Suc (Suc k)) QDequeue) =
      ((Handed (tx_hash (te_tx (v2_heap q i))) # es') @ [Handed (tx_hash (te_tx (v2_heap q e)))], q2)"
    using t q2(1) unfolding replicate_Suc [of "Suc k"] by simp
  then show ?case using q2(2,3) by blast
qed



end
