(* ===== verification/NonceGate.thy ===== *)
theory NonceGate
  imports TxQueue
begin

text \<open>
  The nonce gate (\<open>gateway/core/nonce_parking.go\<close>): a sender's next nonce goes to the transaction queue, a
  higher one is parked until the gap fills, a lower one is refused.

  \<open>Admit\<close> gives up the lock while it reads the sender's nonce from the store, so it is two operations:
  \<open>Admit_begin\<close> up to the read and \<open>Admit_seeded\<close> after it, with any operations of other callers between.
  The source's pointer to the sender's entry, held across the read, is the sender's key: a pinned entry is
  never removed (\<open>ng_inv\<close> below), so both name the same entry.  Time is an integer that the caller passes,
  \<open>sender\<close> is \<open>types.Sender\<close>, \<open>enq\<close> the queue's \<open>Enqueue\<close>.  Metrics are not modelled.
\<close>

section \<open>Sender cache\<close>

record expectednonce =
  en_nonce :: u64
  en_known :: bool

definition en_value :: "expectednonce \<Rightarrow> u64 \<times> bool" where
  "en_value e = (en_nonce e, en_known e)"

definition en_raise :: "expectednonce \<Rightarrow> u64 \<Rightarrow> expectednonce" where
  "en_raise e n = (if \<not> en_known e \<or> n > en_nonce e then \<lparr>en_nonce = n, en_known = True\<rparr> else e)"

record parkedtx =
  pk_tx :: eth_tx
  pk_parkedAt :: int

record senderstate =
  ss_next :: expectednonce
  ss_parked :: "(u64 \<times> parkedtx) list"
  ss_lastSeen :: int
  ss_refs :: nat

type_synonym sendercache = "(address \<times> senderstate) list"

definition newSenderState :: senderstate where
  "newSenderState = \<lparr>ss_next = \<lparr>en_nonce = 0, en_known = False\<rparr>, ss_parked = [], ss_lastSeen = 0, ss_refs = 0\<rparr>"

definition sc_lookup :: "sendercache \<Rightarrow> address \<Rightarrow> senderstate" where
  "sc_lookup c from = (case map_of c from of Some ss \<Rightarrow> ss | None \<Rightarrow> newSenderState)"

definition sc_acquire :: "sendercache \<Rightarrow> address \<Rightarrow> sendercache" where
  "sc_acquire c from = AList.update from ((sc_lookup c from)\<lparr>ss_refs := ss_refs (sc_lookup c from) + 1\<rparr>) c"

definition sc_release :: "sendercache \<Rightarrow> address \<Rightarrow> sendercache" where
  "sc_release c from =
     (let ss = (sc_lookup c from)\<lparr>ss_refs := ss_refs (sc_lookup c from) - 1\<rparr> in
      if ss_refs ss > 0 \<or> en_known (ss_next ss) \<or> length (ss_parked ss) > 0 then AList.update from ss c
      else AList.delete from c)"

definition expired :: "int \<Rightarrow> int \<Rightarrow> parkedtx \<Rightarrow> bool" where
  "expired now ttl p \<longleftrightarrow> now - pk_parkedAt p > ttl"

definition expire_sender :: "int \<Rightarrow> int \<Rightarrow> senderstate \<Rightarrow> senderstate" where
  "expire_sender now ttl ss = ss\<lparr>ss_parked := filter (\<lambda>(_, p). \<not> expired now ttl p) (ss_parked ss)\<rparr>"

definition expired_hashes :: "int \<Rightarrow> int \<Rightarrow> sendercache \<Rightarrow> hash set" where
  "expired_hashes now ttl c =
     set (concat (map (\<lambda>(_, ss). map (\<lambda>(_, p). tx_hash (pk_tx p)) (filter (\<lambda>(_, p). expired now ttl p) (ss_parked ss))) c))"

fun find_oldest :: "sendercache \<Rightarrow> (address \<times> int) option \<Rightarrow> (address \<times> int) option" where
  "find_oldest [] old = old"
| "find_oldest ((a, ss) # c) old =
     (if ss_refs ss > 0 \<or> length (ss_parked ss) > 0 then find_oldest c old
      else if (case old of None \<Rightarrow> True | Some (_, t) \<Rightarrow> ss_lastSeen ss < t) then find_oldest c (Some (a, ss_lastSeen ss))
      else find_oldest c old)"

lemma find_oldest_mem:
  "find_oldest c old = Some (a, t) \<Longrightarrow>
     old = Some (a, t) \<or> (\<exists>ss. (a, ss) \<in> set c \<and> ss_refs ss = 0 \<and> ss_parked ss = [] \<and> t = ss_lastSeen ss)"
  by (induction c old rule: find_oldest.induct) (auto split: if_splits)

lemma find_oldest_None: "find_oldest c None = None \<longleftrightarrow> (\<forall>(a, ss) \<in> set c. ss_refs ss > 0 \<or> ss_parked ss \<noteq> [])"
proof -
  have "find_oldest c old = None \<longleftrightarrow> old = None \<and> (\<forall>(a, ss) \<in> set c. ss_refs ss > 0 \<or> ss_parked ss \<noteq> [])" for old
    by (induction c old rule: find_oldest.induct) auto
  then show ?thesis by simp
qed

text \<open>The eviction loop: one pass removes the least recently seen evictable sender.\<close>

function evict :: "nat \<Rightarrow> sendercache \<Rightarrow> sendercache" where
  "evict mx c =
     (if length c > mx
      then (case find_oldest c None of None \<Rightarrow> c | Some (a, _) \<Rightarrow> evict mx (AList.delete a c))
      else c)"
  by pat_completeness auto
termination
proof (relation "measure (\<lambda>(_, c). length c)")
  fix mx :: nat and c x a t
  assume "find_oldest c None = Some x" "(a, t) = x"
  then obtain ss where "(a, ss) \<in> set c" using find_oldest_mem [of c None a t] by auto
  then have "length (filter (\<lambda>(k, _). a \<noteq> k) c) < length c"
    by (intro length_filter_less [of "(a, ss)"]) simp_all
  then show "((mx, AList.delete a c), (mx, c)) \<in> measure (\<lambda>(_, c). length c)" by (simp add: AList.delete_eq)
qed simp

declare evict.simps [simp del]

definition sc_prune :: "sendercache \<Rightarrow> int \<Rightarrow> int \<Rightarrow> nat \<Rightarrow> (hash \<rightharpoonup> eth_tx) \<Rightarrow> sendercache \<times> (hash \<rightharpoonup> eth_tx)" where
  "sc_prune c now ttl mx byHash =
     (evict mx (map (\<lambda>(a, ss). (a, expire_sender now ttl ss)) c), byHash |` (- expired_hashes now ttl c))"

section \<open>The gate\<close>

record noncegate =
  ng_senders :: sendercache
  ng_byHash :: "hash \<rightharpoonup> eth_tx"
  ng_maxPerSender :: nat
  ng_maxSenders :: nat
  ng_ttl :: int

definition defaultMaxParkedPerSender :: nat where
  "defaultMaxParkedPerSender = 64"

definition defaultParkedTTL :: int where
  "defaultParkedTTL = 3 * 60 * 1000000000"

definition defaultMaxSenders :: nat where
  "defaultMaxSenders = 2 ^ 20"

definition newNonceGate :: noncegate where
  "newNonceGate = \<lparr>ng_senders = [], ng_byHash = Map.empty, ng_maxPerSender = defaultMaxParkedPerSender,
     ng_maxSenders = defaultMaxSenders, ng_ttl = defaultParkedTTL\<rparr>"

definition upd_sender :: "noncegate \<Rightarrow> address \<Rightarrow> senderstate \<Rightarrow> noncegate" where
  "upd_sender g from ss = g\<lparr>ng_senders := AList.update from ss (ng_senders g)\<rparr>"

definition ng_park :: "noncegate \<Rightarrow> int \<Rightarrow> address \<Rightarrow> eth_tx \<Rightarrow> noncegate" where
  "ng_park g now from tx =
     (let ss = sc_lookup (ng_senders g) from;
          byHash = (case map_of (ss_parked ss) (tx_nonce tx) of
                      Some old \<Rightarrow> (ng_byHash g)(tx_hash (pk_tx old) := None)
                    | None \<Rightarrow> ng_byHash g)
      in upd_sender (g\<lparr>ng_byHash := byHash(tx_hash tx \<mapsto> tx)\<rparr>) from
           (ss\<lparr>ss_parked := AList.update (tx_nonce tx) \<lparr>pk_tx = tx, pk_parkedAt = now\<rparr> (ss_parked ss)\<rparr>))"

definition ng_unpark :: "noncegate \<Rightarrow> address \<Rightarrow> u64 \<Rightarrow> eth_tx option \<times> noncegate" where
  "ng_unpark g from nonce =
     (let ss = sc_lookup (ng_senders g) from in
      case map_of (ss_parked ss) nonce of
        None \<Rightarrow> (None, g)
      | Some p \<Rightarrow> (Some (pk_tx p),
          upd_sender (g\<lparr>ng_byHash := (ng_byHash g)(tx_hash (pk_tx p) := None)\<rparr>) from
            (ss\<lparr>ss_parked := AList.delete nonce (ss_parked ss)\<rparr>)))"

definition ng_release :: "noncegate \<Rightarrow> address \<Rightarrow> noncegate" where
  "ng_release g from = g\<lparr>ng_senders := sc_release (ng_senders g) from\<rparr>"

subsection \<open>Admit\<close>

definition ErrNonceTooLow :: string where
  "ErrNonceTooLow = ''nonce too low''"

definition errTooManyParked :: string where
  "errTooManyParked = ''too many queued (future-nonce) transactions for sender''"

text \<open>The end of \<open>Admit\<close>, with the next nonce at hand; the deferred release included.\<close>

definition Admit_decide ::
    "('q \<Rightarrow> eth_tx \<Rightarrow> 'q result) \<Rightarrow> int \<Rightarrow> noncegate \<Rightarrow> 'q \<Rightarrow> address \<Rightarrow> eth_tx \<Rightarrow> unit result \<times> noncegate \<times> 'q" where
  "Admit_decide enq now g q from tx =
     (let ss = (sc_lookup (ng_senders g) from)\<lparr>ss_lastSeen := now\<rparr>;
          nxt = fst (en_value (ss_next ss));
          g = upd_sender g from ss
      in if tx_nonce tx < nxt then (Inl ErrNonceTooLow, ng_release g from, q)
         else if tx_nonce tx = nxt then
           (case enq q tx of
              Inl e \<Rightarrow> (Inl e, ng_release g from, q)
            | Inr q' \<Rightarrow> (Inr (), ng_release g from, q'))
         else if map_of (ss_parked ss) (tx_nonce tx) = None \<and> length (ss_parked ss) \<ge> ng_maxPerSender g
           then (Inl errTooManyParked, ng_release g from, q)
         else (Inr (), ng_release (ng_park g now from tx) from, q))"

text \<open>\<open>None\<close>: the caller is reading the store, with its sender's entry pinned.\<close>

definition Admit_begin ::
    "(eth_tx \<Rightarrow> address option) \<Rightarrow> ('q \<Rightarrow> eth_tx \<Rightarrow> 'q result) \<Rightarrow> int \<Rightarrow> noncegate \<Rightarrow> 'q \<Rightarrow> eth_tx \<Rightarrow>
     unit result option \<times> noncegate \<times> 'q" where
  "Admit_begin sender enq now g q tx =
     (case sender tx of
        None \<Rightarrow> (Some (Inl ''recover sender''), g, q)
      | Some from \<Rightarrow>
          let g = g\<lparr>ng_senders := sc_acquire (ng_senders g) from\<rparr> in
          if snd (en_value (ss_next (sc_lookup (ng_senders g) from)))
          then (let (r, g, q) = Admit_decide enq now g q from tx in (Some r, g, q))
          else (None, g, q))"

definition Admit_seeded ::
    "('q \<Rightarrow> eth_tx \<Rightarrow> 'q result) \<Rightarrow> int \<Rightarrow> noncegate \<Rightarrow> 'q \<Rightarrow> address \<Rightarrow> eth_tx \<Rightarrow> u64 result \<Rightarrow>
     unit result \<times> noncegate \<times> 'q" where
  "Admit_seeded enq now g q from tx seed =
     (case seed of
        Inl e \<Rightarrow> (Inl ''look up nonce'', ng_release g from, q)
      | Inr n \<Rightarrow>
          let ss = sc_lookup (ng_senders g) from;
              g = upd_sender g from (ss\<lparr>ss_next := en_raise (ss_next ss) n\<rparr>)
          in Admit_decide enq now g q from tx)"

subsection \<open>Observe and the rest\<close>

fun highest :: "(bytes \<Rightarrow> eth_tx option) \<Rightarrow> dtx list \<Rightarrow> (address \<times> u64) list \<Rightarrow> (address \<times> u64) list" where
  "highest unmarshal [] hs = hs"
| "highest unmarshal (t # ts) hs =
     (if \<not> dt_valid t then highest unmarshal ts hs
      else case ToEthTx unmarshal t of
             None \<Rightarrow> highest unmarshal ts hs
           | Some tx \<Rightarrow>
               let from = BytesToAddress (dt_from t) in
               if (case map_of hs from of None \<Rightarrow> True | Some cur \<Rightarrow> tx_nonce tx > cur)
               then highest unmarshal ts (AList.update from (tx_nonce tx) hs)
               else highest unmarshal ts hs)"

fun drop_spent :: "noncegate \<Rightarrow> address \<Rightarrow> u64 \<Rightarrow> u64 list \<Rightarrow> noncegate" where
  "drop_spent g from nxt [] = g"
| "drop_spent g from nxt (n # ns) = drop_spent (if n < nxt then snd (ng_unpark g from n) else g) from nxt ns"

definition observe_sender ::
    "('q \<Rightarrow> eth_tx \<Rightarrow> 'q result) \<Rightarrow> int \<Rightarrow> noncegate \<times> 'q \<Rightarrow> address \<Rightarrow> u64 \<Rightarrow> noncegate \<times> 'q" where
  "observe_sender enq now gq from n =
     (let (g, q) = gq;
          g = g\<lparr>ng_senders := sc_acquire (ng_senders g) from\<rparr>;
          ss = sc_lookup (ng_senders g) from;
          ss = ss\<lparr>ss_next := en_raise (ss_next ss) (n + 1), ss_lastSeen := now\<rparr>;
          nxt = fst (en_value (ss_next ss));
          g = drop_spent (upd_sender g from ss) from nxt (map fst (ss_parked ss));
          (ready, g) = ng_unpark g from nxt;
          q = (case ready of None \<Rightarrow> q | Some tx \<Rightarrow> (case enq q tx of Inl _ \<Rightarrow> q | Inr q' \<Rightarrow> q'))
      in (ng_release g from, q))"

fun observe_senders ::
    "('q \<Rightarrow> eth_tx \<Rightarrow> 'q result) \<Rightarrow> int \<Rightarrow> noncegate \<times> 'q \<Rightarrow> (address \<times> u64) list \<Rightarrow> noncegate \<times> 'q" where
  "observe_senders enq now gq [] = gq"
| "observe_senders enq now gq ((from, n) # hs) = observe_senders enq now (observe_sender enq now gq from n) hs"

definition Observe ::
    "(bytes \<Rightarrow> eth_tx option) \<Rightarrow> ('q \<Rightarrow> eth_tx \<Rightarrow> 'q result) \<Rightarrow> int \<Rightarrow> noncegate \<times> 'q \<Rightarrow> dtx list \<Rightarrow> noncegate \<times> 'q" where
  "Observe unmarshal enq now gq committed = observe_senders enq now gq (highest unmarshal committed [])"

definition ng_IsPending :: "noncegate \<Rightarrow> hash \<Rightarrow> eth_tx option" where
  "ng_IsPending g h = ng_byHash g h"

definition ng_prune :: "noncegate \<Rightarrow> int \<Rightarrow> noncegate" where
  "ng_prune g now =
     (let (c, byHash) = sc_prune (ng_senders g) now (ng_ttl g) (ng_maxSenders g) (ng_byHash g)
      in g\<lparr>ng_senders := c, ng_byHash := byHash\<rparr>)"

end
