(* ===== verification/NonceGateInv.thy ===== *)
theory NonceGateInv
  imports NonceGate
begin

text \<open>
  The invariant of the nonce gate and its preservation.  \<open>gate_ok\<close> says what the parked transactions and
  their index are; \<open>nonce_ok\<close> relates the cached nonces and reference counts to the callers that are reading
  the store and to the commits observed so far.  Both are stated over the entry of every address, the
  fresh entry standing for an absent one, so removing an entry that carries nothing changes nothing.
\<close>

section \<open>Entries\<close>

abbreviation entry_of :: "noncegate \<Rightarrow> address \<Rightarrow> senderstate" where
  "entry_of g \<equiv> sc_lookup (ng_senders g)"

abbreviation parked_of :: "noncegate \<Rightarrow> address \<Rightarrow> u64 \<rightharpoonup> parkedtx" where
  "parked_of g f \<equiv> map_of (ss_parked (entry_of g f))"

lemma sc_lookup_update [simp]: "sc_lookup (AList.update f ss c) k = (if k = f then ss else sc_lookup c k)"
  by (simp add: sc_lookup_def update_conv')

lemma sc_lookup_delete [simp]: "sc_lookup (AList.delete f c) k = (if k = f then newSenderState else sc_lookup c k)"
  by (simp add: sc_lookup_def delete_conv')

lemma entry_upd [simp]: "entry_of (upd_sender g f ss) k = (if k = f then ss else entry_of g k)"
  by (simp add: upd_sender_def)

lemma upd_sender_sel [simp]:
  "ng_byHash (upd_sender g f ss) = ng_byHash g" "ng_maxPerSender (upd_sender g f ss) = ng_maxPerSender g"
  by (simp_all add: upd_sender_def)

lemma newSenderState_sel [simp]:
  "ss_parked newSenderState = []" "ss_refs newSenderState = 0" "en_known (ss_next newSenderState) = False"
  by (simp_all add: newSenderState_def)

text \<open>What \<open>release\<close> leaves of an entry: one reference less, and all that a fresh entry would not have.\<close>

lemma release_entry:
  "ss_parked (entry_of (ng_release g f) k) = ss_parked (entry_of g k)"
  "ss_refs (entry_of (ng_release g f) k) = (if k = f then ss_refs (entry_of g k) - 1 else ss_refs (entry_of g k))"
  "en_known (ss_next (entry_of (ng_release g f) k)) = en_known (ss_next (entry_of g k))"
  "en_known (ss_next (entry_of g k)) \<Longrightarrow> ss_next (entry_of (ng_release g f) k) = ss_next (entry_of g k)"
  by (auto simp: ng_release_def sc_release_def Let_def)

lemma release_sel [simp]: "ng_byHash (ng_release g f) = ng_byHash g" "ng_maxPerSender (ng_release g f) = ng_maxPerSender g"
  by (simp_all add: ng_release_def)

lemma acquire_entry [simp]:
  "sc_lookup (sc_acquire c f) k = (if k = f then (sc_lookup c f)\<lparr>ss_refs := ss_refs (sc_lookup c f) + 1\<rparr> else sc_lookup c k)"
  by (simp add: sc_acquire_def)

section \<open>Parked transactions\<close>

definition gate_ok :: "eth_tx set \<Rightarrow> (eth_tx \<Rightarrow> address option) \<Rightarrow> noncegate \<Rightarrow> bool" where
  "gate_ok U sender g \<longleftrightarrow> distinct (map fst (ng_senders g)) \<and>
     (\<forall>f. distinct (map fst (ss_parked (entry_of g f))) \<and> length (ss_parked (entry_of g f)) \<le> ng_maxPerSender g) \<and>
     (\<forall>f n p. parked_of g f n = Some p \<longrightarrow> pk_tx p \<in> U \<and> tx_nonce (pk_tx p) = n \<and> sender (pk_tx p) = Some f) \<and>
     (\<forall>h tx. ng_byHash g h = Some tx \<longleftrightarrow> tx_hash tx = h \<and> (\<exists>f p. parked_of g f (tx_nonce tx) = Some p \<and> pk_tx p = tx))"

lemma gate_okD:
  assumes "gate_ok U sender g"
  shows "distinct (map fst (ng_senders g))" "distinct (map fst (ss_parked (entry_of g f)))"
    "length (ss_parked (entry_of g f)) \<le> ng_maxPerSender g"
    "parked_of g f n = Some p \<Longrightarrow> pk_tx p \<in> U \<and> tx_nonce (pk_tx p) = n \<and> sender (pk_tx p) = Some f"
    "ng_byHash g h = Some tx \<longleftrightarrow> tx_hash tx = h \<and> (\<exists>f p. parked_of g f (tx_nonce tx) = Some p \<and> pk_tx p = tx)"
  using assms by (simp_all add: gate_ok_def)

lemma gate_ok_same:
  assumes "gate_ok U sender g" and "distinct (map fst (ng_senders g'))" and "\<And>f. ss_parked (entry_of g' f) = ss_parked (entry_of g f)"
    and "ng_byHash g' = ng_byHash g" and "ng_maxPerSender g' = ng_maxPerSender g"
  shows "gate_ok U sender g'"
  using assms(1,2) unfolding gate_ok_def assms(3-5) by simp

lemma gate_ok_new: "gate_ok U sender newNonceGate"
  by (simp add: gate_ok_def newNonceGate_def sc_lookup_def)

lemma gate_ok_acquire: "gate_ok U sender g \<Longrightarrow> gate_ok U sender (g\<lparr>ng_senders := sc_acquire (ng_senders g) f\<rparr>)"
  by (rule gate_ok_same) (auto simp: sc_acquire_def intro: distinct_update gate_okD)

lemma gate_ok_upd: "gate_ok U sender g \<Longrightarrow> ss_parked ss = ss_parked (entry_of g f) \<Longrightarrow> gate_ok U sender (upd_sender g f ss)"
  by (rule gate_ok_same) (auto simp: upd_sender_def intro: distinct_update gate_okD)

lemma gate_ok_release: "gate_ok U sender g \<Longrightarrow> gate_ok U sender (ng_release g f)"
  by (rule gate_ok_same)
    (auto simp: release_entry(1), auto simp: ng_release_def sc_release_def Let_def intro!: distinct_update distinct_delete intro: gate_okD)

text \<open>
  The index after a change of one parked slot.  The slot \<open>(f, n)\<close> held \<open>old\<close> and holds \<open>new\<close>; the hash of
  the first is removed and that of the second entered.
\<close>

lemma index_update:
  fixes now :: int
  assumes ok: "gate_ok U sender g" and inj: "inj_on tx_hash U"
    and new: "new \<noteq> None \<Longrightarrow> the new \<in> U \<and> tx_nonce (the new) = n \<and> sender (the new) = Some f"
  defines "old \<equiv> parked_of g f n"
  defines "P \<equiv> \<lambda>k m. if k = f \<and> m = n then map_option (\<lambda>t. \<lparr>pk_tx = t, pk_parkedAt = now\<rparr>) new else parked_of g k m"
  defines "B1 \<equiv> (case old of Some p \<Rightarrow> (ng_byHash g)(tx_hash (pk_tx p) := None) | None \<Rightarrow> ng_byHash g)"
  defines "B2 \<equiv> (case new of Some t \<Rightarrow> B1(tx_hash t \<mapsto> t) | None \<Rightarrow> B1)"
  shows "B2 h = Some tx \<longleftrightarrow> tx_hash tx = h \<and> (\<exists>k p. P k (tx_nonce tx) = Some p \<and> pk_tx p = tx)"
proof -
  note D = gate_okD [OF ok]
  have inj': "t = t'" if "t \<in> U" "t' \<in> U" "tx_hash t = tx_hash t'" for t t' using inj that by (simp add: inj_on_def)
  have PU: "pk_tx p \<in> U \<and> tx_nonce (pk_tx p) = m \<and> sender (pk_tx p) = Some k" if "P k m = Some p" for k m p
    using that new D(4) [of k m p] by (auto simp: P_def split: if_splits)
  have fresh: "new = Some tx" if "P k (tx_nonce tx) = Some p" "pk_tx p = tx" "new = Some t" "tx_hash tx = tx_hash t" for k p t
    using PU [OF that(1)] that new inj' [of tx t] by auto
  have gone: "new = Some tx" if "P k (tx_nonce tx) = Some p" "pk_tx p = tx" "old = Some o'" "tx_hash tx = tx_hash (pk_tx o')" for k p o'
  proof -
    have o: "pk_tx o' \<in> U" "tx_nonce (pk_tx o') = n" "sender (pk_tx o') = Some f" using D(4) [of f n o'] that(3) by (simp_all add: old_def)
    then have "tx = pk_tx o'" using PU [OF that(1)] that inj' by auto
    then have "k = f" "tx_nonce tx = n" using o PU [OF that(1)] that(2) by auto
    then show ?thesis using that(1,2) by (auto simp: P_def)
  qed
  have keep: "(\<exists>k p. P k (tx_nonce tx) = Some p \<and> pk_tx p = tx) \<longleftrightarrow> (\<exists>k p. parked_of g k (tx_nonce tx) = Some p \<and> pk_tx p = tx)"
    if "new \<noteq> Some tx" "\<And>p. old = Some p \<Longrightarrow> pk_tx p \<noteq> tx"
  proof -
    have "P k m = Some p \<and> pk_tx p = tx \<longleftrightarrow> parked_of g k m = Some p \<and> pk_tx p = tx" for k m p
      using that by (auto simp: P_def old_def)
    then show ?thesis by simp
  qed
  show ?thesis
  proof (cases "new = Some tx")
    case True
    then have "\<exists>k p. P k (tx_nonce tx) = Some p \<and> pk_tx p = tx" using new by (auto simp: P_def)
    moreover have "B2 h \<noteq> Some tx" if "tx_hash tx \<noteq> h"
      using that True D(5) [of h tx] by (auto simp: B2_def B1_def split: option.splits if_splits)
    ultimately show ?thesis using True by (auto simp: B2_def)
  next
    case False
    have nP: "\<not> (\<exists>k p. P k (tx_nonce tx) = Some p \<and> pk_tx p = tx)" if "old = Some p'" "tx_hash tx = tx_hash (pk_tx p')" for p'
      using gone [OF _ _ that] False by auto
    have nN: "\<not> (\<exists>k p. P k (tx_nonce tx) = Some p \<and> pk_tx p = tx)" if "new = Some t" "tx_hash tx = tx_hash t" for t
      using fresh [OF _ _ that] False by auto
    have B: "B2 h = Some tx \<longleftrightarrow> ng_byHash g h = Some tx \<and> (\<forall>p. old = Some p \<longrightarrow> h \<noteq> tx_hash (pk_tx p)) \<and> (\<forall>t. new = Some t \<longrightarrow> h \<noteq> tx_hash t)"
      using False by (auto simp: B2_def B1_def split: option.splits)
    show ?thesis
    proof (cases "\<exists>p. old = Some p \<and> pk_tx p = tx")
      case True
      then show ?thesis using B nP D(5) [of h tx] by auto
    next
      case no: False
      then have k: "(\<exists>k p. P k (tx_nonce tx) = Some p \<and> pk_tx p = tx) \<longleftrightarrow> (\<exists>k p. parked_of g k (tx_nonce tx) = Some p \<and> pk_tx p = tx)"
        using keep False by blast
      show ?thesis unfolding B D(5) k [symmetric] using nP nN by auto
    qed
  qed
qed

lemma gate_ok_slot:
  fixes now :: int
  assumes ok: "gate_ok U sender g" and inj: "inj_on tx_hash U"
    and new: "new \<noteq> None \<Longrightarrow> the new \<in> U \<and> tx_nonce (the new) = n \<and> sender (the new) = Some f"
    and parked: "map_of xs = (parked_of g f)(n := map_option (\<lambda>t. \<lparr>pk_tx = t, pk_parkedAt = now\<rparr>) new)"
    and xs: "distinct (map fst xs)" "length xs \<le> ng_maxPerSender g"
    and g': "ng_byHash g' = (case new of Some t \<Rightarrow> B(tx_hash t \<mapsto> t) | None \<Rightarrow> B)"
      "B = (case parked_of g f n of Some p \<Rightarrow> (ng_byHash g)(tx_hash (pk_tx p) := None) | None \<Rightarrow> ng_byHash g)"
      "\<And>k. ss_parked (entry_of g' k) = (if k = f then xs else ss_parked (entry_of g k))"
      "ng_maxPerSender g' = ng_maxPerSender g" "distinct (map fst (ng_senders g'))"
  shows "gate_ok U sender g'"
proof -
  note D = gate_okD [OF ok]
  have P: "parked_of g' k m = (if k = f \<and> m = n then map_option (\<lambda>t. \<lparr>pk_tx = t, pk_parkedAt = now\<rparr>) new else parked_of g k m)" for k m
    unfolding g'(3) using parked by simp
  have "pk_tx p \<in> U \<and> tx_nonce (pk_tx p) = m \<and> sender (pk_tx p) = Some k" if "parked_of g' k m = Some p" for k m p
    using that new D(4) [of k m p] unfolding P by (auto split: if_splits)
  moreover have "ng_byHash g' h = Some tx \<longleftrightarrow> tx_hash tx = h \<and> (\<exists>k p. parked_of g' k (tx_nonce tx) = Some p \<and> pk_tx p = tx)" for h tx
    unfolding P g'(1,2) by (rule index_update [OF ok inj new])
  moreover have "distinct (map fst (ss_parked (entry_of g' k)))" "length (ss_parked (entry_of g' k)) \<le> ng_maxPerSender g'" for k
    unfolding g'(3,4) using xs D(2,3) by simp_all
  ultimately show ?thesis unfolding gate_ok_def using g'(5) by blast
qed

lemma length_AList_update: "length (AList.update k v xs) = (if k \<in> fst ` set xs then length xs else length xs + 1)"
  by (induction xs) auto

lemma gate_ok_park:
  assumes ok: "gate_ok U sender g" and inj: "inj_on tx_hash U" and tx: "tx \<in> U" "sender tx = Some f"
    and room: "parked_of g f (tx_nonce tx) \<noteq> None \<or> length (ss_parked (entry_of g f)) < ng_maxPerSender g"
  shows "gate_ok U sender (ng_park g now f tx)"
proof (rule gate_ok_slot [OF ok inj, where new = "Some tx" and n = "tx_nonce tx" and f = f and now = now])
  let ?xs = "AList.update (tx_nonce tx) \<lparr>pk_tx = tx, pk_parkedAt = now\<rparr> (ss_parked (entry_of g f))"
  show "map_of ?xs = (parked_of g f)(tx_nonce tx := map_option (\<lambda>t. \<lparr>pk_tx = t, pk_parkedAt = now\<rparr>) (Some tx))"
    by (simp add: update_conv')
  show "distinct (map fst ?xs)" using gate_okD(2) [OF ok] by (rule distinct_update)
  show "length ?xs \<le> ng_maxPerSender g"
    using room gate_okD(3) [OF ok, of f] by (auto simp: length_AList_update map_of_eq_None_iff)
  show "distinct (map fst (ng_senders (ng_park g now f tx)))"
    using gate_okD(1) [OF ok] by (simp add: ng_park_def Let_def upd_sender_def distinct_update)
qed (use tx in \<open>simp_all add: ng_park_def Let_def\<close>)

lemma fst_unpark: "fst (ng_unpark g f n) = map_option pk_tx (parked_of g f n)"
  by (simp add: ng_unpark_def Let_def split: option.splits)

lemma unpark_entry:
  "entry_of (snd (ng_unpark g f n)) k =
     (if k = f then (entry_of g f)\<lparr>ss_parked := AList.delete n (ss_parked (entry_of g f))\<rparr> else entry_of g k)"
proof -
  have "AList.delete n xs = xs" if "map_of xs n = None" for xs :: "(u64 \<times> parkedtx) list"
    using that by (force simp: AList.delete_eq filter_id_conv map_of_eq_None_iff)
  then show ?thesis by (auto simp: ng_unpark_def Let_def split: option.splits)
qed

lemma gate_ok_unpark:
  assumes ok: "gate_ok U sender g" and inj: "inj_on tx_hash U"
  shows "gate_ok U sender (snd (ng_unpark g f n))"
proof (rule gate_ok_slot [OF ok inj, where new = None and n = n and f = f])
  let ?xs = "AList.delete n (ss_parked (entry_of g f))"
  show "map_of ?xs = (parked_of g f)(n := map_option (\<lambda>t. \<lparr>pk_tx = t, pk_parkedAt = 0\<rparr>) None)"
    by (simp add: delete_conv')
  show "distinct (map fst ?xs)" using gate_okD(2) [OF ok] by (rule distinct_delete)
  show "length ?xs \<le> ng_maxPerSender g"
    using gate_okD(3) [OF ok, of f] length_delete_le [of n "ss_parked (entry_of g f)"] by simp
  show "distinct (map fst (ng_senders (snd (ng_unpark g f n))))"
    using gate_okD(1) [OF ok] by (simp add: ng_unpark_def Let_def upd_sender_def distinct_update split: option.splits)
qed (simp_all add: unpark_entry, simp_all add: ng_unpark_def Let_def split: option.splits)

lemma drop_spent_entry:
  "entry_of (drop_spent g f nxt ns) k =
     (if k = f then (entry_of g f)\<lparr>ss_parked := filter (\<lambda>(n, _). \<not> (n \<in> set ns \<and> n < nxt)) (ss_parked (entry_of g f))\<rparr> else entry_of g k)"
proof (induction ns arbitrary: g)
  case (Cons n ns)
  show ?case
  proof (cases "n < nxt")
    case True
    then show ?thesis using Cons.IH [of "snd (ng_unpark g f n)"]
      by (auto simp: unpark_entry AList.delete_eq intro!: arg_cong [of _ _ "\<lambda>xs. entry_of g f\<lparr>ss_parked := xs\<rparr>"] filter_cong)
  next
    case False
    then show ?thesis using Cons.IH [of g]
      by (auto intro!: arg_cong [of _ _ "\<lambda>xs. entry_of g f\<lparr>ss_parked := xs\<rparr>"] filter_cong)
  qed
qed simp

lemma gate_ok_drop_spent:
  "gate_ok U sender g \<Longrightarrow> inj_on tx_hash U \<Longrightarrow> gate_ok U sender (drop_spent g f nxt ns)"
  by (induction ns arbitrary: g) (simp_all add: gate_ok_unpark)

lemma gate_ok_observe_sender:
  assumes ok: "gate_ok U sender g" and inj: "inj_on tx_hash U"
  shows "gate_ok U sender (fst (observe_sender enq now (g, q) f n))"
  unfolding observe_sender_def Let_def split_beta fst_conv snd_conv
  by (intro gate_ok_release gate_ok_unpark gate_ok_drop_spent gate_ok_upd gate_ok_acquire ok inj) simp

lemma gate_ok_observe:
  "gate_ok U sender g \<Longrightarrow> inj_on tx_hash U \<Longrightarrow> gate_ok U sender (fst (observe_senders enq now (g, q) hs))"
proof (induction hs arbitrary: g q)
  case (Cons h hs)
  obtain f n where h: "h = (f, n)" by (cases h)
  obtain g' q' where g': "observe_sender enq now (g, q) f n = (g', q')" by (cases "observe_sender enq now (g, q) f n")
  then have "gate_ok U sender g'" using gate_ok_observe_sender [OF Cons.prems, of enq now q f n] by simp
  then show ?case using Cons.IH [OF _ Cons.prems(2)] by (simp add: h g')
qed simp

lemma gate_ok_decide:
  assumes ok: "gate_ok U sender g" and inj: "inj_on tx_hash U" and tx: "tx \<in> U" "sender tx = Some f"
  shows "gate_ok U sender (fst (snd (Admit_decide enq now g q f tx)))"
proof -
  let ?g = "upd_sender g f ((entry_of g f)\<lparr>ss_lastSeen := now\<rparr>)"
  have g: "gate_ok U sender ?g" by (rule gate_ok_upd [OF ok]) simp
  have "gate_ok U sender (ng_release (ng_park ?g now f tx) f)"
    if "\<not> (parked_of g f (tx_nonce tx) = None \<and> length (ss_parked (entry_of g f)) \<ge> ng_maxPerSender g)"
    by (intro gate_ok_release gate_ok_park [OF g inj tx]) (use that in auto)
  then show ?thesis using gate_ok_release [OF g, of f] by (auto simp: Admit_decide_def Let_def split: sum.splits)
qed

lemma gate_ok_begin:
  assumes ok: "gate_ok U sender g" and inj: "inj_on tx_hash U" and tx: "tx \<in> U"
  shows "gate_ok U sender (fst (snd (Admit_begin sender enq now g q tx)))"
proof (cases "sender tx")
  case None
  then show ?thesis using ok by (simp add: Admit_begin_def)
next
  case (Some f)
  let ?g = "g\<lparr>ng_senders := sc_acquire (ng_senders g) f\<rparr>"
  have ok': "gate_ok U sender ?g" by (rule gate_ok_acquire [OF ok])
  then show ?thesis using gate_ok_decide [OF ok' inj tx Some, of enq now q] Some
    by (auto simp: Admit_begin_def Let_def split: prod.splits)
qed

lemma gate_ok_seeded:
  assumes ok: "gate_ok U sender g" and inj: "inj_on tx_hash U" and tx: "tx \<in> U" "sender tx = Some f"
  shows "gate_ok U sender (fst (snd (Admit_seeded enq now g q f tx seed)))"
proof (cases seed)
  case (Inl e)
  then show ?thesis using gate_ok_release [OF ok] by (simp add: Admit_seeded_def)
next
  case (Inr n)
  then show ?thesis unfolding Admit_seeded_def Let_def by (simp add: gate_ok_decide [OF gate_ok_upd [OF ok] inj tx])
qed

section \<open>Pruning\<close>

lemma distinct_evict: "distinct (map fst c) \<Longrightarrow> distinct (map fst (evict mx c))"
  by (induction mx c rule: evict.induct) (subst evict.simps, auto simp: distinct_delete split: option.splits)

text \<open>Eviction removes only entries that no caller holds and that hold no transaction.\<close>

lemma evict_entry:
  "distinct (map fst c) \<Longrightarrow> sc_lookup (evict mx c) f = sc_lookup c f \<or>
     (sc_lookup (evict mx c) f = newSenderState \<and> ss_refs (sc_lookup c f) = 0 \<and> ss_parked (sc_lookup c f) = [])"
proof (induction mx c rule: evict.induct)
  case (1 mx c)
  show ?case
  proof (cases "length c > mx")
    case False
    then show ?thesis by (subst (1 2) evict.simps) simp
  next
    case long: True
    show ?thesis
    proof (cases "find_oldest c None")
      case None
      then show ?thesis by (subst (1 2) evict.simps) simp
    next
      case (Some x)
      then obtain a t where x: "x = (a, t)" by (cases x)
      then obtain ss where ss: "(a, ss) \<in> set c" "ss_refs ss = 0" "ss_parked ss = []"
        using Some find_oldest_mem [of c None a t] by auto
      then have "sc_lookup c a = ss" using "1.prems" by (simp add: sc_lookup_def)
      moreover have "evict mx c = evict mx (AList.delete a c)" using long Some x by (subst evict.simps) simp
      ultimately show ?thesis using "1.IH" [OF long Some x [symmetric]] "1.prems" ss
        by (cases "f = a") (auto simp: distinct_delete)
    qed
  qed
qed

lemma expire_entry:
  "sc_lookup (map (\<lambda>(a, ss). (a, expire_sender now ttl ss)) c) f = expire_sender now ttl (sc_lookup c f)"
  by (simp add: sc_lookup_def map_of_map expire_sender_def newSenderState_def split: option.splits)

lemma map_of_filter_distinct:
  "distinct (map fst xs) \<Longrightarrow> map_of (filter (\<lambda>(_, p). Q p) xs) n = Some p \<longleftrightarrow> map_of xs n = Some p \<and> Q p"
  by (auto simp: map_of_eq_Some_iff distinct_map_filter)

lemma prune_sel:
  "ng_maxPerSender (ng_prune g now) = ng_maxPerSender g"
  "ng_byHash (ng_prune g now) = ng_byHash g |` (- expired_hashes now (ng_ttl g) (ng_senders g))"
  "ng_senders (ng_prune g now) = evict (ng_maxSenders g) (map (\<lambda>(a, ss). (a, expire_sender now (ng_ttl g) ss)) (ng_senders g))"
  by (simp_all add: ng_prune_def sc_prune_def)

lemma prune_entry:
  assumes "distinct (map fst (ng_senders g))"
  shows "entry_of (ng_prune g now) f = expire_sender now (ng_ttl g) (entry_of g f) \<or>
    (entry_of (ng_prune g now) f = newSenderState \<and> ss_refs (entry_of g f) = 0 \<and>
     ss_parked (expire_sender now (ng_ttl g) (entry_of g f)) = [])"
proof -
  let ?c = "map (\<lambda>(a, ss). (a, expire_sender now (ng_ttl g) ss)) (ng_senders g)"
  have "distinct (map fst ?c)" using assms by (simp add: comp_def split_def)
  from evict_entry [OF this, of "ng_maxSenders g" f] show ?thesis
    unfolding prune_sel expire_entry by (auto simp: expire_sender_def)
qed

lemma expired_hashes_iff:
  assumes "distinct (map fst c)" and "\<And>f. distinct (map fst (ss_parked (sc_lookup c f)))"
  shows "h \<in> expired_hashes now ttl c \<longleftrightarrow> (\<exists>f n p. map_of (ss_parked (sc_lookup c f)) n = Some p \<and> expired now ttl p \<and> tx_hash (pk_tx p) = h)"
proof -
  have "(a, ss) \<in> set c \<longleftrightarrow> map_of c a = Some ss" for a ss using assms(1) by simp
  then have 1: "h \<in> expired_hashes now ttl c \<longleftrightarrow>
      (\<exists>a ss. map_of c a = Some ss \<and> (\<exists>n p. (n, p) \<in> set (ss_parked ss) \<and> expired now ttl p \<and> tx_hash (pk_tx p) = h))"
    by (force simp: expired_hashes_def)
  have 2: "(n, p) \<in> set (ss_parked ss) \<longleftrightarrow> map_of (ss_parked (sc_lookup c a)) n = Some p" if "map_of c a = Some ss" for a ss n p
    using assms(2) [of a] that by (simp add: sc_lookup_def)
  have 3: "map_of c a \<noteq> None" if "map_of (ss_parked (sc_lookup c a)) n = Some p" for a n p
    using that by (cases "map_of c a") (simp_all add: sc_lookup_def)
  show ?thesis unfolding 1 using 2 3 by fast
qed

lemma gate_ok_prune:
  assumes ok: "gate_ok U sender g" and inj: "inj_on tx_hash U"
  shows "gate_ok U sender (ng_prune g now)"
proof -
  note D = gate_okD [OF ok]
  let ?live = "\<lambda>p. \<not> expired now (ng_ttl g) p"
  have pk: "ss_parked (entry_of (ng_prune g now) f) = filter (\<lambda>(_, p). ?live p) (ss_parked (entry_of g f))" for f
    using prune_entry [OF D(1), of now f] by (auto simp: expire_sender_def)
  have P: "parked_of (ng_prune g now) f n = Some p \<longleftrightarrow> parked_of g f n = Some p \<and> ?live p" for f n p
    unfolding pk by (rule map_of_filter_distinct [OF D(2)])
  have "distinct (map fst (ng_senders (ng_prune g now)))"
    unfolding prune_sel by (rule distinct_evict) (use D(1) in \<open>simp add: comp_def split_def\<close>)
  moreover have "distinct (map fst (ss_parked (entry_of (ng_prune g now) f)))"
    "length (ss_parked (entry_of (ng_prune g now) f)) \<le> ng_maxPerSender (ng_prune g now)" for f
    unfolding pk prune_sel(1) using D(2,3) [of f] order_trans [OF length_filter_le] by (simp_all add: distinct_map_filter)
  moreover have "ng_byHash (ng_prune g now) h = Some tx \<longleftrightarrow>
      tx_hash tx = h \<and> (\<exists>f p. parked_of (ng_prune g now) f (tx_nonce tx) = Some p \<and> pk_tx p = tx)" for h tx
  proof -
    have same: "?live p \<longleftrightarrow> h \<notin> expired_hashes now (ng_ttl g) (ng_senders g)"
      if p: "parked_of g f (tx_nonce tx) = Some p" "pk_tx p = tx" "tx_hash tx = h" for f p
    proof -
      have "p' = p" if "parked_of g f' n' = Some p'" "tx_hash (pk_tx p') = h" for f' n' p'
      proof -
        have u: "pk_tx p' = tx" using D(4) [OF p(1)] D(4) [OF that(1)] that(2) p(2,3) inj by (simp add: inj_on_def)
        then have "f' = f" "n' = tx_nonce tx" using D(4) [OF p(1)] D(4) [OF that(1)] p(2) by auto
        then show ?thesis using that(1) p(1) by simp
      qed
      then show ?thesis unfolding expired_hashes_iff [OF D(1) D(2)] using p by blast
    qed
    have "ng_byHash (ng_prune g now) h = Some tx \<longleftrightarrow> h \<notin> expired_hashes now (ng_ttl g) (ng_senders g) \<and> ng_byHash g h = Some tx"
      unfolding prune_sel by (auto simp: restrict_map_def)
    then show ?thesis unfolding P D(5) using same by blast
  qed
  ultimately show ?thesis unfolding gate_ok_def using P D(4) by blast
qed

section \<open>Nonces and references\<close>

text \<open>
  A caller that reads the store: its transaction, the sender, and the number of commits of that sender that
  had been observed when the read started.
\<close>

type_synonym reading = "eth_tx \<times> address \<times> nat"

definition readers :: "reading list \<Rightarrow> address \<Rightarrow> nat" where
  "readers rd f = length (filter (\<lambda>(_, k, _). k = f) rd)"

text \<open>\<open>cm f\<close> is one more than the highest nonce of \<open>f\<close> that an observed block committed, or 0.\<close>

definition nonce_ok :: "(address \<Rightarrow> nat) \<Rightarrow> reading list \<Rightarrow> noncegate \<Rightarrow> bool" where
  "nonce_ok cm rd g \<longleftrightarrow> (\<forall>f. ss_refs (entry_of g f) = readers rd f \<and>
     (en_known (ss_next (entry_of g f)) \<longrightarrow> cm f \<le> unat (en_nonce (ss_next (entry_of g f)))) \<and>
     (\<not> en_known (ss_next (entry_of g f)) \<longrightarrow> (\<forall>(_, k, c) \<in> set rd. k = f \<longrightarrow> cm f \<le> c)))"

text \<open>The same with one more reference to \<open>f\<close> than there are readers: in the middle of an operation on \<open>f\<close>.\<close>

definition nonce_held :: "(address \<Rightarrow> nat) \<Rightarrow> reading list \<Rightarrow> address \<Rightarrow> noncegate \<Rightarrow> bool" where
  "nonce_held cm rd f g \<longleftrightarrow> (\<forall>k. ss_refs (entry_of g k) = readers rd k + (if k = f then 1 else 0) \<and>
     (en_known (ss_next (entry_of g k)) \<longrightarrow> cm k \<le> unat (en_nonce (ss_next (entry_of g k)))) \<and>
     (\<not> en_known (ss_next (entry_of g k)) \<longrightarrow> (\<forall>(_, j, c) \<in> set rd. j = k \<longrightarrow> cm k \<le> c)))"

lemma nonce_acquire: "nonce_ok cm rd g \<Longrightarrow> nonce_held cm rd f (g\<lparr>ng_senders := sc_acquire (ng_senders g) f\<rparr>)"
  by (simp add: nonce_ok_def nonce_held_def)

lemma nonce_release: "nonce_held cm rd f g \<Longrightarrow> nonce_ok cm rd (ng_release g f)"
proof -
  assume h: "nonce_held cm rd f g"
  show ?thesis unfolding nonce_ok_def
  proof (intro allI conjI impI)
    fix k
    show "ss_refs (entry_of (ng_release g f) k) = readers rd k" using h by (simp add: nonce_held_def release_entry)
    show "cm k \<le> unat (en_nonce (ss_next (entry_of (ng_release g f) k)))" if "en_known (ss_next (entry_of (ng_release g f) k))"
      using h that by (simp add: nonce_held_def release_entry)
    show "\<forall>(_, j, c) \<in> set rd. j = k \<longrightarrow> cm k \<le> c" if "\<not> en_known (ss_next (entry_of (ng_release g f) k))"
      using h that by (simp add: nonce_held_def release_entry)
  qed
qed

lemma nonce_held_same:
  assumes "nonce_held cm rd f g" and "\<And>k. ss_refs (entry_of g' k) = ss_refs (entry_of g k)" and "\<And>k. ss_next (entry_of g' k) = ss_next (entry_of g k)"
  shows "nonce_held cm rd f g'"
  using assms(1) unfolding nonce_held_def assms(2,3) .

lemma decide_nonce:
  assumes "nonce_held cm rd f g" and known: "en_known (ss_next (entry_of g f))"
    and r: "Admit_decide enq now g q f tx = (r, g', q')"
  shows "nonce_ok cm rd g' \<and> (q' = q \<or> (enq q tx = Inr q' \<and> cm f \<le> unat (tx_nonce tx)))"
proof -
  let ?g = "upd_sender g f ((entry_of g f)\<lparr>ss_lastSeen := now\<rparr>)"
  have g: "nonce_held cm rd f ?g" by (rule nonce_held_same [OF assms(1)]) simp_all
  have p: "nonce_held cm rd f (ng_park ?g now f tx)" by (rule nonce_held_same [OF g]) (simp_all add: ng_park_def Let_def upd_sender_def)
  have "cm f \<le> unat (en_nonce (ss_next (entry_of g f)))" using assms(1) known by (simp add: nonce_held_def)
  then show ?thesis using r nonce_release [OF g] nonce_release [OF p]
    by (auto simp: Admit_decide_def Let_def en_value_def split: if_splits sum.splits)
qed

lemma begin_nonce:
  assumes ok: "nonce_ok cm rd g" and r: "Admit_begin sender enq now g q tx = (Some r, g', q')"
  shows "nonce_ok cm rd g' \<and> (q' = q \<or> (\<exists>f. sender tx = Some f \<and> enq q tx = Inr q' \<and> cm f \<le> unat (tx_nonce tx)))"
proof (cases "sender tx")
  case None
  then show ?thesis using ok r by (simp add: Admit_begin_def)
next
  case (Some f)
  let ?g = "g\<lparr>ng_senders := sc_acquire (ng_senders g) f\<rparr>"
  have known: "en_known (ss_next (entry_of ?g f))" and d: "Admit_decide enq now ?g q f tx = (r, g', q')"
    using r Some by (auto simp: Admit_begin_def Let_def en_value_def split: if_splits prod.splits)
  show ?thesis using decide_nonce [OF nonce_acquire [OF ok] known d] Some by simp
qed

lemma begin_reading:
  assumes ok: "nonce_ok cm rd g" and r: "Admit_begin sender enq now g q tx = (None, g', q')" and f: "sender tx = Some f"
  shows "nonce_ok cm ((tx, f, cm f) # rd) g' \<and> q' = q"
proof -
  let ?g = "g\<lparr>ng_senders := sc_acquire (ng_senders g) f\<rparr>"
  have g': "g' = ?g" "q' = q" using r f by (auto simp: Admit_begin_def Let_def split: if_splits prod.splits)
  show ?thesis using nonce_acquire [OF ok, of f] unfolding g' nonce_held_def nonce_ok_def by (auto simp: readers_def)
qed

lemma readers_remove1: "(tx, f, c) \<in> set rd \<Longrightarrow> readers rd k = readers (remove1 (tx, f, c) rd) k + (if k = f then 1 else 0)"
  by (induction rd) (auto simp: readers_def)

lemma reader_held:
  assumes ok: "nonce_ok cm rd g" and r: "(tx, f, c) \<in> set rd"
  shows "nonce_held cm (remove1 (tx, f, c) rd) f g"
proof -
  have "set (remove1 (tx, f, c) rd) \<subseteq> set rd" by (rule set_remove1_subset)
  then show ?thesis using ok readers_remove1 [OF r] unfolding nonce_ok_def nonce_held_def by (auto split: prod.splits)
qed

lemma raise_unat: "unat (en_nonce (en_raise e n)) = (if en_known e then max (unat (en_nonce e)) (unat n) else unat n)"
  "en_known (en_raise e n)"
  by (auto simp: en_raise_def word_less_nat_alt)

lemma seeded_nonce:
  assumes ok: "nonce_ok cm rd g" and r: "(tx, f, c) \<in> set rd" and seed: "\<And>n. seed = Inr n \<Longrightarrow> c \<le> unat n"
    and res: "Admit_seeded enq now g q f tx seed = (res, g', q')"
  shows "nonce_ok cm (remove1 (tx, f, c) rd) g' \<and> (q' = q \<or> (enq q tx = Inr q' \<and> cm f \<le> unat (tx_nonce tx)))"
proof (cases seed)
  case (Inl e)
  then show ?thesis using res nonce_release [OF reader_held [OF ok r]] by (simp add: Admit_seeded_def)
next
  case (Inr n)
  let ?ss = "entry_of g f"
  let ?g = "upd_sender g f (?ss\<lparr>ss_next := en_raise (ss_next ?ss) n\<rparr>)"
  have "cm f \<le> c" if "\<not> en_known (ss_next ?ss)" using ok r that by (auto simp: nonce_ok_def)
  moreover have "cm f \<le> unat (en_nonce (ss_next ?ss))" if "en_known (ss_next ?ss)" using ok that by (simp add: nonce_ok_def)
  ultimately have "cm f \<le> unat (en_nonce (en_raise (ss_next ?ss) n))" using seed [OF Inr] by (auto simp: raise_unat)
  then have "nonce_held cm (remove1 (tx, f, c) rd) f ?g"
    using reader_held [OF ok r] by (auto simp: nonce_held_def raise_unat)
  moreover have "en_known (ss_next (entry_of ?g f))" by (simp add: raise_unat)
  moreover have "Admit_decide enq now ?g q f tx = (res, g', q')" using res Inr by (simp add: Admit_seeded_def Let_def)
  ultimately show ?thesis by (rule decide_nonce)
qed

lemma no_readers: "readers rd f = 0 \<Longrightarrow> \<forall>(_, k, c) \<in> set rd. k = f \<longrightarrow> m \<le> c"
  by (auto simp: readers_def filter_empty_conv)

lemma prune_nonce:
  assumes ok: "nonce_ok cm rd g" and d: "distinct (map fst (ng_senders g))"
  shows "nonce_ok cm rd (ng_prune g now)"
  unfolding nonce_ok_def
proof
  fix f
  note okf = ok [unfolded nonce_ok_def, rule_format, of f]
  from prune_entry [OF d, of now f]
  show "ss_refs (entry_of (ng_prune g now) f) = readers rd f \<and>
     (en_known (ss_next (entry_of (ng_prune g now) f)) \<longrightarrow> cm f \<le> unat (en_nonce (ss_next (entry_of (ng_prune g now) f)))) \<and>
     (\<not> en_known (ss_next (entry_of (ng_prune g now) f)) \<longrightarrow> (\<forall>(_, k, c) \<in> set rd. k = f \<longrightarrow> cm f \<le> c))"
  proof (elim disjE conjE)
    assume e: "entry_of (ng_prune g now) f = expire_sender now (ng_ttl g) (entry_of g f)"
    show ?thesis using ok unfolding e nonce_ok_def by (simp add: expire_sender_def)
  next
    assume e: "entry_of (ng_prune g now) f = newSenderState" "ss_refs (entry_of g f) = 0"
    then have "readers rd f = 0" using ok by (simp add: nonce_ok_def)
    then show ?thesis unfolding e(1) using no_readers [of rd f "cm f"] by simp
  qed
qed

section \<open>Observing a block\<close>

lemma observe_sender_nonce:
  assumes ok: "gate_ok U sender g" and nonce: "nonce_ok cm rd g" and n: "unat n + 1 < 2 ^ 64" "cm f \<le> unat n + 1"
    and r: "observe_sender enq now (g, q) f n = (g', q')"
  shows "nonce_ok (cm(f := unat n + 1)) rd g' \<and>
    (q' = q \<or> (\<exists>tx. sender tx = Some f \<and> enq q tx = Inr q' \<and> unat n + 1 \<le> unat (tx_nonce tx)))"
proof -
  let ?cm = "cm(f := unat n + 1)"
  let ?g1 = "g\<lparr>ng_senders := sc_acquire (ng_senders g) f\<rparr>"
  let ?ss = "(entry_of ?g1 f)\<lparr>ss_next := en_raise (ss_next (entry_of ?g1 f)) (n + 1), ss_lastSeen := now\<rparr>"
  let ?nxt = "en_nonce (ss_next ?ss)"
  let ?g2 = "upd_sender ?g1 f ?ss"
  let ?g3 = "drop_spent ?g2 f ?nxt (map fst (ss_parked ?ss))"
  have un: "unat (n + 1) = unat n + 1" using n(1) by (simp add: unat_word_ariths)
  have nxt: "unat n + 1 \<le> unat ?nxt"
    by (simp add: raise_unat un)
  have h2: "nonce_held ?cm rd f ?g2" using nonce nxt by (simp add: nonce_held_def nonce_ok_def raise_unat)
  have h3: "nonce_held ?cm rd f ?g3" by (rule nonce_held_same [OF h2]) (simp_all add: drop_spent_entry)
  have h4: "nonce_held ?cm rd f (snd (ng_unpark ?g3 f ?nxt))" by (rule nonce_held_same [OF h3]) (simp_all add: unpark_entry)
  have res: "g' = ng_release (snd (ng_unpark ?g3 f ?nxt)) f"
    "q' = (case map_option pk_tx (parked_of ?g3 f ?nxt) of None \<Rightarrow> q | Some tx \<Rightarrow> (case enq q tx of Inl _ \<Rightarrow> q | Inr q' \<Rightarrow> q'))"
    using r unfolding observe_sender_def Let_def split_beta fst_conv snd_conv en_value_def fst_unpark by (simp_all only: prod.inject)
  have "nonce_ok ?cm rd g'" unfolding res(1) by (rule nonce_release [OF h4])
  moreover have "\<exists>tx. sender tx = Some f \<and> enq q tx = Inr q' \<and> unat n + 1 \<le> unat (tx_nonce tx)" if "q' \<noteq> q"
  proof -
    obtain p where p: "parked_of ?g3 f ?nxt = Some p" "enq q (pk_tx p) = Inr q'"
    proof (cases "parked_of ?g3 f ?nxt")
      case None
      then show ?thesis using \<open>q' \<noteq> q\<close> res(2) by simp
    next
      case (Some p)
      then show ?thesis using \<open>q' \<noteq> q\<close> res(2) that [of p] by (cases "enq q (pk_tx p)") simp_all
    qed
    have "map_of (filter Q xs) m = Some v \<Longrightarrow> (m, v) \<in> set xs" for Q m v and xs :: "(u64 \<times> parkedtx) list"
      using map_of_SomeD [of "filter Q xs" m v] by simp
    then have "(?nxt, p) \<in> set (ss_parked (entry_of g f))" using p(1) by (simp add: drop_spent_entry)
    then have "parked_of g f ?nxt = Some p" using gate_okD(2) [OF ok, of f] by simp
    then have "sender (pk_tx p) = Some f" "tx_nonce (pk_tx p) = ?nxt" using gate_okD(4) [OF ok] by blast+
    then show ?thesis using p(2) nxt by (intro exI [of _ "pk_tx p"]) simp
  qed
  ultimately show ?thesis by blast
qed

text \<open>The commits observed after a block whose highest nonce per sender is in \<open>hs\<close>.\<close>

definition commit_all :: "(address \<Rightarrow> nat) \<Rightarrow> (address \<times> u64) list \<Rightarrow> address \<Rightarrow> nat" where
  "commit_all cm hs f = (case map_of hs f of None \<Rightarrow> cm f | Some n \<Rightarrow> unat n + 1)"

text \<open>The queue with a record of what it accepted.\<close>

definition log_enq :: "('q \<Rightarrow> eth_tx \<Rightarrow> 'q result) \<Rightarrow> 'q \<times> eth_tx list \<Rightarrow> eth_tx \<Rightarrow> ('q \<times> eth_tx list) result" where
  "log_enq enq ql tx = (case enq (fst ql) tx of Inl e \<Rightarrow> Inl e | Inr q' \<Rightarrow> Inr (q', snd ql @ [tx]))"

lemma log_enq_Inr: "log_enq enq ql tx = Inr ql' \<Longrightarrow> snd ql' = snd ql @ [tx]"
  by (auto simp: log_enq_def split: sum.splits)

lemma observe_nonce:
  assumes "gate_ok U sender g" and "inj_on tx_hash U" and "nonce_ok cm rd g"
    and "\<forall>(f, n) \<in> set hs. unat n + 1 < 2 ^ 64 \<and> cm f \<le> unat n + 1" and "distinct (map fst hs)"
    and "observe_senders (log_enq enq) now (g, ql) hs = (g', ql')"
  shows "nonce_ok (commit_all cm hs) rd g' \<and>
    (\<exists>new. snd ql' = snd ql @ new \<and> (\<forall>tx \<in> set new. \<exists>f. sender tx = Some f \<and> commit_all cm hs f \<le> unat (tx_nonce tx)))"
  using assms
proof (induction hs arbitrary: g ql cm)
  case Nil
  have "commit_all cm [] = cm" by (simp add: commit_all_def fun_eq_iff)
  then show ?case using Nil by simp
next
  case (Cons h hs)
  obtain f n where h: "h = (f, n)" by (cases h)
  let ?cm = "cm(f := unat n + 1)"
  obtain g1 ql1 where s: "observe_sender (log_enq enq) now (g, ql) f n = (g1, ql1)" by (cases "observe_sender (log_enq enq) now (g, ql) f n")
  have n: "unat n + 1 < 2 ^ 64" "cm f \<le> unat n + 1" using Cons.prems(4) h by auto
  note one = observe_sender_nonce [OF Cons.prems(1,3) n s]
  have ok1: "gate_ok U sender g1" using gate_ok_observe_sender [OF Cons.prems(1,2), of "log_enq enq" now ql f n] s by simp
  have f: "f \<notin> fst ` set hs" "distinct (map fst hs)" using Cons.prems(5) h by auto
  then have "map_of hs f = None" by (simp add: map_of_eq_None_iff)
  then have cm: "commit_all ?cm hs = commit_all cm (h # hs)"
    by (intro ext) (simp add: commit_all_def h split: option.splits)
  have hs: "\<forall>(k, m) \<in> set hs. unat m + 1 < 2 ^ 64 \<and> ?cm k \<le> unat m + 1" using Cons.prems(4) f(1) by force
  have rest: "observe_senders (log_enq enq) now (g1, ql1) hs = (g', ql')" using Cons.prems(6) h s by simp
  from Cons.IH [OF ok1 Cons.prems(2) conjunct1 [OF one] hs f(2) rest] obtain new where
    new: "nonce_ok (commit_all cm (h # hs)) rd g'" "snd ql' = snd ql1 @ new"
      "\<forall>tx \<in> set new. \<exists>k. sender tx = Some k \<and> commit_all cm (h # hs) k \<le> unat (tx_nonce tx)"
    unfolding cm by blast
  from conjunct2 [OF one] show ?case
  proof
    assume "ql1 = ql"
    then show ?thesis using new by blast
  next
    assume "\<exists>tx. sender tx = Some f \<and> log_enq enq ql tx = Inr ql1 \<and> unat n + 1 \<le> unat (tx_nonce tx)"
    then obtain tx where tx: "sender tx = Some f" "snd ql1 = snd ql @ [tx]" "unat n + 1 \<le> unat (tx_nonce tx)" using log_enq_Inr by blast
    have "commit_all cm (h # hs) f = unat n + 1" by (simp add: commit_all_def h)
    then show ?thesis using new tx by (intro conjI exI [of _ "tx # new"]) auto
  qed
qed

end
