(* ===== verification/NonceGateProps.thy ===== *)
theory NonceGateProps
  imports NonceGateInv
begin

text \<open>
  The gate under concurrent callers: a step is one critical section of the lock.  What the steps assume of
  the world: the transactions have distinct hashes (set \<open>U\<close>), a store read returns a nonce that accounts for
  the blocks observed before the read started, and the blocks of a sender commit increasing nonces.
\<close>

section \<open>Steps\<close>

type_synonym 'q ng_state = "noncegate \<times> ('q \<times> eth_tx list) \<times> reading list \<times> (address \<Rightarrow> nat)"

inductive ng_step ::
    "eth_tx set \<Rightarrow> (eth_tx \<Rightarrow> address option) \<Rightarrow> (bytes \<Rightarrow> eth_tx option) \<Rightarrow> ('q \<Rightarrow> eth_tx \<Rightarrow> 'q result) \<Rightarrow>
     'q ng_state \<Rightarrow> 'q ng_state \<Rightarrow> bool"
  for U sender unmarshal enq where
  admit_cached: "Admit_begin sender (log_enq enq) now g ql tx = (Some r, g', ql') \<Longrightarrow> tx \<in> U \<Longrightarrow>
     ng_step U sender unmarshal enq (g, ql, rd, cm) (g', ql', rd, cm)"
| admit_reads: "Admit_begin sender (log_enq enq) now g ql tx = (None, g', ql') \<Longrightarrow> tx \<in> U \<Longrightarrow> sender tx = Some f \<Longrightarrow>
     ng_step U sender unmarshal enq (g, ql, rd, cm) (g', ql', (tx, f, cm f) # rd, cm)"
| admit_seeded: "(tx, f, c) \<in> set rd \<Longrightarrow> (\<forall>n. seed = Inr n \<longrightarrow> c \<le> unat n) \<Longrightarrow>
     Admit_seeded (log_enq enq) now g ql f tx seed = (r, g', ql') \<Longrightarrow>
     ng_step U sender unmarshal enq (g, ql, rd, cm) (g', ql', remove1 (tx, f, c) rd, cm)"
| observe: "mset hs = mset (highest unmarshal committed []) \<Longrightarrow>
     (\<forall>(f, n) \<in> set hs. unat n + 1 < 2 ^ 64 \<and> cm f \<le> unat n + 1) \<Longrightarrow>
     observe_senders (log_enq enq) now (g, ql) hs = (g', ql') \<Longrightarrow>
     ng_step U sender unmarshal enq (g, ql, rd, cm) (g', ql', rd, commit_all cm hs)"
| prune: "ng_step U sender unmarshal enq (g, ql, rd, cm) (ng_prune g now, ql, rd, cm)"

inductive ng_reach ::
    "eth_tx set \<Rightarrow> (eth_tx \<Rightarrow> address option) \<Rightarrow> (bytes \<Rightarrow> eth_tx option) \<Rightarrow> ('q \<Rightarrow> eth_tx \<Rightarrow> 'q result) \<Rightarrow> 'q \<Rightarrow>
     'q ng_state \<Rightarrow> bool"
  for U sender unmarshal enq q0 where
  start: "ng_reach U sender unmarshal enq q0 (newNonceGate, (q0, []), [], \<lambda>_. 0)"
| step: "ng_reach U sender unmarshal enq q0 s \<Longrightarrow> ng_step U sender unmarshal enq s s' \<Longrightarrow> ng_reach U sender unmarshal enq q0 s'"

definition ng_inv :: "eth_tx set \<Rightarrow> (eth_tx \<Rightarrow> address option) \<Rightarrow> 'q ng_state \<Rightarrow> bool" where
  "ng_inv U sender = (\<lambda>(g, ql, rd, cm). gate_ok U sender g \<and> nonce_ok cm rd g \<and>
     ng_maxPerSender g = defaultMaxParkedPerSender \<and> (\<forall>(tx, f, _) \<in> set rd. tx \<in> U \<and> sender tx = Some f))"

text \<open>What one step adds to the accepted transactions: none of a nonce that is already committed.\<close>

definition fresh_log :: "(eth_tx \<Rightarrow> address option) \<Rightarrow> 'q ng_state \<Rightarrow> 'q ng_state \<Rightarrow> bool" where
  "fresh_log sender = (\<lambda>(_, ql, _, _) (_, ql', _, cm'). \<exists>new. snd ql' = snd ql @ new \<and>
     (\<forall>tx \<in> set new. \<exists>f. sender tx = Some f \<and> cm' f \<le> unat (tx_nonce tx)))"

lemma map_of_filter_key: "map_of (filter (\<lambda>(k, _). Q k) xs) m = (if Q m then map_of xs m else None)"
  by (induction xs) auto

lemma distinct_highest: "distinct (map fst hs) \<Longrightarrow> distinct (map fst (highest unmarshal ts hs))"
  by (induction unmarshal ts hs rule: highest.induct) (auto simp: Let_def distinct_update split: option.splits)

lemma fresh_logI:
  assumes "ql' = ql \<or> (\<exists>f tx. sender tx = Some f \<and> log_enq enq ql tx = Inr ql' \<and> cm f \<le> unat (tx_nonce tx))"
  shows "fresh_log sender (g, ql, rd, c0) (g', ql', rd', cm)"
  using assms
proof
  assume "\<exists>f tx. sender tx = Some f \<and> log_enq enq ql tx = Inr ql' \<and> cm f \<le> unat (tx_nonce tx)"
  then obtain f tx where "sender tx = Some f" "snd ql' = snd ql @ [tx]" "cm f \<le> unat (tx_nonce tx)" using log_enq_Inr by blast
  then show ?thesis by (simp add: fresh_log_def)
qed (simp add: fresh_log_def)

lemma decide_max: "ng_maxPerSender (fst (snd (Admit_decide enq now g q f tx))) = ng_maxPerSender g"
  by (auto simp: Admit_decide_def Let_def ng_park_def split: sum.splits)

lemma begin_max: "ng_maxPerSender (fst (snd (Admit_begin sender enq now g q tx))) = ng_maxPerSender g"
  by (auto simp: Admit_begin_def Let_def split_beta decide_max split: option.splits)

lemma seeded_max: "ng_maxPerSender (fst (snd (Admit_seeded enq now g q f tx seed))) = ng_maxPerSender g"
  by (auto simp: Admit_seeded_def Let_def decide_max split: sum.splits)

lemma unpark_max: "ng_maxPerSender (snd (ng_unpark g f n)) = ng_maxPerSender g"
  by (simp add: ng_unpark_def Let_def split: option.splits)

lemma drop_spent_max: "ng_maxPerSender (drop_spent g f nxt ns) = ng_maxPerSender g"
  by (induction ns arbitrary: g) (simp_all add: unpark_max)

lemma observe_max: "ng_maxPerSender (fst (observe_senders enq now gq hs)) = ng_maxPerSender (fst gq)"
  by (induction enq now gq hs rule: observe_senders.induct)
    (simp_all add: observe_sender_def Let_def split_beta unpark_max drop_spent_max)

lemma ng_step_inv:
  assumes "ng_step U sender unmarshal enq s s'" and "ng_inv U sender s" and inj: "inj_on tx_hash U"
  shows "ng_inv U sender s' \<and> fresh_log sender s s'"
  using assms(1,2)
proof (cases rule: ng_step.cases)
  case (admit_cached now g ql tx r g' ql' rd cm)
  have ok: "gate_ok U sender g" "nonce_ok cm rd g" using assms(2) admit_cached(1) by (simp_all add: ng_inv_def)
  have "gate_ok U sender g'" "ng_maxPerSender g' = ng_maxPerSender g"
    using gate_ok_begin [OF ok(1) inj admit_cached(4), of "log_enq enq" now ql] begin_max [of sender "log_enq enq" now g ql tx] admit_cached(3) by simp_all
  moreover note begin_nonce [OF ok(2) admit_cached(3)]
  ultimately show ?thesis using assms(2) admit_cached(1,2) fresh_logI [of ql' ql sender enq cm g rd cm g' rd] by (auto simp: ng_inv_def)
next
  case (admit_reads now g ql tx g' ql' f rd cm)
  have ok: "gate_ok U sender g" "nonce_ok cm rd g" using assms(2) admit_reads(1) by (simp_all add: ng_inv_def)
  have "gate_ok U sender g'" "ng_maxPerSender g' = ng_maxPerSender g"
    using gate_ok_begin [OF ok(1) inj admit_reads(4), of "log_enq enq" now ql] begin_max [of sender "log_enq enq" now g ql tx] admit_reads(3) by simp_all
  moreover note begin_reading [OF ok(2) admit_reads(3,5)]
  ultimately show ?thesis using assms(2) admit_reads(1,2,4,5) by (auto simp: ng_inv_def fresh_log_def)
next
  case (admit_seeded tx f c rd seed now g ql r g' ql' cm)
  have ok: "gate_ok U sender g" "nonce_ok cm rd g" and tx: "tx \<in> U" "sender tx = Some f"
    using assms(2) admit_seeded(1,3) by (auto simp: ng_inv_def)
  have "gate_ok U sender g'" "ng_maxPerSender g' = ng_maxPerSender g"
    using gate_ok_seeded [OF ok(1) inj tx, of "log_enq enq" now ql seed] seeded_max [of "log_enq enq" now g ql f tx seed] admit_seeded(5) by simp_all
  moreover note seeded_nonce [OF ok(2) admit_seeded(3) _ admit_seeded(5)] 
  moreover have "set (remove1 (tx, f, c) rd) \<subseteq> set rd" by (rule set_remove1_subset)
  ultimately show ?thesis using assms(2) admit_seeded(1,2,4) tx fresh_logI [of ql' ql sender enq cm g rd cm g' "remove1 (tx, f, c) rd"]
    by (auto simp: ng_inv_def)
next
  case (observe hs committed cm now g ql g' ql' rd)
  have ok: "gate_ok U sender g" "nonce_ok cm rd g" using assms(2) observe(1) by (simp_all add: ng_inv_def)
  have d: "distinct (map fst hs)"
    using distinct_highest [of "[]" unmarshal committed] observe(3) by (metis distinct.simps(1) list.simps(8) mset_eq_imp_distinct_iff mset_map)
  have "gate_ok U sender g'" "ng_maxPerSender g' = ng_maxPerSender g"
    using gate_ok_observe [OF ok(1) inj, of "log_enq enq" now ql hs] observe_max [of "log_enq enq" now "(g, ql)" hs] observe(5) by simp_all
  moreover note observe_nonce [OF ok(1) inj ok(2) observe(4) d observe(5)]
  ultimately show ?thesis using assms(2) observe(1,2) by (auto simp: ng_inv_def fresh_log_def)
next
  case (prune g ql rd cm now)
  have ok: "gate_ok U sender g" "nonce_ok cm rd g" using assms(2) prune(1) by (simp_all add: ng_inv_def)
  show ?thesis using gate_ok_prune [OF ok(1) inj, of now] prune_nonce [OF ok(2) gate_okD(1) [OF ok(1)], of now] prune_sel(1) [of g now]
      assms(2) prune(1,2) by (simp add: ng_inv_def fresh_log_def)
qed

lemma ng_reach_inv: "ng_reach U sender unmarshal enq q0 s \<Longrightarrow> inj_on tx_hash U \<Longrightarrow> ng_inv U sender s"
proof (induction rule: ng_reach.induct)
  case start
  then show ?case using gate_ok_new [of U sender]
    by (simp add: ng_inv_def nonce_ok_def newNonceGate_def readers_def sc_lookup_def)
next
  case (step s s')
  then show ?case using ng_step_inv by blast
qed

section \<open>Properties\<close>

text \<open>
  C6. A nonce that is spent never reaches the queue.  In every reachable state of the gate, with any number
  of callers reading the store meanwhile, entries evicted and blocks observed in between, every transaction
  that a step hands to the queue has a nonce above all nonces of its sender that observed blocks committed.
\<close>

theorem NonceGate_never_spent:
  assumes "ng_reach U sender unmarshal enq q0 (g, (q, l), rd, cm)"
    and "ng_step U sender unmarshal enq (g, (q, l), rd, cm) (g', (q', l'), rd', cm')" and "inj_on tx_hash U"
  shows "\<exists>new. l' = l @ new \<and> (\<forall>tx \<in> set new. \<exists>f. sender tx = Some f \<and> cm' f \<le> unat (tx_nonce tx))"
  using ng_step_inv [OF assms(2) ng_reach_inv [OF assms(1,3)] assms(3)] by (simp add: fresh_log_def)

lemmas ng_eval = Admit_begin_def Admit_seeded_def Admit_decide_def Let_def sc_acquire_def sc_lookup_def en_value_def en_raise_def
  ng_release_def sc_release_def upd_sender_def ng_park_def newNonceGate_def newSenderState_def demo_tx_def log_enq_def
  TxQueue_Enqueue_def NewTxQueue_def defaultMaxParkedPerSender_def

definition gate_sender :: "eth_tx \<Rightarrow> address option" where
  "gate_sender tx = Some 7"

definition demo_txs :: "eth_tx set" where
  "demo_txs = {demo_tx 0, demo_tx 5}"

lemma demo_txs_inj: "inj_on tx_hash demo_txs"
  by (simp add: demo_txs_def demo_tx_def)

text \<open>The gate while the first caller reads the store for the transaction \<open>demo_tx n\<close>.\<close>

definition demo_reading :: noncegate where
  "demo_reading = newNonceGate\<lparr>ng_senders := [(7, newSenderState\<lparr>ss_refs := 1\<rparr>)]\<rparr>"

lemma demo_reads:
  assumes "n = 0 \<or> n = 5"
  shows "ng_reach demo_txs gate_sender unmarshal TxQueue_Enqueue NewTxQueue
    (demo_reading, (NewTxQueue, []), [(demo_tx n, 7, 0)], \<lambda>_. 0)"
proof -
  have "Admit_begin gate_sender (log_enq TxQueue_Enqueue) 0 newNonceGate (NewTxQueue, []) (demo_tx n) = (None, demo_reading, (NewTxQueue, []))"
    by (simp add: ng_eval demo_reading_def gate_sender_def)
  moreover have "demo_tx n \<in> demo_txs" "gate_sender (demo_tx n) = Some 7" using assms by (auto simp: demo_txs_def gate_sender_def)
  ultimately have "ng_step demo_txs gate_sender unmarshal TxQueue_Enqueue
      (newNonceGate, (NewTxQueue, []), [], \<lambda>_. 0) (demo_reading, (NewTxQueue, []), [(demo_tx n, 7, 0)], \<lambda>_. 0)"
    using ng_step.admit_reads by fastforce
  then show ?thesis by (rule ng_reach.step [OF ng_reach.start])
qed

definition seeded_state :: "nat \<Rightarrow> noncegate \<times> txqueue \<times> eth_tx list" where
  "seeded_state n = snd (Admit_seeded (log_enq TxQueue_Enqueue) 0 demo_reading (NewTxQueue, []) 7 (demo_tx n) (Inr 0))"

lemma demo_seeded:
  "ng_step demo_txs gate_sender unmarshal TxQueue_Enqueue (demo_reading, (NewTxQueue, []), [(demo_tx n, 7, 0)], \<lambda>_. 0)
     (fst (seeded_state n), snd (seeded_state n), [], \<lambda>_. 0)"
proof -
  have "Admit_seeded (log_enq TxQueue_Enqueue) 0 demo_reading (NewTxQueue, []) 7 (demo_tx n) (Inr 0) =
      (fst (Admit_seeded (log_enq TxQueue_Enqueue) 0 demo_reading (NewTxQueue, []) 7 (demo_tx n) (Inr 0)), fst (seeded_state n), snd (seeded_state n))"
    by (simp add: seeded_state_def)
  from ng_step.admit_seeded [of "demo_tx n" 7 0 "[(demo_tx n, 7, 0)]" "Inr 0", OF _ _ this] show ?thesis by simp
qed

theorem NonceGate_never_spent_witness:
  "\<exists>g' q'. ng_step demo_txs gate_sender (\<lambda>_. None) TxQueue_Enqueue
      (demo_reading, (NewTxQueue, []), [(demo_tx 0, 7, 0)], \<lambda>_. 0) (g', (q', [demo_tx 0]), [], \<lambda>_. 0) \<and>
    (\<exists>new. [demo_tx 0] = [] @ new \<and> (\<forall>tx \<in> set new. \<exists>f. gate_sender tx = Some f \<and> 0 \<le> unat (tx_nonce tx)))"
proof -
  have "snd (snd (seeded_state 0)) = [demo_tx 0]" by (simp add: seeded_state_def ng_eval demo_reading_def)
  then have s: "ng_step demo_txs gate_sender (\<lambda>_. None) TxQueue_Enqueue (demo_reading, (NewTxQueue, []), [(demo_tx 0, 7, 0)], \<lambda>_. 0)
     (fst (seeded_state 0), (fst (snd (seeded_state 0)), [demo_tx 0]), [], \<lambda>_. 0)"
    using demo_seeded [of "\<lambda>_. None" 0] by (metis prod.collapse)
  from NonceGate_never_spent [OF demo_reads s demo_txs_inj] s show ?thesis by blast
qed

text \<open>
  C17. The index of parked transactions.  In every reachable state \<open>IsPending\<close> returns a transaction for a
  hash exactly when a transaction of that hash is parked, under its own sender and nonce; a sender has at
  most 64 parked transactions, one per nonce; and the reference count of a sender is the number of callers
  that are reading the store for it.
\<close>

theorem NonceGate_index:
  assumes "ng_reach U sender unmarshal enq q0 (g, ql, rd, cm)" and "inj_on tx_hash U"
  shows "(ng_IsPending g h = Some tx \<longleftrightarrow>
      tx_hash tx = h \<and> (\<exists>f p. sender tx = Some f \<and> parked_of g f (tx_nonce tx) = Some p \<and> pk_tx p = tx)) \<and>
    distinct (map fst (ss_parked (entry_of g f))) \<and> length (ss_parked (entry_of g f)) \<le> 64 \<and>
    ss_refs (entry_of g f) = length (filter (\<lambda>(_, k, _). k = f) rd)"
proof -
  have inv: "gate_ok U sender g" "nonce_ok cm rd g" "ng_maxPerSender g = 64"
    using ng_reach_inv [OF assms] by (simp_all add: ng_inv_def defaultMaxParkedPerSender_def)
  note D = gate_okD [OF inv(1)]
  have "ng_IsPending g h = Some tx \<longleftrightarrow>
      tx_hash tx = h \<and> (\<exists>f p. sender tx = Some f \<and> parked_of g f (tx_nonce tx) = Some p \<and> pk_tx p = tx)"
    unfolding ng_IsPending_def D(5) using D(4) by blast
  then show ?thesis using D(2,3) [of f] inv(2,3) by (simp add: nonce_ok_def readers_def)
qed

theorem NonceGate_index_witness:
  "ng_IsPending (fst (seeded_state 5)) 5 = Some (demo_tx 5) \<and>
    (\<exists>f p. gate_sender (demo_tx 5) = Some f \<and> parked_of (fst (seeded_state 5)) f 5 = Some p \<and> pk_tx p = demo_tx 5)"
proof -
  have r: "ng_reach demo_txs gate_sender (\<lambda>_. None) TxQueue_Enqueue NewTxQueue (fst (seeded_state 5), snd (seeded_state 5), [], \<lambda>_. 0)"
    by (rule ng_reach.step [OF demo_reads demo_seeded]) simp
  have "ng_IsPending (fst (seeded_state 5)) 5 = Some (demo_tx 5)"
    by (simp add: ng_IsPending_def seeded_state_def ng_eval demo_reading_def)
  moreover have "tx_nonce (demo_tx 5) = 5" by (simp add: demo_tx_def)
  ultimately show ?thesis using NonceGate_index [OF r demo_txs_inj, of 5 "demo_tx 5"] by metis
qed


text \<open>The transaction 5 of sender 7 is parked; a block commits nonce 4 of that sender.\<close>

definition gap_gate :: noncegate where
  "gap_gate = newNonceGate\<lparr>ng_senders := [(7, newSenderState\<lparr>ss_next := \<lparr>en_nonce = 0, en_known = True\<rparr>,
     ss_parked := [(5, \<lparr>pk_tx = demo_tx 5, pk_parkedAt = 0\<rparr>)]\<rparr>)], ng_byHash := [5 \<mapsto> demo_tx 5]\<rparr>"

definition commit_of :: "nat \<Rightarrow> dtx" where
  "commit_of n = \<lparr>dt_hash = [], dt_blockhash = [], dt_block = 1, dt_index = 0, dt_raw = [of_nat n], dt_from = [7], dt_to = [],
     dt_contract = [], dt_status = 1, dt_fabricid = [], dt_valid = True, dt_gas = 0, dt_cumgas = 0, dt_logs = []\<rparr>"

definition raw_nonce :: "bytes \<Rightarrow> eth_tx option" where
  "raw_nonce raw = (case raw of b # _ \<Rightarrow> Some (demo_tx (unat b)) | [] \<Rightarrow> None)"

lemma gap_gate_ok: "gate_ok demo_txs gate_sender gap_gate"
  by (auto simp: gate_ok_def gap_gate_def sc_lookup_def newNonceGate_def newSenderState_def demo_txs_def gate_sender_def
      demo_tx_def defaultMaxParkedPerSender_def split: if_splits)

lemma gap_block: "highest raw_nonce [commit_of 4] [] = [(7, 4)]"
  by (simp add: commit_of_def raw_nonce_def ToEthTx_def BytesToAddress_def unbe_def demo_tx_def)


text \<open>
  C33. Pruning ends and bounds the cache.  The eviction loop ends with at most the configured number of
  senders, or with every remaining sender pinned by a caller or holding parked transactions; no transaction
  older than the time to live stays parked.
\<close>

theorem prune_bounds:
  "(length (ng_senders (ng_prune g now)) \<le> ng_maxSenders g \<or>
      (\<forall>(a, ss) \<in> set (ng_senders (ng_prune g now)). 0 < ss_refs ss \<or> ss_parked ss \<noteq> [])) \<and>
    (\<forall>(a, ss) \<in> set (ng_senders (ng_prune g now)). \<forall>(n, p) \<in> set (ss_parked ss). now - pk_parkedAt p \<le> ng_ttl g)"
proof -
  have "length (evict mx c) \<le> mx \<or> (\<forall>(a, ss) \<in> set (evict mx c). 0 < ss_refs ss \<or> ss_parked ss \<noteq> [])" for mx c
  proof (induction mx c rule: evict.induct)
    case (1 mx c)
    show ?case
    proof (cases "mx < length c \<and> find_oldest c None \<noteq> None")
      case True
      then obtain a t where a: "mx < length c" "find_oldest c None = Some (a, t)" by auto
      then show ?thesis using "1.IH" [OF a refl] by (simp only: evict.simps [of mx c]) simp
    next
      case False
      then have "evict mx c = c" by (subst evict.simps) (auto split: option.split)
      then show ?thesis using False find_oldest_None [of c] by auto
    qed
  qed
  moreover have "set (evict mx c) \<subseteq> set c" for mx c
  proof (induction mx c rule: evict.induct)
    case (1 mx c)
    have "set (evict mx (AList.delete a c)) \<subseteq> set c" if "mx < length c" "find_oldest c None = Some (a, t)" for a t
      using "1.IH" [OF that refl] by (auto simp: AList.delete_eq)
    then show ?case by (subst evict.simps) (simp split: option.split)
  qed
  ultimately show ?thesis unfolding prune_sel by (force simp: expire_sender_def expired_def)
qed

theorem prune_bounds_witness:
  "ng_senders (ng_prune gap_gate 1) = ng_senders gap_gate \<and> 1 - pk_parkedAt \<lparr>pk_tx = demo_tx 5, pk_parkedAt = 0\<rparr> \<le> ng_ttl gap_gate"
proof
  show same: "ng_senders (ng_prune gap_gate 1) = ng_senders gap_gate"
    by (simp add: prune_sel gap_gate_def newNonceGate_def expire_sender_def expired_def defaultParkedTTL_def defaultMaxSenders_def
        newSenderState_def evict.simps)
  have "(7, entry_of gap_gate 7) \<in> set (ng_senders gap_gate)" "(5, \<lparr>pk_tx = demo_tx 5, pk_parkedAt = 0\<rparr>) \<in> set (ss_parked (entry_of gap_gate 7))"
    by (simp_all add: gap_gate_def sc_lookup_def)
  then show "1 - pk_parkedAt \<lparr>pk_tx = demo_tx 5, pk_parkedAt = 0\<rparr> \<le> ng_ttl gap_gate"
    using conjunct2 [OF prune_bounds [of gap_gate 1]] unfolding same by blast
qed

end
