(* ===== verification/HybridSync.thy ===== *)
theory HybridSync
  imports FxPrelude
begin

text \<open>
  Block synchronization (\<open>synchronizer/synchronizer.go\<close>, \<open>synchronizer/hybridx/hybrid.go\<close> and
  \<open>notification.go\<close>, \<open>EVMTx\<close> of \<open>common/events.go\<close>): two services feed one handler chain, and ownership of a
  block is decided by a compare-and-swap.

  The two services are two threads over shared atomic integers.  A thread's program counter names the next
  atomic action of its handler (\<open>deliveryShim.Handle\<close>, \<open>notifGate.HandleBatch\<close>): \<open>shim_step\<close> and \<open>gate_step\<close>
  perform it, \<open>shim_recv\<close> and \<open>gate_recv\<close> start a handler on a received block or batch.  Handlers are functions
  on a store.  A failed handler, on which the source panics, leaves its thread in \<open>DFailed\<close> or \<open>NFailed\<close>; the
  two panics that report a broken protocol have states of their own, \<open>DSeedPanic\<close> and \<open>NOvershoot\<close>.
  \<open>hy_dlast\<close>, \<open>hy_nlast\<close> and \<open>hy_log\<close> record what happened: the last number each service received, and the
  blocks whose dispatch was begun, with the service (true for delivery).
\<close>

section \<open>Handler chains\<close>

type_synonym 's handler = "'s \<Rightarrow> block \<Rightarrow> 's result"

fun dispatch :: "'s handler list \<Rightarrow> 's \<Rightarrow> block \<Rightarrow> 's result" where
  "dispatch [] st b = Inr st"
| "dispatch (h # hs) st b = (case h st b of Inl e \<Rightarrow> Inl e | Inr st' \<Rightarrow> dispatch hs st' b)"

text \<open>\<open>nsFilter.Handle\<close>: each transaction keeps its first read-write set of the namespace.\<close>

fun ns_tx :: "string \<Rightarrow> ns_rwset list \<Rightarrow> ns_rwset option" where
  "ns_tx ns [] = None"
| "ns_tx ns (r # rs) = (if nr_namespace r = ns then Some r else ns_tx ns rs)"

fun ns_txs :: "string \<Rightarrow> block_tx list \<Rightarrow> block_tx list" where
  "ns_txs ns [] = []"
| "ns_txs ns (tx # txs) =
     (case ns_tx ns (bt_nsrws tx) of
        Some r \<Rightarrow> tx\<lparr>bt_nsrws := [r]\<rparr> # ns_txs ns txs
      | None \<Rightarrow> ns_txs ns txs)"

definition nsFilter_Handle :: "string \<Rightarrow> 's handler list \<Rightarrow> 's handler" where
  "nsFilter_Handle ns handlers st b = dispatch handlers st (b\<lparr>bk_txs := ns_txs ns (bk_txs b)\<rparr>)"

section \<open>Batches of the notification service\<close>

record batch =
  ba_number :: u64
  ba_events :: "block_tx list"

definition ProposalTypeEVMTx :: string where
  "ProposalTypeEVMTx = ''evm_tx''"

definition EVMTx :: "block_tx \<Rightarrow> bytes option" where
  "EVMTx tx =
     (if bt_eventname tx \<noteq> ProposalTypeEVMTx \<or> length (bt_inputargs tx) \<noteq> 1 then None
      else Some (bt_inputargs tx ! 0))"

definition blockNumberHash :: "u64 \<Rightarrow> bytes" where
  "blockNumberHash n = replicate 24 0 @ be 8 (unat n)"

definition batch_block :: "int \<Rightarrow> batch \<Rightarrow> block_tx list \<Rightarrow> block" where
  "batch_block now ba txs =
     (let parentNum = (if ba_number ba > 0 then ba_number ba - 1 else 0)
      in \<lparr>bk_number = ba_number ba, bk_hash = blockNumberHash (ba_number ba), bk_parent = blockNumberHash parentNum,
          bk_timestamp = now, bk_txs = txs\<rparr>)"

definition AllTx_HandleBatch :: "'s handler list \<Rightarrow> int \<Rightarrow> 's \<Rightarrow> batch \<Rightarrow> 's result" where
  "AllTx_HandleBatch handlers now st ba =
     (let txs = filter (\<lambda>tx. EVMTx tx \<noteq> None) (ba_events ba)
      in if length txs = 0 then Inr st else dispatch handlers st (batch_block now ba txs))"

section \<open>The hybrid synchronizer\<close>

datatype dpc = DIdle | DSeed block | DStore block | DClaim block | DRun block | DPublish block | DFailed | DSeedPanic

datatype npc = NIdle | NClaim batch | NWait batch | NSwitch batch | NRun batch | NFailed | NOvershoot

record 's hybrid =
  hy_claimed :: int
  hy_dispatched :: int
  hy_off :: bool
  hy_seeded :: bool
  hy_switched :: bool
  hy_dpc :: dpc
  hy_npc :: npc
  hy_store :: 's
  hy_dlast :: "int option"
  hy_nlast :: "int option"
  hy_log :: "(bool \<times> int) list"

definition MinInt64 :: int where
  "MinInt64 = - (2 ^ 63)"

text \<open>\<open>int64(b.Number)\<close> and \<open>atomic.Int64.CompareAndSwap\<close>.\<close>

definition bnum :: "block \<Rightarrow> int" where
  "bnum b = sint (bk_number b)"

definition banum :: "batch \<Rightarrow> int" where
  "banum b = sint (ba_number b)"

definition CompareAndSwap :: "int \<Rightarrow> int \<Rightarrow> int \<Rightarrow> bool \<times> int" where
  "CompareAndSwap v old new = (if v = old then (True, new) else (False, v))"

definition hybrid_start :: "'s \<Rightarrow> 's hybrid" where
  "hybrid_start st = \<lparr>hy_claimed = MinInt64, hy_dispatched = MinInt64, hy_off = False, hy_seeded = False, hy_switched = False,
     hy_dpc = DIdle, hy_npc = NIdle, hy_store = st, hy_dlast = None, hy_nlast = None, hy_log = []\<rparr>"

definition shim_recv :: "block \<Rightarrow> 's hybrid \<Rightarrow> 's hybrid" where
  "shim_recv b s =
     (let s = s\<lparr>hy_dlast := Some (bnum b)\<rparr> in
      if hy_off s then s
      else if \<not> hy_seeded s then s\<lparr>hy_seeded := True, hy_dpc := DSeed b\<rparr>
      else s\<lparr>hy_dpc := DClaim b\<rparr>)"

definition shim_step :: "'s handler list \<Rightarrow> 's hybrid \<Rightarrow> 's hybrid" where
  "shim_step handlers s =
     (case hy_dpc s of
        DSeed b \<Rightarrow>
          (let (ok, c) = CompareAndSwap (hy_claimed s) MinInt64 (bnum b - 1)
           in if \<not> ok then s\<lparr>hy_dpc := DSeedPanic\<rparr> else s\<lparr>hy_claimed := c, hy_dpc := DStore b\<rparr>)
      | DStore b \<Rightarrow> s\<lparr>hy_dispatched := bnum b - 1, hy_dpc := DClaim b\<rparr>
      | DClaim b \<Rightarrow>
          (let (ok, c) = CompareAndSwap (hy_claimed s) (bnum b - 1) (bnum b)
           in if \<not> ok then s\<lparr>hy_off := True, hy_dpc := DIdle\<rparr>
              else s\<lparr>hy_claimed := c, hy_dpc := DRun b, hy_log := hy_log s @ [(True, bnum b)]\<rparr>)
      | DRun b \<Rightarrow>
          (case dispatch handlers (hy_store s) b of
             Inl e \<Rightarrow> s\<lparr>hy_dpc := DFailed\<rparr>
           | Inr st \<Rightarrow> s\<lparr>hy_store := st, hy_dpc := DPublish b\<rparr>)
      | DPublish b \<Rightarrow> s\<lparr>hy_dispatched := bnum b, hy_dpc := DIdle\<rparr>
      | _ \<Rightarrow> s)"

definition gate_recv :: "batch \<Rightarrow> 's hybrid \<Rightarrow> 's hybrid" where
  "gate_recv b s =
     (let s = s\<lparr>hy_nlast := Some (banum b)\<rparr> in
      if hy_switched s then s\<lparr>hy_npc := NRun b, hy_log := hy_log s @ [(False, banum b)]\<rparr>
      else s\<lparr>hy_npc := NClaim b\<rparr>)"

text \<open>\<open>None\<close>: delivery has gone past the block, on which the source panics.\<close>

definition deliveryReached :: "int \<Rightarrow> int \<Rightarrow> bool option" where
  "deliveryReached d upTo = (if d > upTo then None else Some (d = upTo))"

text \<open>One round of the wait, and the dispatch of a batch.\<close>

definition waitForDelivery :: "batch \<Rightarrow> 's hybrid \<Rightarrow> 's hybrid" where
  "waitForDelivery b s =
     (case deliveryReached (hy_dispatched s) (banum b - 1) of
        None \<Rightarrow> s\<lparr>hy_npc := NOvershoot\<rparr>
      | Some reached \<Rightarrow> if reached then s\<lparr>hy_npc := NSwitch b\<rparr> else s)"

definition dispatchBatch :: "'s handler list \<Rightarrow> int \<Rightarrow> batch \<Rightarrow> 's hybrid \<Rightarrow> 's hybrid" where
  "dispatchBatch handlers now b s =
     (case AllTx_HandleBatch handlers now (hy_store s) b of
        Inl e \<Rightarrow> s\<lparr>hy_npc := NFailed\<rparr>
      | Inr st \<Rightarrow> s\<lparr>hy_store := st, hy_npc := NIdle\<rparr>)"

definition gate_step :: "'s handler list \<Rightarrow> int \<Rightarrow> 's hybrid \<Rightarrow> 's hybrid" where
  "gate_step handlers now s =
     (case hy_npc s of
        NClaim b \<Rightarrow>
          (let (ok, c) = CompareAndSwap (hy_claimed s) (banum b - 1) (banum b)
           in if \<not> ok then s\<lparr>hy_npc := NIdle\<rparr> else s\<lparr>hy_claimed := c, hy_npc := NWait b\<rparr>)
      | NWait b \<Rightarrow> waitForDelivery b s
      | NSwitch b \<Rightarrow> s\<lparr>hy_switched := True, hy_npc := NRun b, hy_log := hy_log s @ [(False, banum b)]\<rparr>
      | NRun b \<Rightarrow> dispatchBatch handlers now b s
      | _ \<Rightarrow> s)"

lemmas gate_defs = gate_step_def waitForDelivery_def deliveryReached_def dispatchBatch_def

text \<open>
  The threads interleave freely.  Delivery receives consecutive blocks; notification may lose batches but
  receives them in order.
\<close>

inductive hy_step :: "'s handler list \<Rightarrow> 's hybrid \<Rightarrow> 's hybrid \<Rightarrow> bool"
  for handlers where
  shim_receives: "hy_dpc s = DIdle \<Longrightarrow> 0 \<le> bnum b \<Longrightarrow> (\<forall>m. hy_dlast s = Some m \<longrightarrow> bnum b = m + 1) \<Longrightarrow> hy_step handlers s (shim_recv b s)"
| shim_steps: "hy_step handlers s (shim_step handlers s)"
| gate_receives: "hy_npc s = NIdle \<Longrightarrow> 0 \<le> banum b \<Longrightarrow> (\<forall>m. hy_nlast s = Some m \<longrightarrow> m < banum b) \<Longrightarrow> hy_step handlers s (gate_recv b s)"
| gate_steps: "hy_step handlers s (gate_step handlers now s)"

inductive hy_reach :: "'s handler list \<Rightarrow> 's \<Rightarrow> 's hybrid \<Rightarrow> bool"
  for handlers st where
  hy_start: "hy_reach handlers st (hybrid_start st)"
| hy_next: "hy_reach handlers st s \<Longrightarrow> hy_step handlers s s' \<Longrightarrow> hy_reach handlers st s'"

end
