(* ===== verification/HybridProps.thy ===== *)
theory HybridProps
  imports HybridSync
begin

text \<open>
  Correctness of the handoff between the two block services.  The invariant \<open>hy_inv\<close> describes the shared
  integers and the log by the control points of the two threads: before notification has won a block
  (\<open>unwon\<close>), and from the moment it has won block \<open>w\<close> (\<open>won w\<close>).
\<close>

section \<open>The invariant\<close>

text \<open>What was dispatched: delivery's blocks up to \<open>e\<close>, without a gap.\<close>

definition dlog :: "'s hybrid \<Rightarrow> int \<Rightarrow> bool" where
  "dlog s e \<longleftrightarrow> (\<exists>a. a \<le> e + 1 \<and> hy_log s = map (Pair True) [a..e])"

definition unwon :: "'s hybrid \<Rightarrow> bool" where
  "unwon s \<longleftrightarrow> \<not> hy_switched s \<and> (hy_npc s = NIdle \<or> (\<exists>b. hy_npc s = NClaim b \<and> 0 \<le> banum b \<and> hy_nlast s = Some (banum b)))"

definition waiting :: "int \<Rightarrow> 's hybrid \<Rightarrow> bool" where
  "waiting w s \<longleftrightarrow> \<not> hy_switched s \<and> hy_claimed s = w \<and> hy_nlast s = Some w \<and> (\<exists>b. hy_npc s = NWait b \<and> banum b = w)"

definition taken :: "int \<Rightarrow> 's hybrid \<Rightarrow> bool" where
  "taken w s \<longleftrightarrow> \<not> hy_switched s \<and> hy_claimed s = w \<and> hy_nlast s = Some w \<and> dlog s (w - 1) \<and> (\<exists>b. hy_npc s = NSwitch b \<and> banum b = w)"

definition owned :: "int \<Rightarrow> 's hybrid \<Rightarrow> bool" where
  "owned w s \<longleftrightarrow> hy_switched s \<and> hy_claimed s = w \<and> (hy_npc s = NIdle \<or> hy_npc s = NFailed \<or> (\<exists>b. hy_npc s = NRun b)) \<and>
     (\<exists>a ns k. a \<le> w \<and> hy_log s = map (Pair True) [a..w - 1] @ map (Pair False) (w # ns) \<and> sorted_wrt (<) (w # ns) \<and>
        hy_nlast s = Some k \<and> (\<forall>x \<in> set (w # ns). x \<le> k))"

definition won :: "int \<Rightarrow> 's hybrid \<Rightarrow> bool" where
  "won w s \<longleftrightarrow> (waiting w s \<and> dlog s (w - 1)) \<or> taken w s \<or> owned w s"

definition hy_inv :: "'s hybrid \<Rightarrow> bool" where
  "hy_inv s \<longleftrightarrow>
     (if \<not> hy_seeded s then hy_dlast s = None \<and> hy_claimed s = MinInt64 \<and> hy_dispatched s = MinInt64 \<and> hy_dpc s = DIdle \<and>
        \<not> hy_off s \<and> unwon s \<and> hy_log s = []
      else \<exists>m. hy_dlast s = Some m \<and> 0 \<le> m \<and>
        (case hy_dpc s of
           DSeed b \<Rightarrow> bnum b = m \<and> hy_claimed s = MinInt64 \<and> hy_dispatched s = MinInt64 \<and> \<not> hy_off s \<and> unwon s \<and> hy_log s = []
         | DStore b \<Rightarrow> bnum b = m \<and> hy_dispatched s = MinInt64 \<and> \<not> hy_off s \<and> hy_log s = [] \<and> (hy_claimed s = m - 1 \<and> unwon s \<or> waiting m s)
         | DClaim b \<Rightarrow> bnum b = m \<and> hy_dispatched s = m - 1 \<and> \<not> hy_off s \<and> (hy_claimed s = m - 1 \<and> unwon s \<and> dlog s (m - 1) \<or> won m s)
         | DIdle \<Rightarrow> (\<not> hy_off s \<and> hy_dispatched s = m \<and> (hy_claimed s = m \<and> unwon s \<and> dlog s m \<or> won (m + 1) s)) \<or>
             (hy_off s \<and> (\<exists>w. hy_dispatched s = w - 1 \<and> won w s))
         | DSeedPanic \<Rightarrow> False
         | DFailed \<Rightarrow> hy_dispatched s = m - 1 \<and> dlog s m \<and> (hy_claimed s = m \<and> unwon s \<or> waiting (m + 1) s)
         | DRun b \<Rightarrow> bnum b = m \<and> \<not> hy_off s \<and> hy_dispatched s = m - 1 \<and> dlog s m \<and> (hy_claimed s = m \<and> unwon s \<or> waiting (m + 1) s)
         | DPublish b \<Rightarrow> bnum b = m \<and> \<not> hy_off s \<and> hy_dispatched s = m - 1 \<and> dlog s m \<and> (hy_claimed s = m \<and> unwon s \<or> waiting (m + 1) s)))"

lemmas phase_defs = dlog_def unwon_def waiting_def taken_def owned_def won_def

lemma hy_inv_start: "hy_inv (hybrid_start st)"
  by (simp add: hy_inv_def hybrid_start_def unwon_def)

text \<open>The log grows at the end of either part.\<close>

lemma dlog_snoc: "dlog s (m - 1) \<Longrightarrow> hy_log s' = hy_log s @ [(True, m)] \<Longrightarrow> dlog s' m"
proof -
  assume "dlog s (m - 1)" "hy_log s' = hy_log s @ [(True, m)]"
  then obtain a where a: "a \<le> m" "hy_log s' = map (Pair True) [a..m - 1] @ [(True, m)]" by (auto simp: dlog_def)
  moreover have "[a..m] = [a..m - 1] @ [m]" using a(1) upto_rec2 by simp
  ultimately show ?thesis unfolding dlog_def by (intro exI [of _ a]) simp
qed

lemma dlog_empty: "hy_log s = [] \<Longrightarrow> dlog s e"
  unfolding dlog_def by (intro exI [of _ "e + 1"]) simp

text \<open>A step of one thread leaves what the invariant says of the other as it was.\<close>

lemma phase_cong:
  assumes "hy_switched s' = hy_switched s" "hy_npc s' = hy_npc s" "hy_nlast s' = hy_nlast s"
  shows "unwon s' \<longleftrightarrow> unwon s"
    and "hy_claimed s' = hy_claimed s \<Longrightarrow> waiting w s' \<longleftrightarrow> waiting w s"
    and "hy_claimed s' = hy_claimed s \<Longrightarrow> hy_log s' = hy_log s \<Longrightarrow> won w s' \<longleftrightarrow> won w s"
    and "hy_log s' = hy_log s \<Longrightarrow> dlog s' e \<longleftrightarrow> dlog s e"
  using assms by (simp_all add: phase_defs)

lemma MinInt_less: "0 \<le> m \<Longrightarrow> MinInt64 < m - 1"
  by (simp add: MinInt64_def)

lemma shim_recv_inv:
  assumes inv: "hy_inv s" and "hy_dpc s = DIdle" "0 \<le> bnum b" "\<forall>m. hy_dlast s = Some m \<longrightarrow> bnum b = m + 1"
  shows "hy_inv (shim_recv b s)"
proof (cases "hy_seeded s")
  case False
  then have f: "\<not> hy_off s" "hy_claimed s = MinInt64" "hy_dispatched s = MinInt64" "unwon s" "hy_log s = []"
    using inv by (auto simp: hy_inv_def)
  moreover have "unwon (shim_recv b s)" using f(1,4) by (simp add: shim_recv_def Let_def phase_defs)
  ultimately show ?thesis using False assms(3) by (simp add: hy_inv_def shim_recv_def Let_def)
next
  case True
  then obtain m where m: "hy_dlast s = Some m" "0 \<le> m"
    "(\<not> hy_off s \<and> hy_dispatched s = m \<and> (hy_claimed s = m \<and> unwon s \<and> dlog s m \<or> won (m + 1) s)) \<or>
       (hy_off s \<and> (\<exists>w. hy_dispatched s = w - 1 \<and> won w s))"
    using inv assms(2) by (auto simp: hy_inv_def)
  have n: "bnum b = m + 1" using assms(4) m(1) by simp
  have c: "unwon (shim_recv b s) \<longleftrightarrow> unwon s" "won w (shim_recv b s) \<longleftrightarrow> won w s" "dlog (shim_recv b s) e \<longleftrightarrow> dlog s e" for w e
    using True by (auto simp: shim_recv_def Let_def phase_defs)
  have sel: "hy_claimed (shim_recv b s) = hy_claimed s" "hy_dispatched (shim_recv b s) = hy_dispatched s" "hy_off (shim_recv b s) = hy_off s"
    "hy_dlast (shim_recv b s) = Some (m + 1)" "hy_seeded (shim_recv b s)" "hy_dpc (shim_recv b s) = (if hy_off s then DIdle else DClaim b)"
    using True assms(2) n by (simp_all add: shim_recv_def Let_def)
  show ?thesis using m(2,3) n True sel(5) unfolding hy_inv_def sel(1-4,6) c by (cases "hy_off s") auto
qed

lemma shim_step_inv:
  assumes inv: "hy_inv s"
  shows "hy_inv (shim_step handlers s)"
proof (cases "hy_seeded s")
  case False
  then show ?thesis using inv by (simp add: hy_inv_def shim_step_def)
next
  case True
  let ?s = "shim_step handlers s"
  obtain m where m: "hy_dlast s = Some m" "0 \<le> m" using inv True by (auto simp: hy_inv_def)
  have keep: "hy_seeded ?s" "hy_dlast ?s = Some m" "hy_switched ?s = hy_switched s" "hy_npc ?s = hy_npc s" "hy_nlast ?s = hy_nlast s"
    using True m(1) by (auto simp: shim_step_def Let_def CompareAndSwap_def split: dpc.splits sum.splits)
  note c = phase_cong [OF keep(3-5)]
  show ?thesis
  proof (cases "hy_dpc s")
    case (DSeed b)
    then have f: "bnum b = m" "hy_claimed s = MinInt64" "\<not> hy_off s" "unwon s" "hy_log s = []" "hy_dispatched s = MinInt64"
      using inv True m by (auto simp: hy_inv_def)
    then show ?thesis using keep m c(1) DSeed by (simp add: hy_inv_def shim_step_def CompareAndSwap_def)
  next
    case (DStore b)
    then have f: "bnum b = m" "\<not> hy_off s" "hy_log s = []" "hy_claimed s = m - 1 \<and> unwon s \<or> waiting m s"
      using inv True m by (auto simp: hy_inv_def)
    have sel: "hy_dpc ?s = DClaim b" "hy_dispatched ?s = m - 1" "hy_off ?s = hy_off s" "hy_claimed ?s = hy_claimed s" "hy_log ?s = hy_log s"
      using DStore f(1) by (simp_all add: shim_step_def)
    show ?thesis using f keep m c(1) c(2) [OF sel(4)] dlog_empty [of ?s] sel by (auto simp: hy_inv_def won_def)
  next
    case (DClaim b)
    then have f: "bnum b = m" "\<not> hy_off s" "hy_dispatched s = m - 1" "hy_claimed s = m - 1 \<and> unwon s \<and> dlog s (m - 1) \<or> won m s"
      using inv True m by (auto simp: hy_inv_def)
    show ?thesis
    proof (cases "hy_claimed s = m - 1")
      case win: True
      then have "unwon s" "dlog s (m - 1)" using f(4) by (auto simp: phase_defs)
      have sel: "hy_dpc ?s = DRun b" "hy_dispatched ?s = m - 1" "\<not> hy_off ?s" "hy_claimed ?s = m" "hy_log ?s = hy_log s @ [(True, m)]"
        using DClaim f win by (simp_all add: shim_step_def CompareAndSwap_def)
      show ?thesis using f(1) keep m c(1) dlog_snoc [OF \<open>dlog s (m - 1)\<close> sel(5)] \<open>unwon s\<close> sel by (auto simp: hy_inv_def)
    next
      case False
      have sel: "hy_dpc ?s = DIdle" "hy_dispatched ?s = m - 1" "hy_off ?s" "hy_claimed ?s = hy_claimed s" "hy_log ?s = hy_log s"
        using DClaim f False by (simp_all add: shim_step_def CompareAndSwap_def)
      show ?thesis using f(4) False keep m c(3) [OF sel(4,5)] sel by (auto simp: hy_inv_def)
    qed
  next
    case (DRun b)
    then have f: "bnum b = m" "\<not> hy_off s" "hy_dispatched s = m - 1" "dlog s m" "hy_claimed s = m \<and> unwon s \<or> waiting (m + 1) s"
      using inv True m by (auto simp: hy_inv_def)
    have sel: "hy_dpc ?s = DFailed \<or> hy_dpc ?s = DPublish b" "hy_dispatched ?s = m - 1" "\<not> hy_off ?s" "hy_claimed ?s = hy_claimed s" "hy_log ?s = hy_log s"
      using DRun f by (auto simp: shim_step_def split: sum.splits)
    show ?thesis using f keep m c(1) c(2) [OF sel(4)] c(4) [OF sel(5)] sel by (auto simp: hy_inv_def)
  next
    case (DPublish b)
    then have f: "bnum b = m" "\<not> hy_off s" "dlog s m" "hy_claimed s = m \<and> unwon s \<or> waiting (m + 1) s"
      using inv True m by (auto simp: hy_inv_def)
    have sel: "hy_dpc ?s = DIdle" "hy_dispatched ?s = m" "\<not> hy_off ?s" "hy_claimed ?s = hy_claimed s" "hy_log ?s = hy_log s"
      using DPublish f by (simp_all add: shim_step_def)
    show ?thesis using f keep m c(1) c(2) [OF sel(4)] c(4) [OF sel(5)] sel by (auto simp: hy_inv_def won_def)
  qed (use inv in \<open>simp_all add: shim_step_def\<close>)
qed

lemma only_phase:
  "hy_npc s = NIdle \<Longrightarrow> \<not> hy_switched s \<Longrightarrow> \<not> waiting w s \<and> \<not> won w s"
  "hy_npc s = NIdle \<Longrightarrow> hy_switched s \<Longrightarrow> \<not> unwon s \<and> \<not> waiting w s \<and> (won w s \<longleftrightarrow> owned w s)"
  "hy_npc s = NClaim b \<Longrightarrow> \<not> waiting w s \<and> \<not> won w s"
  "hy_npc s = NWait b \<Longrightarrow> \<not> unwon s \<and> (won w s \<longleftrightarrow> waiting w s \<and> dlog s (w - 1)) \<and> (waiting w s \<longrightarrow> banum b = w)"
  "hy_npc s = NSwitch b \<Longrightarrow> \<not> unwon s \<and> \<not> waiting w s \<and> (won w s \<longleftrightarrow> taken w s)"
  "hy_npc s = NRun b \<Longrightarrow> \<not> unwon s \<and> \<not> waiting w s \<and> (won w s \<longleftrightarrow> owned w s)"
  "hy_npc s = NFailed \<Longrightarrow> \<not> unwon s \<and> \<not> waiting w s \<and> (won w s \<longleftrightarrow> owned w s)"
  "hy_npc s = NOvershoot \<Longrightarrow> \<not> unwon s \<and> \<not> waiting w s \<and> \<not> won w s"
  by (auto simp: phase_defs)

text \<open>The state after a step of the notification thread, as far as the invariant of delivery asks.\<close>

definition same_delivery :: "'s hybrid \<Rightarrow> 's hybrid \<Rightarrow> bool" where
  "same_delivery s s' \<longleftrightarrow> hy_seeded s' = hy_seeded s \<and> hy_dlast s' = hy_dlast s \<and> hy_dpc s' = hy_dpc s \<and> hy_off s' = hy_off s \<and>
     hy_dispatched s' = hy_dispatched s"

lemma same_deliveryD:
  "same_delivery s s' \<Longrightarrow> hy_seeded s' = hy_seeded s" "same_delivery s s' \<Longrightarrow> hy_dlast s' = hy_dlast s"
  "same_delivery s s' \<Longrightarrow> hy_dpc s' = hy_dpc s" "same_delivery s s' \<Longrightarrow> hy_off s' = hy_off s"
  "same_delivery s s' \<Longrightarrow> hy_dispatched s' = hy_dispatched s"
  by (simp_all add: same_delivery_def)

text \<open>Notification stays as it was, in the eyes of the invariant.\<close>

lemma inv_transfer:
  assumes inv: "hy_inv s" and same: "same_delivery s s'"
    and "unwon s \<Longrightarrow> unwon s' \<and> hy_claimed s' = hy_claimed s \<and> hy_log s' = hy_log s" and "\<And>w. waiting w s \<Longrightarrow> waiting w s' \<and> hy_log s' = hy_log s"
    and "\<And>w. won w s \<Longrightarrow> won w s'"
  shows "hy_inv s'"
proof -
  have d: "dlog s' e" if "hy_log s' = hy_log s" "dlog s e" for e using that by (simp add: dlog_def)
  show ?thesis
    using inv assms(3-5) d unfolding hy_inv_def same_deliveryD [OF same]
    by (cases "hy_dpc s"; cases "hy_seeded s") (simp_all, (metis+)?)
qed

lemma gate_recv_inv:
  assumes inv: "hy_inv s" and idle: "hy_npc s = NIdle" and b: "0 \<le> banum b" "\<forall>m. hy_nlast s = Some m \<longrightarrow> m < banum b"
  shows "hy_inv (gate_recv b s)"
proof (rule inv_transfer [OF inv])
  show "same_delivery s (gate_recv b s)" by (simp add: same_delivery_def gate_recv_def Let_def)
  show "unwon (gate_recv b s) \<and> hy_claimed (gate_recv b s) = hy_claimed s \<and> hy_log (gate_recv b s) = hy_log s" if "unwon s"
    using that b(1) by (auto simp: unwon_def gate_recv_def Let_def)
  show "waiting w (gate_recv b s) \<and> hy_log (gate_recv b s) = hy_log s" if "waiting w s" for w
    using that idle by (simp add: waiting_def)
  show "won w (gate_recv b s)" if "won w s" for w
  proof -
    have own: "owned w s" "hy_switched s" using that only_phase(1,2) [OF idle] by blast+
    then obtain a ns k where l: "a \<le> w" "hy_log s = map (Pair True) [a..w - 1] @ map (Pair False) (w # ns)" "sorted_wrt (<) (w # ns)"
      "hy_nlast s = Some k" "\<forall>x \<in> set (w # ns). x \<le> k" by (auto simp: owned_def)
    have "k < banum b" using b(2) l(4) by simp
    then have "sorted_wrt (<) (w # ns @ [banum b])" "\<forall>x \<in> set (w # ns @ [banum b]). x \<le> banum b"
      using l(3,5) by (auto simp: sorted_wrt_append)
    moreover have "hy_log (gate_recv b s) = map (Pair True) [a..w - 1] @ map (Pair False) (w # ns @ [banum b])"
      "hy_nlast (gate_recv b s) = Some (banum b)" "hy_claimed (gate_recv b s) = w" "hy_switched (gate_recv b s)" "hy_npc (gate_recv b s) = NRun b"
      using own l(2) by (simp_all add: gate_recv_def Let_def owned_def)
    ultimately have "owned w (gate_recv b s)" using l(1) unfolding owned_def by blast
    then show ?thesis by (simp add: won_def)
  qed
qed

lemma claim_inv:
  assumes inv: "hy_inv s" and b: "hy_npc s = NClaim b" "hy_claimed s = banum b - 1"
    and same: "same_delivery s s'" and s': "waiting (banum b) s'" "hy_log s' = hy_log s"
  shows "hy_inv s'"
proof -
  have un: "unwon s \<Longrightarrow> 0 \<le> banum b" using b(1) by (auto simp: unwon_def)
  have d: "dlog s' e \<longleftrightarrow> dlog s e" for e using s'(2) by (simp add: dlog_def)
  have no: "\<not> waiting w s" "\<not> won w s" for w using only_phase(3) [OF b(1)] by auto
  have won: "won (banum b) s'" if "dlog s (banum b - 1)" using s'(1) that d by (simp add: won_def)
  have b': "banum b = hy_claimed s + 1" using b(2) by simp
  show ?thesis
    using inv un no s'(1) won d MinInt_less [of "banum b"] unfolding hy_inv_def same_deliveryD [OF same] b'
    by (cases "hy_dpc s"; cases "hy_seeded s") (auto simp: s'(2))
qed

lemma won_seeded: "hy_inv s \<Longrightarrow> \<not> unwon s \<Longrightarrow> hy_seeded s"
  by (cases "hy_seeded s") (simp_all add: hy_inv_def)

lemma poll_inv:
  assumes inv: "hy_inv s" and b: "hy_npc s = NWait b" "hy_dispatched s = banum b - 1"
    and same: "same_delivery s s'" and s': "\<And>w. waiting w s \<Longrightarrow> dlog s (w - 1) \<Longrightarrow> taken w s'"
  shows "hy_inv s'"
proof -
  have un: "\<not> unwon s" and wt: "\<And>w. waiting w s \<Longrightarrow> w = banum b" and wn: "\<And>w. won w s \<Longrightarrow> won w s'"
    using only_phase(4) [OF b(1)] s' by (auto simp: won_def)
  have seeded: "hy_seeded s" by (rule won_seeded [OF inv un])
  then obtain m where m: "hy_dlast s = Some m" "0 \<le> m" using inv by (auto simp: hy_inv_def)
  have late: "\<not> waiting (m + 1) s" if "hy_dispatched s = m - 1" using wt [of "m + 1"] that b(2) by auto
  have early: "\<not> waiting m s" if "hy_dispatched s = MinInt64" using wt [of m] that b(2) MinInt_less [OF m(2)] by auto
  show ?thesis
    using inv seeded m un wn late early unfolding hy_inv_def same_deliveryD [OF same]
    by (cases "hy_dpc s") (simp_all, blast+)
qed

lemma wait_le:
  assumes inv: "hy_inv s" and b: "hy_npc s = NWait b"
  shows "hy_dispatched s \<le> banum b - 1"
proof -
  have un: "\<not> unwon s" and wt: "\<And>w. waiting w s \<Longrightarrow> banum b = w" and wn: "\<And>w. won w s \<Longrightarrow> banum b = w"
    using only_phase(4) [OF b] by auto
  have seeded: "hy_seeded s" by (rule won_seeded [OF inv un])
  then obtain m where m: "hy_dlast s = Some m" "0 \<le> m" using inv by (auto simp: hy_inv_def)
  show ?thesis
    using inv seeded m un MinInt_less [OF m(2)] unfolding hy_inv_def by (cases "hy_dpc s") (auto dest: wt wn)
qed

lemma gate_step_inv:
  assumes inv: "hy_inv s"
  shows "hy_inv (gate_step handlers now s)"
proof -
  let ?s = "gate_step handlers now s"
  have same: "same_delivery s ?s"
    by (auto simp: same_delivery_def gate_defs Let_def CompareAndSwap_def split: npc.splits sum.splits)
  show ?thesis
  proof (cases "hy_npc s")
    case (NClaim b)
    show ?thesis
    proof (cases "hy_claimed s = banum b - 1")
      case True
      have un: "unwon s"
        using inv only_phase(3) [OF NClaim] by (cases "hy_dpc s"; cases "hy_seeded s") (auto simp: hy_inv_def)
      have "waiting (banum b) ?s" "hy_log ?s = hy_log s"
        using True NClaim un by (simp_all add: gate_defs CompareAndSwap_def waiting_def unwon_def)
      then show ?thesis by (rule claim_inv [OF inv NClaim True same])
    next
      case False
      have s: "?s = s\<lparr>hy_npc := NIdle\<rparr>" using False NClaim by (simp add: gate_defs CompareAndSwap_def)
      show ?thesis by (rule inv_transfer [OF inv same]) (use only_phase(3) [OF NClaim] in \<open>auto simp: s unwon_def\<close>)
    qed
  next
    case (NWait b)
    show ?thesis
    proof (cases "hy_dispatched s = banum b - 1")
      case True
      have "?s = s\<lparr>hy_npc := NSwitch b\<rparr>" using True NWait by (simp add: gate_defs)
      then show ?thesis using NWait by (intro poll_inv [OF inv NWait True same]) (auto simp: waiting_def taken_def dlog_def)
    next
      case False
      then have "?s = s" using NWait wait_le [OF inv NWait] by (simp add: gate_defs)
      then show ?thesis using inv by simp
    qed
  next
    case (NSwitch b)
    have s: "?s = s\<lparr>hy_switched := True, hy_npc := NRun b, hy_log := hy_log s @ [(False, banum b)]\<rparr>"
      using NSwitch by (simp add: gate_defs)
    have "owned w ?s" if t: "taken w s" for w
    proof -
      obtain a where a: "a \<le> w" "hy_log s = map (Pair True) [a..w - 1]" using t by (auto simp: taken_def dlog_def)
      have w: "banum b = w" "hy_claimed s = w" "hy_nlast s = Some w" using t NSwitch by (auto simp: taken_def)
      show ?thesis unfolding owned_def s using a w
        by (intro conjI exI [of _ a] exI [of _ "[]"] exI [of _ w]) simp_all
    qed
    then show ?thesis using only_phase(5) [OF NSwitch] by (intro inv_transfer [OF inv same]) (auto simp: won_def)
  next
    case (NRun b)
    have s: "hy_switched ?s = hy_switched s" "hy_claimed ?s = hy_claimed s" "hy_log ?s = hy_log s" "hy_nlast ?s = hy_nlast s"
      "hy_npc ?s = NIdle \<or> hy_npc ?s = NFailed" using NRun by (auto simp: gate_defs split: sum.splits)
    have "owned w ?s" if "owned w s" for w using that s(5) unfolding owned_def s(1-4) by blast
    then show ?thesis using only_phase(6) [OF NRun] by (intro inv_transfer [OF inv same]) (auto simp: won_def)
  qed (use inv in \<open>simp_all add: gate_defs\<close>)
qed

lemma hy_reach_inv: "hy_reach handlers st s \<Longrightarrow> hy_inv s"
proof (induction rule: hy_reach.induct)
  case hy_start
  show ?case by (rule hy_inv_start)
next
  case (hy_next s s')
  from hy_next(2,3) show ?case
    by (cases rule: hy_step.cases) (simp_all add: shim_recv_inv shim_step_inv gate_recv_inv gate_step_inv)
qed

section \<open>Properties\<close>

text \<open>
  C10. One path at a time.  However the two services interleave, delivery and notification never run the
  handler chain at the same time, and neither of the two panics that report a broken claim protocol (the
  seed found a claimed block; delivery dispatched past a block that notification owns) is ever reached.
\<close>

theorem Hybrid_exclusive:
  assumes "hy_reach handlers st s"
  shows "\<not> (\<exists>b b'. hy_dpc s = DRun b \<and> hy_npc s = NRun b') \<and> hy_dpc s \<noteq> DSeedPanic \<and> hy_npc s \<noteq> NOvershoot"
proof -
  note inv = hy_reach_inv [OF assms]
  have "\<not> (hy_dpc s = DRun b \<and> hy_npc s = NRun b')" for b b'
    using inv only_phase(6) [of s b'] by (cases "hy_seeded s") (auto simp: hy_inv_def)
  moreover have "hy_dpc s \<noteq> DSeedPanic" using inv by (cases "hy_seeded s") (auto simp: hy_inv_def)
  moreover have "hy_npc s \<noteq> NOvershoot"
    using inv only_phase(8) [of s] by (cases "hy_seeded s"; cases "hy_dpc s") (auto simp: hy_inv_def)
  ultimately show ?thesis by blast
qed


text \<open>
  C16. The handoff completes.  When notification has won a block and the handlers do not fail, at most two
  more actions of delivery finish the block before, and the next poll of notification sees it and takes over.
\<close>

theorem Hybrid_takes_over:
  assumes "hy_reach handlers st s" and "hy_npc s = NWait b" and "hy_dpc s \<noteq> DFailed"
    and "\<forall>x b. \<exists>x'. dispatch handlers x b = Inr x'"
  shows "\<exists>k \<le> 2. hy_npc (gate_step handlers now ((shim_step handlers ^^ k) s)) = NSwitch b"
proof -
  note inv = hy_reach_inv [OF assms(1)]
  have un: "\<not> unwon s" and wt: "\<And>w. waiting w s \<Longrightarrow> banum b = w" and wn: "\<And>w. won w s \<Longrightarrow> banum b = w"
    using only_phase(4) [OF assms(2)] by auto
  have poll: "hy_npc (gate_step handlers now t) = NSwitch b" if "hy_npc t = NWait b" "hy_dispatched t = banum b - 1" for t
    using that by (simp add: gate_defs)
  have seeded: "hy_seeded s" by (rule won_seeded [OF inv un])
  then obtain m where m: "hy_dlast s = Some m" using inv by (auto simp: hy_inv_def)
  show ?thesis
  proof (cases "hy_dpc s")
    case DIdle
    then have "hy_dispatched s = banum b - 1" using inv seeded m un wn by (auto simp: hy_inv_def)
    then show ?thesis using poll [OF assms(2)] by (intro exI [of _ 0]) simp
  next
    case (DClaim d)
    then have "hy_dispatched s = banum b - 1" using inv seeded m un wn [of m] by (auto simp: hy_inv_def)
    then show ?thesis using poll [OF assms(2)] by (intro exI [of _ 0]) simp
  next
    case (DStore d)
    then have "bnum d = banum b" using inv seeded m un wt [of m] by (auto simp: hy_inv_def)
    then have "hy_npc (gate_step handlers now (shim_step handlers s)) = NSwitch b"
      using DStore assms(2) by (intro poll) (simp_all add: shim_step_def)
    then show ?thesis by (intro exI [of _ 1]) simp
  next
    case (DRun d)
    then have n: "bnum d = banum b - 1" using inv seeded m un wt [of "m + 1"] by (auto simp: hy_inv_def)
    obtain x where "dispatch handlers (hy_store s) d = Inr x" using assms(4) by blast
    then have "hy_npc (gate_step handlers now (shim_step handlers (shim_step handlers s))) = NSwitch b"
      using DRun assms(2) n by (intro poll) (simp_all add: shim_step_def)
    then show ?thesis by (intro exI [of _ 2]) (simp add: numeral_2_eq_2)
  next
    case (DPublish d)
    then have n: "bnum d = banum b - 1" using inv seeded m un wt [of "m + 1"] by (auto simp: hy_inv_def)
    then have "hy_npc (gate_step handlers now (shim_step handlers s)) = NSwitch b"
      using DPublish assms(2) by (intro poll) (simp_all add: shim_step_def)
    then show ?thesis by (intro exI [of _ 1]) simp
  qed (use inv seeded m un assms(3) in \<open>auto simp: hy_inv_def\<close>)
qed

section \<open>A concrete handoff\<close>

text \<open>Delivery starts with block 5; notification wins block 6 while 5 is being dispatched.\<close>

definition block5 :: block where
  "block5 = \<lparr>bk_number = 5, bk_hash = [], bk_parent = [], bk_timestamp = 0, bk_txs = []\<rparr>"

definition batch6 :: batch where
  "batch6 = \<lparr>ba_number = 6, ba_events = []\<rparr>"

definition demo_race :: "unit hybrid" where
  "demo_race = gate_step [] 0 (gate_recv batch6 (shim_step [] (shim_step [] (shim_step [] (shim_recv block5 (hybrid_start ()))))))"

definition demo_handoff :: "unit hybrid" where
  "demo_handoff = gate_step [] 0 (gate_step [] 0 (shim_step [] (shim_step [] demo_race)))"

lemma demo_nums: "bnum block5 = 5" "banum batch6 = 6"
  by (simp_all add: bnum_def banum_def block5_def batch6_def)

lemmas hy_eval = shim_step_def gate_defs shim_recv_def gate_recv_def hybrid_start_def CompareAndSwap_def Let_def MinInt64_def demo_nums

lemma demo_race_eval: "hy_dpc demo_race = DRun block5" "hy_npc demo_race = NWait batch6" "hy_log demo_race = [(True, 5)]"
  by (simp_all add: demo_race_def hy_eval)

lemma demo_race_reach: "hy_reach [] () demo_race"
proof -
  have 1: "hy_reach [] () (shim_recv block5 (hybrid_start ()))"
    by (rule hy_next [OF hy_start shim_receives]) (simp_all add: hybrid_start_def demo_nums)
  have 2: "hy_reach [] () (shim_step [] (shim_step [] (shim_step [] (shim_recv block5 (hybrid_start ())))))"
    by (intro hy_next [OF _ shim_steps] 1)
  have 3: "hy_reach [] () (gate_recv batch6 (shim_step [] (shim_step [] (shim_step [] (shim_recv block5 (hybrid_start ()))))))"
    by (rule hy_next [OF 2 gate_receives]) (simp_all add: hy_eval)
  show ?thesis unfolding demo_race_def by (rule hy_next [OF 3 gate_steps])
qed

lemma demo_handoff_reach: "hy_reach [] () demo_handoff"
  unfolding demo_handoff_def by (intro hy_next [OF _ gate_steps] hy_next [OF _ shim_steps] demo_race_reach)

theorem Hybrid_exclusive_witness: "hy_dpc demo_race = DRun block5 \<and> hy_npc demo_race \<noteq> NRun batch6 \<and> hy_npc demo_race \<noteq> NOvershoot"
  using Hybrid_exclusive [OF demo_race_reach] demo_race_eval(1) by blast


theorem Hybrid_takes_over_witness:
  "hy_npc demo_race = NWait batch6 \<and> (\<exists>k \<le> 2. hy_npc (gate_step [] 0 ((shim_step [] ^^ k) demo_race)) = NSwitch batch6)"
  using Hybrid_takes_over [OF demo_race_reach demo_race_eval(2), of 0] demo_race_eval by simp

end
