(* ===== verification/Filters.thy ===== *)
theory Filters
  imports GwDomain HybridSync
begin

text \<open>
  The polling filters and newHeads subscriptions of the gateway's API (\<open>gateway/api/filters\<close>: \<open>api.go\<close>,
  \<open>heads.go\<close>, \<open>match.go\<close>, \<open>criteria.go\<close>, \<open>limits.go\<close>) and the decoding helpers of \<open>common/events.go\<close>.

  Every method holds the API's lock, so it is one step; \<open>Handle\<close> gives the lock up between the filters and the
  subscribers and is two steps, \<open>Handle_filters\<close> and \<open>Handle_heads\<close>, the second only when there were
  subscribers.  The decoders of other packages are
  arguments (\<open>decoders\<close>): protobuf metadata, JSON logs, Ethereum transactions.  An identifier of \<open>rpc.NewID\<close> and
  the time are arguments of the operations that draw them; the hook \<open>testDeliver\<close> of the tests is left out.  A channel is its buffer, its capacity and whether
  it is closed; a subscriber's connection key is a number.
\<close>

section \<open>Logs of a block\<close>

record state_log =
  sl_address :: bytes
  sl_topics :: "bytes list"
  sl_data :: bytes

record eth_log =
  el_address :: address
  el_topics :: "hash list"
  el_data :: bytes
  el_block :: u64
  el_txhash :: hash
  el_txindex :: u64
  el_blockhash :: hash
  el_index :: u64
  el_timestamp :: u64

text \<open>\<open>dec_md\<close> answers whether the execution succeeded and the gas it used.\<close>

record decoders =
  dec_md :: "bytes \<Rightarrow> (bool \<times> u64) option"
  dec_logs :: "bytes \<Rightarrow> state_log list option"
  dec_tx :: "bytes \<Rightarrow> eth_tx option"

definition ExecutionOutcome :: "decoders \<Rightarrow> block_tx \<Rightarrow> bool \<times> u64" where
  "ExecutionOutcome D tx =
     (if \<not> bt_valid tx then (False, 0)
      else case dec_md D (bt_payload tx) of None \<Rightarrow> (False, 0) | Some r \<Rightarrow> r)"

definition UnmarshalLogs :: "decoders \<Rightarrow> bytes \<Rightarrow> state_log list option" where
  "UnmarshalLogs D event = (if length event = 0 then Some [] else dec_logs D event)"

definition tx_logs :: "decoders \<Rightarrow> block_tx \<Rightarrow> (hash \<times> state_log list) option" where
  "tx_logs D tx =
     (case EVMTx tx of
        None \<Rightarrow> None
      | Some raw \<Rightarrow>
          if \<not> bt_valid tx \<or> length (bt_event tx) = 0 then None
          else if \<not> fst (ExecutionOutcome D tx) then None
          else case UnmarshalLogs D (bt_event tx) of
                 None \<Rightarrow> None
               | Some ls \<Rightarrow>
                   if length ls = 0 then None
                   else case dec_tx D raw of None \<Rightarrow> None | Some t \<Rightarrow> Some (tx_hash t, ls))"

fun number_logs :: "block \<Rightarrow> hash \<Rightarrow> u64 \<Rightarrow> u64 \<Rightarrow> state_log list \<Rightarrow> eth_log list" where
  "number_logs b h txi i [] = []"
| "number_logs b h txi i (l # ls) =
     \<lparr>el_address = BytesToAddress (sl_address l), el_topics = map BytesToHash (sl_topics l), el_data = sl_data l,
       el_block = bk_number b, el_txhash = h, el_txindex = txi, el_blockhash = BytesToHash (bk_hash b), el_index = i,
       el_timestamp = 0\<rparr> # number_logs b h txi (i + 1) ls"

fun logs_from :: "decoders \<Rightarrow> block \<Rightarrow> u64 \<Rightarrow> block_tx list \<Rightarrow> eth_log list" where
  "logs_from D b i [] = []"
| "logs_from D b i (tx # txs) =
     (case tx_logs D tx of
        None \<Rightarrow> logs_from D b i txs
      | Some (h, ls) \<Rightarrow>
          number_logs b h (word_of_int (bt_number tx)) i ls @ logs_from D b (i + of_nat (length ls)) txs)"

definition logsFromBlock :: "decoders \<Rightarrow> block \<Rightarrow> eth_log list" where
  "logsFromBlock D b = logs_from D b 0 (bk_txs b)"

section \<open>Matching\<close>

record criteria =
  cr_blockhash :: "hash option"
  cr_from :: "int option"
  cr_to :: "int option"
  cr_addresses :: "address list"
  cr_topics :: "hash list list"

text \<open>\<open>big.Int.Uint64\<close> keeps the low 64 bits.\<close>

definition Uint64 :: "int \<Rightarrow> u64" where
  "Uint64 n = word_of_int n"

fun topics_match :: "hash list list \<Rightarrow> hash list \<Rightarrow> bool" where
  "topics_match [] ts = True"
| "topics_match (sub # subs) [] = False"
| "topics_match (sub # subs) (t # ts) = ((sub = [] \<or> t \<in> set sub) \<and> topics_match subs ts)"

definition check_log :: "int option \<Rightarrow> int option \<Rightarrow> address list \<Rightarrow> hash list list \<Rightarrow> eth_log \<Rightarrow> bool" where
  "check_log from to addresses topics l =
     (if (case from of Some n \<Rightarrow> n \<ge> 0 \<and> Uint64 n > el_block l | None \<Rightarrow> False) then False
      else if (case to of Some n \<Rightarrow> n \<ge> 0 \<and> Uint64 n < el_block l | None \<Rightarrow> False) then False
      else if length addresses > 0 \<and> el_address l \<notin> set addresses then False
      else if length topics > length (el_topics l) then False
      else topics_match topics (el_topics l))"

definition filterLogs :: "eth_log list \<Rightarrow> int option \<Rightarrow> int option \<Rightarrow> address list \<Rightarrow> hash list list \<Rightarrow> eth_log list" where
  "filterLogs logs from to addresses topics = filter (check_log from to addresses topics) logs"

definition matchLogs :: "eth_log list \<Rightarrow> criteria \<Rightarrow> eth_log list" where
  "matchLogs logs crit = filterLogs logs (cr_from crit) (cr_to crit) (cr_addresses crit) (cr_topics crit)"

text \<open>Criteria as a query of the store; \<open>earliest\<close> is \<open>rpc.EarliestBlockNumber\<close>.\<close>

definition resolveFromBlock :: "int \<Rightarrow> int option \<Rightarrow> u64 \<Rightarrow> u64 option" where
  "resolveFromBlock earliest n head =
     (case n of
        Some v \<Rightarrow> if v \<ge> 0 then Some (Uint64 v) else if v = earliest then Some 0 else Some head
      | None \<Rightarrow> Some head)"

definition resolveToBlock :: "int \<Rightarrow> int option \<Rightarrow> u64 option" where
  "resolveToBlock earliest n =
     (case n of
        None \<Rightarrow> None
      | Some v \<Rightarrow> if v = earliest then Some 0 else if v < 0 then None else Some (Uint64 v))"

definition CriteriaToLogFilter :: "int \<Rightarrow> criteria \<Rightarrow> u64 \<Rightarrow> logfilter" where
  "CriteriaToLogFilter earliest crit head =
     \<lparr>lf_blockhash = map_option (\<lambda>h. be 32 (unat h)) (cr_blockhash crit),
       lf_from = (if cr_blockhash crit = None then resolveFromBlock earliest (cr_from crit) head else None),
       lf_to = (if cr_blockhash crit = None then resolveToBlock earliest (cr_to crit) else None),
       lf_addresses = map (\<lambda>a. be 20 (unat a)) (cr_addresses crit),
       lf_topics = map (map (\<lambda>t. be 32 (unat t))) (cr_topics crit)\<rparr>"

definition DomainLogToTypes :: "dlog \<Rightarrow> eth_log" where
  "DomainLogToTypes l =
     \<lparr>el_address = BytesToAddress (dl_address l), el_topics = map BytesToHash (dl_topics l), el_data = dl_data l,
       el_block = dl_block l, el_txhash = BytesToHash (dl_txhash l), el_txindex = word_of_int (dl_txindex l),
       el_blockhash = BytesToHash (dl_blockhash l), el_index = word_of_int (dl_logindex l),
       el_timestamp = word_of_int (dl_timestamp l)\<rparr>"

section \<open>The filter API\<close>

record limits =
  MaxFilters :: int
  MaxSubscriptionsPerConn :: int
  MaxSubscriptionsGlobal :: int
  MaxFilterBuffer :: int

definition DefaultLimits :: limits where
  "DefaultLimits = \<lparr>MaxFilters = 1000, MaxSubscriptionsPerConn = 1, MaxSubscriptionsGlobal = 1000, MaxFilterBuffer = 1024\<rparr>"

definition mergePartialLimits :: "limits \<Rightarrow> limits" where
  "mergePartialLimits l =
     (if MaxFilterBuffer l \<le> 0 then l\<lparr>MaxFilterBuffer := MaxFilterBuffer DefaultLimits\<rparr> else l)"

datatype ftype = UnknownSubscription | LogsSubscription | BlocksSubscription

record filt =
  fl_typ :: ftype
  fl_expiresAt :: int
  fl_hashes :: "hash list"
  fl_crit :: criteria
  fl_logs :: "eth_log list"

record chan =
  ch_cap :: nat
  ch_buf :: "dblock list"
  ch_closed :: bool

record filterapi =
  fa_timeout :: int
  fa_limits :: limits
  fa_filters :: "(string \<times> filt) list"
  fa_headSubs :: "(nat \<times> nat option) list"
  fa_chans :: "nat \<Rightarrow> chan"
  fa_connSubs :: "nat \<Rightarrow> int"
  fa_nextHeadID :: nat
  fa_closed :: bool

definition newFilterAPI :: "int \<Rightarrow> limits \<Rightarrow> filterapi" where
  "newFilterAPI timeout limits =
     \<lparr>fa_timeout = timeout, fa_limits = mergePartialLimits limits, fa_filters = [], fa_headSubs = [],
       fa_chans = (\<lambda>_. \<lparr>ch_cap = 0, ch_buf = [], ch_closed = False\<rparr>), fa_connSubs = (\<lambda>_. 0), fa_nextHeadID = 0, fa_closed = False\<rparr>"

definition errFilterNotFound :: string where
  "errFilterNotFound = ''filter not found''"

definition appendCapped :: "'a list \<Rightarrow> 'a list \<Rightarrow> int \<Rightarrow> 'a list" where
  "appendCapped buf items mx =
     (let buf = buf @ items in if mx > 0 \<and> int (length buf) > mx then drop (length buf - nat mx) buf else buf)"

definition deliverOneLocked :: "int \<Rightarrow> hash \<Rightarrow> eth_log list \<Rightarrow> filt \<Rightarrow> filt" where
  "deliverOneLocked capN h blockLogs f =
     (case fl_typ f of
        BlocksSubscription \<Rightarrow> f\<lparr>fl_hashes := appendCapped (fl_hashes f) [h] capN\<rparr>
      | LogsSubscription \<Rightarrow>
          (let matched = matchLogs blockLogs (fl_crit f)
           in if length matched > 0 then f\<lparr>fl_logs := appendCapped (fl_logs f) matched capN\<rparr> else f)
      | UnknownSubscription \<Rightarrow> f)"

definition Handle_filters :: "decoders \<Rightarrow> filterapi \<Rightarrow> block \<Rightarrow> filterapi" where
  "Handle_filters D api b =
     (let needLogs = (\<exists>(_, f) \<in> set (fa_filters api). fl_typ f = LogsSubscription);
          blockLogs = (if needLogs then logsFromBlock D b else []);
          h = BytesToHash (bk_hash b)
      in api\<lparr>fa_filters := map (\<lambda>(i, f). (i, deliverOneLocked (MaxFilterBuffer (fa_limits api)) h blockLogs f)) (fa_filters api)\<rparr>)"

definition domainBlockFor :: "(u64 \<Rightarrow> dblock option) \<Rightarrow> block \<Rightarrow> dblock" where
  "domainBlockFor getBlock b =
     (case getBlock (bk_number b) of
        Some db \<Rightarrow> db
      | None \<Rightarrow> \<lparr>db_number = bk_number b, db_hash = bk_hash b, db_parent = bk_parent b, db_stateroot = [],
          db_timestamp = bk_timestamp b, db_txs = []\<rparr>)"

text \<open>A send on a full channel is dropped.\<close>

definition ch_send :: "dblock \<Rightarrow> chan \<Rightarrow> chan" where
  "ch_send b c = (if length (ch_buf c) < ch_cap c then c\<lparr>ch_buf := ch_buf c @ [b]\<rparr> else c)"

definition fanOutHeads :: "filterapi \<Rightarrow> dblock \<Rightarrow> filterapi" where
  "fanOutHeads api b =
     api\<lparr>fa_chans := (\<lambda>i. if i \<in> fst ` set (fa_headSubs api) then ch_send b (fa_chans api i) else fa_chans api i)\<rparr>"

definition Handle_heads :: "(u64 \<Rightarrow> dblock option) \<Rightarrow> filterapi \<Rightarrow> block \<Rightarrow> filterapi" where
  "Handle_heads getBlock api b = fanOutHeads api (domainBlockFor getBlock b)"

definition install :: "filterapi \<Rightarrow> string \<Rightarrow> int \<Rightarrow> ftype \<Rightarrow> criteria \<Rightarrow> (string \<times> filterapi) result" where
  "install api i now typ crit =
     (if int (length (fa_filters api)) \<ge> MaxFilters (fa_limits api) then Inl (''filter limit of '' @ dec (MaxFilters (fa_limits api)) @ '' reached'')
      else Inr (i, api\<lparr>fa_filters := AList.update i \<lparr>fl_typ = typ, fl_expiresAt = now + fa_timeout api, fl_hashes = [],
             fl_crit = crit, fl_logs = []\<rparr> (fa_filters api)\<rparr>))"

definition no_crit :: criteria where
  "no_crit = \<lparr>cr_blockhash = None, cr_from = None, cr_to = None, cr_addresses = [], cr_topics = []\<rparr>"

definition NewBlockFilter :: "filterapi \<Rightarrow> string \<Rightarrow> int \<Rightarrow> (string \<times> filterapi) result" where
  "NewBlockFilter api i now = install api i now BlocksSubscription no_crit"

definition NewFilter :: "filterapi \<Rightarrow> string \<Rightarrow> int \<Rightarrow> criteria \<Rightarrow> (string \<times> filterapi) result" where
  "NewFilter api i now crit = install api i now LogsSubscription crit"

definition UninstallFilter :: "filterapi \<Rightarrow> string \<Rightarrow> bool \<times> filterapi" where
  "UninstallFilter api i =
     (case map_of (fa_filters api) i of
        None \<Rightarrow> (False, api)
      | Some _ \<Rightarrow> (True, api\<lparr>fa_filters := AList.delete i (fa_filters api)\<rparr>))"

definition resetDeadlineLocked :: "filterapi \<Rightarrow> string \<Rightarrow> int \<Rightarrow> filt \<Rightarrow> bool \<times> filterapi" where
  "resetDeadlineLocked api i now f =
     (if \<not> now < fl_expiresAt f then (False, api\<lparr>fa_filters := AList.delete i (fa_filters api)\<rparr>)
      else (True, api\<lparr>fa_filters := AList.update i (f\<lparr>fl_expiresAt := now + fa_timeout api\<rparr>) (fa_filters api)\<rparr>))"

datatype changes = Hashes "hash list" | Logs "eth_log list"

definition GetFilterChanges :: "filterapi \<Rightarrow> string \<Rightarrow> int \<Rightarrow> changes result \<times> filterapi" where
  "GetFilterChanges api i now =
     (case map_of (fa_filters api) i of
        None \<Rightarrow> (Inl errFilterNotFound, api)
      | Some f \<Rightarrow>
          let (ok, api) = resetDeadlineLocked api i now f; f = f\<lparr>fl_expiresAt := now + fa_timeout api\<rparr> in
          if \<not> ok then (Inl errFilterNotFound, api)
          else case fl_typ f of
                 BlocksSubscription \<Rightarrow>
                   (Inr (Hashes (fl_hashes f)), api\<lparr>fa_filters := AList.update i (f\<lparr>fl_hashes := []\<rparr>) (fa_filters api)\<rparr>)
               | LogsSubscription \<Rightarrow>
                   (Inr (Logs (fl_logs f)), api\<lparr>fa_filters := AList.update i (f\<lparr>fl_logs := []\<rparr>) (fa_filters api)\<rparr>)
               | UnknownSubscription \<Rightarrow> (Inl errFilterNotFound, api))"

text \<open>\<open>querier\<close> is the store behind the API, if any: its height and its log query.\<close>

definition GetFilterLogs ::
    "int \<Rightarrow> (u64 result \<times> (logfilter \<Rightarrow> dlog list result)) option \<Rightarrow> filterapi \<Rightarrow> string \<Rightarrow> int \<Rightarrow> eth_log list result \<times> filterapi" where
  "GetFilterLogs earliest querier api i now =
     (case map_of (fa_filters api) i of
        None \<Rightarrow> (Inl errFilterNotFound, api)
      | Some f \<Rightarrow>
          if fl_typ f \<noteq> LogsSubscription then (Inl errFilterNotFound, api)
          else let (ok, api) = resetDeadlineLocked api i now f in
          if \<not> ok then (Inl errFilterNotFound, api)
          else case querier of
                 None \<Rightarrow> (Inr [], api)
               | Some (head, getLogs) \<Rightarrow>
                   (case head of
                      Inl e \<Rightarrow> (Inl e, api)
                    | Inr n \<Rightarrow>
                        (case getLogs (CriteriaToLogFilter earliest (fl_crit f) n) of
                           Inl e \<Rightarrow> (Inl e, api)
                         | Inr ls \<Rightarrow> (Inr (map DomainLogToTypes ls), api))))"

text \<open>One sweep of the expiry loop.\<close>

definition timeoutLoop :: "filterapi \<Rightarrow> int \<Rightarrow> filterapi" where
  "timeoutLoop api now = api\<lparr>fa_filters := filter (\<lambda>(_, f). now < fl_expiresAt f) (fa_filters api)\<rparr>"

section \<open>Subscriptions to new heads\<close>

definition HeadsBuffer :: nat where
  "HeadsBuffer = 16"

text \<open>The result is the subscriber's identifier; \<open>None\<close> stands for the closed channel of a closed API.\<close>

definition SubscribeHeadsForConn :: "filterapi \<Rightarrow> nat option \<Rightarrow> int \<Rightarrow> (nat option \<times> filterapi) result" where
  "SubscribeHeadsForConn api conn buffer =
     (let buffer = (if buffer < 1 then HeadsBuffer else nat buffer) in
      if fa_closed api then Inr (None, api)
      else if int (length (fa_headSubs api)) \<ge> MaxSubscriptionsGlobal (fa_limits api) then Inl (''global subscription limit of '' @ dec (MaxSubscriptionsGlobal (fa_limits api)) @ '' reached'')
      else if (case conn of Some c \<Rightarrow> fa_connSubs api c \<ge> MaxSubscriptionsPerConn (fa_limits api) | None \<Rightarrow> False)
        then Inl (''per-connection subscription limit of '' @ dec (MaxSubscriptionsPerConn (fa_limits api)) @ '' reached'')
      else let i = fa_nextHeadID api + 1 in
        Inr (Some i, api\<lparr>fa_nextHeadID := i, fa_headSubs := fa_headSubs api @ [(i, conn)],
          fa_chans := (fa_chans api)(i := \<lparr>ch_cap = buffer, ch_buf = [], ch_closed = False\<rparr>),
          fa_connSubs := (case conn of Some c \<Rightarrow> (fa_connSubs api)(c := fa_connSubs api c + 1) | None \<Rightarrow> fa_connSubs api)\<rparr>))"

definition ch_close :: "chan \<Rightarrow> chan" where
  "ch_close c = c\<lparr>ch_closed := True\<rparr>"

definition unsubscribeHeads :: "filterapi \<Rightarrow> nat \<Rightarrow> filterapi" where
  "unsubscribeHeads api i =
     (case map_of (fa_headSubs api) i of
        None \<Rightarrow> api
      | Some conn \<Rightarrow>
          api\<lparr>fa_headSubs := AList.delete i (fa_headSubs api), fa_chans := (fa_chans api)(i := ch_close (fa_chans api i)),
            fa_connSubs := (case conn of
                Some c \<Rightarrow> (fa_connSubs api)(c := if fa_connSubs api c - 1 \<le> 0 then 0 else fa_connSubs api c - 1)
              | None \<Rightarrow> fa_connSubs api)\<rparr>)"

definition closeHeadSubsLocked :: "filterapi \<Rightarrow> filterapi" where
  "closeHeadSubsLocked api =
     api\<lparr>fa_headSubs := [], fa_connSubs := (\<lambda>_. 0),
       fa_chans := (\<lambda>i. if i \<in> fst ` set (fa_headSubs api) then ch_close (fa_chans api i) else fa_chans api i)\<rparr>"

definition Filter_Close :: "filterapi \<Rightarrow> filterapi" where
  "Filter_Close api = (if \<not> fa_closed api then closeHeadSubsLocked (api\<lparr>fa_closed := True\<rparr>) else api)"

end
