(* ===== verification/FilterProps.thy ===== *)
theory FilterProps
  imports Filters
begin

text \<open>
  Correctness of the filter API: matching against its declarative meaning, what a poll returns after any
  interleaving of other calls, and the resource limits as an invariant of every sequence of calls.
\<close>

section \<open>Matching\<close>

definition crit_matches :: "criteria \<Rightarrow> eth_log \<Rightarrow> bool" where
  "crit_matches crit l \<longleftrightarrow>
     (\<forall>n. cr_from crit = Some n \<and> 0 \<le> n \<longrightarrow> n \<le> uint (el_block l)) \<and>
     (\<forall>n. cr_to crit = Some n \<and> 0 \<le> n \<longrightarrow> uint (el_block l) \<le> n) \<and>
     (cr_addresses crit = [] \<or> el_address l \<in> set (cr_addresses crit)) \<and>
     length (cr_topics crit) \<le> length (el_topics l) \<and>
     (\<forall>i < length (cr_topics crit). cr_topics crit ! i = [] \<or> el_topics l ! i \<in> set (cr_topics crit ! i))"

definition crit_ok :: "criteria \<Rightarrow> bool" where
  "crit_ok crit \<longleftrightarrow> (\<forall>n. cr_from crit = Some n \<or> cr_to crit = Some n \<longrightarrow> n < 2 ^ 64)"

lemma topics_match_iff:
  "topics_match subs ts \<longleftrightarrow> length subs \<le> length ts \<and> (\<forall>i < length subs. subs ! i = [] \<or> ts ! i \<in> set (subs ! i))"
  by (induction subs ts rule: topics_match.induct) (auto simp: All_less_Suc2)

lemma uint_Uint64: "0 \<le> n \<Longrightarrow> n < 2 ^ 64 \<Longrightarrow> uint (Uint64 n) = n"
  by (simp add: Uint64_def uint_word_of_int)

lemma matchLogs_filter:
  assumes "crit_ok crit"
  shows "matchLogs logs crit = filter (crit_matches crit) logs"
proof -
  have "check_log (cr_from crit) (cr_to crit) (cr_addresses crit) (cr_topics crit) l = crit_matches crit l" for l
  proof -
    have f: "(case cr_from crit of Some n \<Rightarrow> n \<ge> 0 \<and> Uint64 n > el_block l | None \<Rightarrow> False) \<longleftrightarrow>
        \<not> (\<forall>n. cr_from crit = Some n \<and> 0 \<le> n \<longrightarrow> n \<le> uint (el_block l))"
      using assms by (cases "cr_from crit") (auto simp: crit_ok_def word_less_def uint_Uint64)
    have t: "(case cr_to crit of Some n \<Rightarrow> n \<ge> 0 \<and> Uint64 n < el_block l | None \<Rightarrow> False) \<longleftrightarrow>
        \<not> (\<forall>n. cr_to crit = Some n \<and> 0 \<le> n \<longrightarrow> uint (el_block l) \<le> n)"
      using assms by (cases "cr_to crit") (auto simp: crit_ok_def word_less_def uint_Uint64)
    show ?thesis unfolding check_log_def f t topics_match_iff crit_matches_def by auto
  qed
  then show ?thesis by (simp add: matchLogs_def filterLogs_def cong: filter_cong)
qed

section \<open>Calls\<close>

datatype fop =
    FBlock block
  | FHeads block
  | FInstall string int ftype criteria
  | FUninstall string
  | FChanges string int
  | FGetLogs string int
  | FSweep int
  | FSubscribe "nat option" int
  | FUnsubscribe nat
  | FReceive nat
  | FClose

definition ok_or :: "'s \<Rightarrow> ('a \<times> 's) result \<Rightarrow> 's" where
  "ok_or s r = (case r of Inl _ \<Rightarrow> s | Inr (_, s') \<Rightarrow> s')"

fun fa_step :: "decoders \<Rightarrow> (u64 \<Rightarrow> dblock option) \<Rightarrow> filterapi \<Rightarrow> fop \<Rightarrow> filterapi" where
  "fa_step D getBlock api (FBlock b) = Handle_filters D api b"
| "fa_step D getBlock api (FHeads b) = Handle_heads getBlock api b"
| "fa_step D getBlock api (FInstall i now typ crit) = ok_or api (install api i now typ crit)"
| "fa_step D getBlock api (FUninstall i) = snd (UninstallFilter api i)"
| "fa_step D getBlock api (FChanges i now) = snd (GetFilterChanges api i now)"
| "fa_step D getBlock api (FGetLogs i now) = snd (GetFilterLogs 0 None api i now)"
| "fa_step D getBlock api (FSweep now) = timeoutLoop api now"
| "fa_step D getBlock api (FSubscribe conn buffer) = ok_or api (SubscribeHeadsForConn api conn buffer)"
| "fa_step D getBlock api (FUnsubscribe i) = unsubscribeHeads api i"
| "fa_step D getBlock api (FReceive i) = api\<lparr>fa_chans := (fa_chans api)(i := (fa_chans api i)\<lparr>ch_buf := tl (ch_buf (fa_chans api i))\<rparr>)\<rparr>"
| "fa_step D getBlock api FClose = Filter_Close api"

fun fa_run :: "decoders \<Rightarrow> (u64 \<Rightarrow> dblock option) \<Rightarrow> filterapi \<Rightarrow> fop list \<Rightarrow> filterapi" where
  "fa_run D getBlock api [] = api"
| "fa_run D getBlock api (op # ops) = fa_run D getBlock (fa_step D getBlock api op) ops"

section \<open>What a poll returns\<close>

text \<open>The newest \<open>n\<close> elements.\<close>

definition lastn :: "nat \<Rightarrow> 'a list \<Rightarrow> 'a list" where
  "lastn n xs = drop (length xs - n) xs"

lemma lastn_append: "lastn n (lastn n xs @ ys) = lastn n (xs @ ys)"
proof (cases "length xs \<le> n")
  case True
  then show ?thesis by (simp add: lastn_def)
next
  case False
  then have "drop (n + length ys - n) (drop (length xs - n) xs) = drop (length xs + length ys - n) xs"
    by (simp add: drop_drop add.commute)
  then show ?thesis using False by (simp add: lastn_def)
qed

lemma appendCapped_lastn: "0 < mx \<Longrightarrow> appendCapped buf items mx = lastn (nat mx) (buf @ items)"
  by (auto simp: appendCapped_def lastn_def Let_def)

lemma lastn_idem: "lastn n (lastn n xs) = lastn n xs"
  using lastn_append [of n xs "[]"] by simp

lemma length_lastn: "length (lastn n xs) \<le> n"
  by (simp add: lastn_def)

text \<open>The blocks handled in a sequence of calls, and calls that do not touch the filter \<open>i\<close>, alive until \<open>t\<close>.\<close>

fun blocks_of :: "fop list \<Rightarrow> block list" where
  "blocks_of [] = []"
| "blocks_of (FBlock b # ops) = b # blocks_of ops"
| "blocks_of (_ # ops) = blocks_of ops"

fun quiet :: "string \<Rightarrow> int \<Rightarrow> fop \<Rightarrow> bool" where
  "quiet i t (FInstall k _ _ _) = (k \<noteq> i)"
| "quiet i t (FUninstall k) = (k \<noteq> i)"
| "quiet i t (FChanges k _) = (k \<noteq> i)"
| "quiet i t (FGetLogs k _) = (k \<noteq> i)"
| "quiet i t (FSweep now) = (now < t)"
| "quiet i t _ = True"

text \<open>What the filter should hold after blocks \<open>bs\<close>.\<close>

definition collect :: "decoders \<Rightarrow> nat \<Rightarrow> filt \<Rightarrow> block list \<Rightarrow> filt" where
  "collect D n f bs =
     (case fl_typ f of
        BlocksSubscription \<Rightarrow> f\<lparr>fl_hashes := lastn n (fl_hashes f @ map (\<lambda>b. BytesToHash (bk_hash b)) bs)\<rparr>
      | LogsSubscription \<Rightarrow> f\<lparr>fl_logs := lastn n (fl_logs f @ concat (map (\<lambda>b. filter (crit_matches (fl_crit f)) (logsFromBlock D b)) bs))\<rparr>
      | UnknownSubscription \<Rightarrow> f)"

lemma collect_sel [simp]: "fl_typ (collect D n f bs) = fl_typ f" "fl_crit (collect D n f bs) = fl_crit f" "fl_expiresAt (collect D n f bs) = fl_expiresAt f"
  by (simp_all add: collect_def split: ftype.splits)

lemma collect_Cons: "collect D n (collect D n f [b]) bs = collect D n f (b # bs)"
  by (cases "fl_typ f") (simp_all add: collect_def lastn_append)

lemma map_of_map_snd: "map_of (map (\<lambda>(i, f). (i, g f)) xs) k = map_option g (map_of xs k)"
  by (induction xs) auto

text \<open>The buffer of a filter is within the cap.\<close>

definition fits :: "nat \<Rightarrow> filt \<Rightarrow> bool" where
  "fits n f \<longleftrightarrow> length (fl_hashes f) \<le> n \<and> length (fl_logs f) \<le> n"

lemma lastn_id: "length xs \<le> n \<Longrightarrow> lastn n xs = xs"
  by (simp add: lastn_def)

lemma deliver_collect:
  assumes "0 < mx" and "crit_ok (fl_crit f)" and "fits (nat mx) f"
    and "fl_typ f = LogsSubscription \<Longrightarrow> logs = logsFromBlock D b"
  shows "deliverOneLocked mx (BytesToHash (bk_hash b)) logs f = collect D (nat mx) f [b]"
  using assms by (cases "fl_typ f") (auto simp: deliverOneLocked_def collect_def appendCapped_lastn matchLogs_filter Let_def fits_def lastn_id)

lemma Handle_filters_at:
  assumes "0 < MaxFilterBuffer (fa_limits api)" and f: "map_of (fa_filters api) i = Some f" and "crit_ok (fl_crit f)"
    and "fits (nat (MaxFilterBuffer (fa_limits api))) f"
  shows "map_of (fa_filters (Handle_filters D api b)) i = Some (collect D (nat (MaxFilterBuffer (fa_limits api))) f [b])"
proof -
  have "(i, f) \<in> set (fa_filters api)" using map_of_SomeD [OF f] .
  then have "\<exists>(_, f) \<in> set (fa_filters api). fl_typ f = LogsSubscription" if "fl_typ f = LogsSubscription" using that by force
  then show ?thesis using assms deliver_collect [OF assms(1,3,4)] unfolding Handle_filters_def by (simp add: Let_def map_of_map_snd)
qed

lemma fits_collect: "fits n f \<Longrightarrow> fits n (collect D n f bs)"
  by (auto simp: fits_def collect_def length_lastn split: ftype.splits)

lemma quiet_step:
  assumes q: "quiet i (fl_expiresAt f) op" and f: "map_of (fa_filters api) i = Some f" and "crit_ok (fl_crit f)"
    and "0 < MaxFilterBuffer (fa_limits api)" "fits (nat (MaxFilterBuffer (fa_limits api))) f" "distinct (map fst (fa_filters api))"
  shows "map_of (fa_filters (fa_step D getBlock api op)) i = Some (collect D (nat (MaxFilterBuffer (fa_limits api))) f (blocks_of [op]))"
proof (cases op)
  case (FBlock b)
  then show ?thesis using Handle_filters_at [OF assms(4) f assms(3,5)] by simp
next
  case (FSweep now)
  have "collect D n f [] = f" if "fits n f" for n using that by (cases "fl_typ f") (simp_all add: collect_def fits_def lastn_id)
  moreover have "map_of (filter (\<lambda>(_, f). now < fl_expiresAt f) (fa_filters api)) i = Some f"
    using q f assms(6) FSweep map_of_SomeD [OF f] by (simp add: map_of_eq_Some_iff distinct_map_filter)
  ultimately show ?thesis using FSweep assms(5) by (simp add: timeoutLoop_def)
next
  case FClose
  have "collect D n f [] = f" if "fits n f" for n using that by (cases "fl_typ f") (simp_all add: collect_def fits_def lastn_id)
  then show ?thesis using FClose assms(5) f by (simp add: Filter_Close_def closeHeadSubsLocked_def)
qed (use q f assms(5) in \<open>auto simp: collect_def fits_def lastn_id ok_or_def install_def UninstallFilter_def GetFilterChanges_def GetFilterLogs_def
    resetDeadlineLocked_def Handle_heads_def fanOutHeads_def SubscribeHeadsForConn_def unsubscribeHeads_def Let_def update_conv' delete_conv'
    split: ftype.splits option.splits\<close>)

section \<open>Limits\<close>

definition filters_ok :: "limits \<Rightarrow> (string \<times> filt) list \<Rightarrow> bool" where
  "filters_ok lim fs \<longleftrightarrow> 0 < MaxFilterBuffer lim \<and> distinct (map fst fs) \<and> int (length fs) \<le> max 0 (MaxFilters lim) \<and>
     (\<forall>i f. map_of fs i = Some f \<longrightarrow> fits (nat (MaxFilterBuffer lim)) f)"

definition subs_of :: "(nat \<times> nat option) list \<Rightarrow> nat \<Rightarrow> nat" where
  "subs_of hs c = length (filter (\<lambda>(_, k). k = Some c) hs)"

definition heads_ok :: "filterapi \<Rightarrow> bool" where
  "heads_ok api \<longleftrightarrow> distinct (map fst (fa_headSubs api)) \<and> (\<forall>(i, _) \<in> set (fa_headSubs api). i \<le> fa_nextHeadID api \<and> \<not> ch_closed (fa_chans api i)) \<and>
     int (length (fa_headSubs api)) \<le> max 0 (MaxSubscriptionsGlobal (fa_limits api)) \<and>
     (\<forall>c. fa_connSubs api c = int (subs_of (fa_headSubs api) c) \<and> int (subs_of (fa_headSubs api) c) \<le> max 0 (MaxSubscriptionsPerConn (fa_limits api))) \<and>
     (\<forall>i. length (ch_buf (fa_chans api i)) \<le> ch_cap (fa_chans api i)) \<and> (fa_closed api \<longrightarrow> fa_headSubs api = [])"

lemma filters_ok_delete: "filters_ok lim fs \<Longrightarrow> filters_ok lim (AList.delete i fs)"
  using length_delete_le [of i fs] by (auto simp: filters_ok_def distinct_delete delete_conv' split: if_splits)

lemma length_update_present: "k \<in> fst ` set xs \<Longrightarrow> length (AList.update k v xs) = length xs"
  by (induction xs) auto

lemma length_update_le: "length (AList.update k v xs) \<le> length xs + 1"
  by (induction xs) auto

lemma filters_ok_update:
  assumes "filters_ok lim fs" and g: "map_of fs i = Some g" and "fits (nat (MaxFilterBuffer lim)) f"
  shows "filters_ok lim (AList.update i f fs)"
proof -
  have "i \<in> fst ` set fs" using map_of_SomeD [OF g] by (rule image_eqI [rotated]) simp
  then have "length (AList.update i f fs) = length fs" by (rule length_update_present)
  then show ?thesis using assms(1,3) by (simp add: filters_ok_def distinct_update update_conv')
qed

lemma filters_ok_sweep: "filters_ok lim fs \<Longrightarrow> filters_ok lim (filter (\<lambda>(_, f). Q f) fs)"
proof -
  assume ok: "filters_ok lim fs"
  then have "distinct (map fst fs)" by (simp add: filters_ok_def)
  then have "map_of (filter (\<lambda>(_, f). Q f) fs) i = Some f \<longrightarrow> map_of fs i = Some f" for i f
    by (auto simp: map_of_eq_Some_iff distinct_map_filter)
  moreover have "int (length (filter (\<lambda>(_, f). Q f) fs)) \<le> max 0 (MaxFilters lim)"
    by (rule order_trans [of _ "int (length fs)"]) (use ok in \<open>simp_all add: filters_ok_def\<close>)
  ultimately show ?thesis using ok unfolding filters_ok_def by (blast intro: distinct_map_filter)
qed

lemma deliver_fits:
  "0 < mx \<Longrightarrow> fits (nat mx) f \<Longrightarrow> fits (nat mx) (deliverOneLocked mx h logs f)"
  by (auto simp: deliverOneLocked_def fits_def appendCapped_lastn Let_def length_lastn split: ftype.splits)

lemma step_limits: "fa_limits (fa_step D getBlock api op) = fa_limits api"
  by (cases op) (auto simp: ok_or_def install_def UninstallFilter_def GetFilterChanges_def GetFilterLogs_def resetDeadlineLocked_def
    Handle_filters_def Handle_heads_def fanOutHeads_def SubscribeHeadsForConn_def unsubscribeHeads_def timeoutLoop_def Filter_Close_def
    closeHeadSubsLocked_def Let_def split: ftype.splits option.splits)

lemma install_ok:
  assumes ok: "filters_ok (fa_limits api) (fa_filters api)"
  shows "filters_ok (fa_limits api) (fa_filters (ok_or api (install api i now typ crit)))"
proof (cases "int (length (fa_filters api)) \<ge> MaxFilters (fa_limits api)")
  case True
  then show ?thesis using ok by (simp add: install_def ok_or_def)
next
  case False
  let ?f = "\<lparr>fl_typ = typ, fl_expiresAt = now + fa_timeout api, fl_hashes = [], fl_crit = crit, fl_logs = []\<rparr>"
  have "int (length (AList.update i ?f (fa_filters api))) \<le> max 0 (MaxFilters (fa_limits api))"
    using False length_update_le [of i ?f "fa_filters api"] by simp
  then have "filters_ok (fa_limits api) (AList.update i ?f (fa_filters api))"
    using ok by (simp add: filters_ok_def distinct_update update_conv' fits_def)
  then show ?thesis using False by (simp add: install_def ok_or_def)
qed

lemma changes_ok:
  assumes ok: "filters_ok (fa_limits api) (fa_filters api)"
  shows "filters_ok (fa_limits api) (fa_filters (snd (GetFilterChanges api i now)))"
    and "filters_ok (fa_limits api) (fa_filters (snd (GetFilterLogs earliest querier api i now)))"
proof -
  have up: "filters_ok (fa_limits api) (AList.update i f (fa_filters api))" if "map_of (fa_filters api) i = Some g"
      "fl_hashes f = fl_hashes g \<or> fl_hashes f = []" "fl_logs f = fl_logs g \<or> fl_logs f = []" for f g
  proof (rule filters_ok_update [OF ok that(1)])
    have "fits (nat (MaxFilterBuffer (fa_limits api))) g" using ok that(1) by (simp add: filters_ok_def)
    then show "fits (nat (MaxFilterBuffer (fa_limits api))) f" using that(2,3) by (auto simp: fits_def)
  qed
  have twice: "AList.update i f (AList.update i g xs) = AList.update i f xs" for f g and xs :: "(string \<times> filt) list"
    by (induction xs) auto
  show "filters_ok (fa_limits api) (fa_filters (snd (GetFilterChanges api i now)))"
    using ok filters_ok_delete [OF ok, of i]
    by (auto simp: GetFilterChanges_def resetDeadlineLocked_def Let_def twice intro!: up split: option.splits ftype.splits)
  show "filters_ok (fa_limits api) (fa_filters (snd (GetFilterLogs earliest querier api i now)))"
    using ok filters_ok_delete [OF ok, of i]
    by (auto simp: GetFilterLogs_def resetDeadlineLocked_def Let_def intro!: up split: option.splits sum.splits)
qed

lemma step_filters_ok:
  assumes ok: "filters_ok (fa_limits api) (fa_filters api)"
  shows "filters_ok (fa_limits api) (fa_filters (fa_step D getBlock api op))"
proof (cases op)
  case (FBlock b)
  have k: "0 < MaxFilterBuffer (fa_limits api)" using ok by (simp add: filters_ok_def)
  have "fits (nat (MaxFilterBuffer (fa_limits api))) (deliverOneLocked (MaxFilterBuffer (fa_limits api)) h logs f)"
    if "map_of (fa_filters api) i = Some f" for i f h logs
    using deliver_fits [OF k] ok that by (simp add: filters_ok_def)
  then show ?thesis using ok FBlock by (auto simp: filters_ok_def Handle_filters_def Let_def map_of_map_snd comp_def split_def)
next
  case (FInstall i now ty crit)
  then show ?thesis using install_ok [OF ok] by simp
next
  case (FUninstall i)
  then show ?thesis using ok filters_ok_delete [OF ok] by (simp add: UninstallFilter_def split: option.splits)
next
  case (FSweep now)
  then show ?thesis using filters_ok_sweep [OF ok] by (simp add: timeoutLoop_def)
next
  case (FSubscribe conn buffer)
  then show ?thesis using ok by (auto simp: ok_or_def SubscribeHeadsForConn_def Let_def)
next
  case (FUnsubscribe i)
  then show ?thesis using ok by (auto simp: unsubscribeHeads_def split: option.splits)
qed (use ok changes_ok [OF ok] in \<open>simp_all add: Handle_heads_def fanOutHeads_def Filter_Close_def closeHeadSubsLocked_def\<close>)

lemma subs_of_snoc: "subs_of (hs @ [(i, conn)]) c = subs_of hs c + (if conn = Some c then 1 else 0)"
  by (simp add: subs_of_def)

lemma subs_of_delete:
  "distinct (map fst hs) \<Longrightarrow> map_of hs i = Some conn \<Longrightarrow> subs_of hs c = subs_of (AList.delete i hs) c + (if conn = Some c then 1 else 0)"
proof (induction hs)
  case (Cons h hs)
  obtain j k where h: "h = (j, k)" by (cases h)
  show ?case
  proof (cases "j = i")
    case True
    then have "map_of hs i = None" using Cons.prems(1) h by (simp add: map_of_eq_None_iff)
    then have "AList.delete i hs = hs" by (force simp: AList.delete_eq filter_id_conv map_of_eq_None_iff)
    then show ?thesis using True Cons.prems(2) h by (simp add: subs_of_def)
  next
    case False
    then show ?thesis using Cons h by (simp add: subs_of_def)
  qed
qed simp

lemma heads_ok_send: "heads_ok api \<Longrightarrow> heads_ok (fanOutHeads api b)"
  by (auto simp: heads_ok_def fanOutHeads_def ch_send_def split: if_splits)

lemma heads_ok_receive:
  "heads_ok api \<Longrightarrow> heads_ok (api\<lparr>fa_chans := (fa_chans api)(i := (fa_chans api i)\<lparr>ch_buf := tl (ch_buf (fa_chans api i))\<rparr>)\<rparr>)"
  by (auto simp: heads_ok_def le_diff_conv intro: le_SucI split: if_splits)

lemma heads_ok_subscribe:
  assumes ok: "heads_ok api"
  shows "heads_ok (ok_or api (SubscribeHeadsForConn api conn buffer))"
proof -
  let ?i = "fa_nextHeadID api + 1"
  have new: "?i \<notin> fst ` set (fa_headSubs api)" using ok by (force simp: heads_ok_def)
  show ?thesis
  proof (cases "SubscribeHeadsForConn api conn buffer")
    case (Inl e)
    then show ?thesis using ok by (simp add: ok_or_def)
  next
    case (Inr r)
    show ?thesis
    proof (cases "fa_closed api")
      case True
      then show ?thesis using ok Inr by (auto simp: SubscribeHeadsForConn_def ok_or_def)
    next
      case False
      have lim: "int (length (fa_headSubs api)) < MaxSubscriptionsGlobal (fa_limits api)"
        "\<And>c. conn = Some c \<Longrightarrow> fa_connSubs api c < MaxSubscriptionsPerConn (fa_limits api)"
        using False Inr by (auto simp: SubscribeHeadsForConn_def Let_def split: if_splits)
      define api' where "api' = ok_or api (SubscribeHeadsForConn api conn buffer)"
      have sel: "fa_headSubs api' = fa_headSubs api @ [(?i, conn)]" "fa_nextHeadID api' = ?i" "fa_limits api' = fa_limits api" "\<not> fa_closed api'"
        "fa_connSubs api' = (case conn of Some c \<Rightarrow> (fa_connSubs api)(c := fa_connSubs api c + 1) | None \<Rightarrow> fa_connSubs api)"
        "\<exists>n. fa_chans api' = (fa_chans api)(?i := \<lparr>ch_cap = n, ch_buf = [], ch_closed = False\<rparr>)"
        using False lim by (auto simp: api'_def SubscribeHeadsForConn_def Let_def ok_or_def not_le split: option.splits)
      then obtain n where ch: "fa_chans api' = (fa_chans api)(?i := \<lparr>ch_cap = n, ch_buf = [], ch_closed = False\<rparr>)" by blast
      have "fa_connSubs api' c = int (subs_of (fa_headSubs api') c) \<and> int (subs_of (fa_headSubs api') c) \<le> max 0 (MaxSubscriptionsPerConn (fa_limits api'))" for c
        using ok lim(2) unfolding sel by (auto simp: heads_ok_def subs_of_snoc split: option.splits)
      moreover have "\<forall>(j, _) \<in> set (fa_headSubs api'). j \<le> fa_nextHeadID api' \<and> \<not> ch_closed (fa_chans api' j)"
        using ok new unfolding sel ch by (force simp: heads_ok_def)
      moreover have "length (ch_buf (fa_chans api' j)) \<le> ch_cap (fa_chans api' j)" for j using ok unfolding ch by (simp add: heads_ok_def)
      ultimately have "heads_ok api'" unfolding heads_ok_def using ok lim(1) new sel(1,3,4) by (auto simp: heads_ok_def)
      then show ?thesis by (simp add: api'_def)
    qed
  qed
qed

lemma heads_ok_unsubscribe:
  assumes ok: "heads_ok api"
  shows "heads_ok (unsubscribeHeads api i)"
proof (cases "map_of (fa_headSubs api) i")
  case None
  then show ?thesis using ok by (simp add: unsubscribeHeads_def)
next
  case (Some conn)
  let ?api = "unsubscribeHeads api i"
  have d: "distinct (map fst (fa_headSubs api))" using ok by (simp add: heads_ok_def)
  have sel: "fa_headSubs ?api = AList.delete i (fa_headSubs api)" "fa_nextHeadID ?api = fa_nextHeadID api" "fa_limits ?api = fa_limits api"
    "fa_closed ?api = fa_closed api" "fa_chans ?api = (fa_chans api)(i := ch_close (fa_chans api i))"
    "fa_connSubs ?api = (case conn of Some c \<Rightarrow> (fa_connSubs api)(c := if fa_connSubs api c - 1 \<le> 0 then 0 else fa_connSubs api c - 1) | None \<Rightarrow> fa_connSubs api)"
    using Some by (simp_all add: unsubscribeHeads_def)
  have sub: "set (AList.delete i (fa_headSubs api)) \<subseteq> set (fa_headSubs api)" "i \<notin> fst ` set (AList.delete i (fa_headSubs api))"
    by (auto simp: AList.delete_eq)
  have "fa_connSubs ?api c = int (subs_of (fa_headSubs ?api) c) \<and> int (subs_of (fa_headSubs ?api) c) \<le> max 0 (MaxSubscriptionsPerConn (fa_limits ?api))" for c
  proof -
    have "fa_connSubs api c = int (subs_of (fa_headSubs api) c)" "int (subs_of (fa_headSubs api) c) \<le> max 0 (MaxSubscriptionsPerConn (fa_limits api))"
      using ok by (simp_all add: heads_ok_def)
    then show ?thesis unfolding sel using subs_of_delete [OF d Some, of c] by (auto split: option.splits)
  qed
  moreover have "\<forall>(j, _) \<in> set (fa_headSubs ?api). j \<le> fa_nextHeadID ?api \<and> \<not> ch_closed (fa_chans ?api j)"
    using ok sub unfolding sel by (force simp: heads_ok_def)
  moreover have "length (ch_buf (fa_chans ?api j)) \<le> ch_cap (fa_chans ?api j)" for j using ok unfolding sel by (simp add: heads_ok_def ch_close_def)
  moreover have "int (length (fa_headSubs ?api)) \<le> max 0 (MaxSubscriptionsGlobal (fa_limits ?api))"
    unfolding sel by (rule order_trans [of _ "int (length (fa_headSubs api))"]) (use ok length_delete_le [of i "fa_headSubs api"] in \<open>simp_all add: heads_ok_def\<close>)
  ultimately show ?thesis unfolding heads_ok_def using ok d sel(1,4) by (auto simp: heads_ok_def distinct_delete)
qed

lemma heads_ok_same:
  "heads_ok api \<Longrightarrow> fa_headSubs api' = fa_headSubs api \<Longrightarrow> fa_chans api' = fa_chans api \<Longrightarrow> fa_connSubs api' = fa_connSubs api \<Longrightarrow>
   fa_nextHeadID api' = fa_nextHeadID api \<Longrightarrow> fa_closed api' = fa_closed api \<Longrightarrow> fa_limits api' = fa_limits api \<Longrightarrow> heads_ok api'"
  by (simp add: heads_ok_def)

lemma heads_ok_close: "heads_ok api \<Longrightarrow> heads_ok (Filter_Close api)"
  by (auto simp: heads_ok_def Filter_Close_def closeHeadSubsLocked_def subs_of_def ch_close_def)

lemma step_heads_ok:
  assumes ok: "heads_ok api"
  shows "heads_ok (fa_step D getBlock api op)"
proof (cases op)
  case (FInstall i now ty crit)
  then show ?thesis by (intro heads_ok_same [OF ok]) (auto simp: ok_or_def install_def)
next
  case (FUninstall i)
  then show ?thesis by (intro heads_ok_same [OF ok]) (auto simp: UninstallFilter_def split: option.splits)
next
  case (FChanges i now)
  then show ?thesis
    by (intro heads_ok_same [OF ok]) (auto simp: GetFilterChanges_def resetDeadlineLocked_def Let_def split: option.splits ftype.splits)
next
  case (FGetLogs i now)
  then show ?thesis
    by (intro heads_ok_same [OF ok]) (auto simp: GetFilterLogs_def resetDeadlineLocked_def Let_def split: option.splits)
qed (use heads_ok_send heads_ok_receive heads_ok_subscribe heads_ok_unsubscribe heads_ok_close ok in
    \<open>auto simp: Handle_heads_def Handle_filters_def timeoutLoop_def Let_def intro: heads_ok_same\<close>)

lemma run_ok:
  "filters_ok (fa_limits api) (fa_filters api) \<Longrightarrow> heads_ok api \<Longrightarrow> api' = fa_run D getBlock api ops \<Longrightarrow>
   filters_ok (fa_limits api') (fa_filters api') \<and> heads_ok api' \<and> fa_limits api' = fa_limits api"
proof (induction ops arbitrary: api)
  case (Cons op ops)
  have "filters_ok (fa_limits (fa_step D getBlock api op)) (fa_filters (fa_step D getBlock api op))"
    using step_filters_ok [OF Cons.prems(1)] by (simp add: step_limits)
  moreover have "api' = fa_run D getBlock (fa_step D getBlock api op) ops" using Cons.prems(3) by simp
  ultimately show ?case using Cons.IH [OF _ step_heads_ok [OF Cons.prems(2)]] unfolding step_limits by blast
qed simp

lemma new_ok: "filters_ok (fa_limits (newFilterAPI timeout lim)) (fa_filters (newFilterAPI timeout lim)) \<and> heads_ok (newFilterAPI timeout lim)"
  by (auto simp: newFilterAPI_def filters_ok_def heads_ok_def mergePartialLimits_def DefaultLimits_def subs_of_def)

lemma run_collect:
  "list_all (quiet i (fl_expiresAt f)) ops \<Longrightarrow> map_of (fa_filters api) i = Some f \<Longrightarrow> crit_ok (fl_crit f) \<Longrightarrow>
   filters_ok (fa_limits api) (fa_filters api) \<Longrightarrow>
   map_of (fa_filters (fa_run D getBlock api ops)) i = Some (collect D (nat (MaxFilterBuffer (fa_limits api))) f (blocks_of ops))"
proof (induction ops arbitrary: api f)
  case Nil
  have "fits (nat (MaxFilterBuffer (fa_limits api))) f" using Nil.prems by (simp add: filters_ok_def)
  then show ?case using Nil.prems by (cases "fl_typ f") (simp_all add: collect_def fits_def lastn_id)
next
  case (Cons op ops)
  let ?n = "nat (MaxFilterBuffer (fa_limits api))" and ?api = "fa_step D getBlock api op"
  have ok: "0 < MaxFilterBuffer (fa_limits api)" "fits ?n f" "distinct (map fst (fa_filters api))"
    using Cons.prems by (simp_all add: filters_ok_def)
  have step: "map_of (fa_filters ?api) i = Some (collect D ?n f (blocks_of [op]))"
    using Cons.prems ok by (intro quiet_step) simp_all
  have "filters_ok (fa_limits ?api) (fa_filters ?api)" using step_filters_ok [OF Cons.prems(4)] by (simp add: step_limits)
  from Cons.IH [OF _ step _ this] Cons.prems
  have "map_of (fa_filters (fa_run D getBlock api (op # ops))) i = Some (collect D ?n (collect D ?n f (blocks_of [op])) (blocks_of ops))"
    by (simp add: step_limits)
  moreover have "collect D ?n (collect D ?n f []) bs = collect D ?n f bs" for bs
    using ok(2) by (cases "fl_typ f") (simp_all add: collect_def fits_def lastn_id)
  ultimately show ?case by (cases op) (simp_all add: collect_Cons)
qed

section \<open>Properties\<close>

text \<open>
  C19. A poll returns what happened since the last one.  While a filter is alive, let any calls of other
  clients run and any blocks be handled: the next \<open>GetFilterChanges\<close> returns, oldest first, the hashes of the
  handled blocks or the logs in them that match the criteria, on top of what was buffered before; when there
  are more than the buffer holds, the newest ones.  Afterwards the buffer is empty and the deadline renewed.
\<close>

theorem Filter_changes:
  assumes "api = fa_run D getBlock (newFilterAPI timeout lim) ops" and f: "map_of (fa_filters api) i = Some f" and "crit_ok (fl_crit f)"
    and "list_all (quiet i (fl_expiresAt f)) later" and "now < fl_expiresAt f" and ty: "fl_typ f \<noteq> UnknownSubscription"
  shows "\<exists>api'. GetFilterChanges (fa_run D getBlock api later) i now =
      (Inr (let n = nat (MaxFilterBuffer (fa_limits api)); bs = blocks_of later in
            if fl_typ f = BlocksSubscription then Hashes (lastn n (fl_hashes f @ map (\<lambda>b. BytesToHash (bk_hash b)) bs))
            else Logs (lastn n (fl_logs f @ concat (map (\<lambda>b. filter (crit_matches (fl_crit f)) (logsFromBlock D b)) bs)))), api') \<and>
    (\<exists>f'. map_of (fa_filters api') i = Some f' \<and> fl_expiresAt f' = now + fa_timeout (fa_run D getBlock api later) \<and>
      (if fl_typ f = BlocksSubscription then fl_hashes f' = [] else fl_logs f' = []))"
proof -
  have "filters_ok (fa_limits api) (fa_filters api)" using new_ok run_ok [OF _ _ assms(1)] by blast
  note c = run_collect [OF assms(4) f assms(3) this, of D getBlock]
  show ?thesis
  proof (cases "fl_typ f")
    case UnknownSubscription
    then show ?thesis using ty by simp
  qed (use c assms(5) in \<open>simp_all add: GetFilterChanges_def resetDeadlineLocked_def Let_def collect_def update_conv'\<close>)
qed

text \<open>
  C34. The limits hold.  After any sequence of calls on a new API with at least zero limits there are at most
  \<open>MaxFilters\<close> filters, each with at most \<open>MaxFilterBuffer\<close> buffered entries; at most \<open>MaxSubscriptionsGlobal\<close>
  subscribers and \<open>MaxSubscriptionsPerConn\<close> per connection, as counted by \<open>connSubs\<close>; no subscriber's
  channel holds more than its capacity, and no block is ever sent on a closed channel.
\<close>

theorem Filter_limits:
  assumes "api = fa_run D getBlock (newFilterAPI timeout lim) ops" and "0 \<le> MaxFilters lim" "0 \<le> MaxSubscriptionsGlobal lim" "0 \<le> MaxSubscriptionsPerConn lim"
  shows "int (length (fa_filters api)) \<le> MaxFilters lim \<and> int (length (fa_headSubs api)) \<le> MaxSubscriptionsGlobal lim \<and>
    (map_of (fa_filters api) i = Some f \<longrightarrow>
       int (length (fl_hashes f)) \<le> MaxFilterBuffer (mergePartialLimits lim) \<and> int (length (fl_logs f)) \<le> MaxFilterBuffer (mergePartialLimits lim)) \<and>
    fa_connSubs api c = int (length (filter (\<lambda>(_, k). k = Some c) (fa_headSubs api))) \<and> fa_connSubs api c \<le> MaxSubscriptionsPerConn lim \<and>
    length (ch_buf (fa_chans api s)) \<le> ch_cap (fa_chans api s) \<and> (ch_closed (fa_chans api s) \<longrightarrow> s \<notin> fst ` set (fa_headSubs api))"
proof -
  have lim: "fa_limits (newFilterAPI timeout lim) = mergePartialLimits lim" "MaxFilters (mergePartialLimits lim) = MaxFilters lim"
    "MaxSubscriptionsGlobal (mergePartialLimits lim) = MaxSubscriptionsGlobal lim" "MaxSubscriptionsPerConn (mergePartialLimits lim) = MaxSubscriptionsPerConn lim"
    by (simp_all add: newFilterAPI_def mergePartialLimits_def)
  have ok: "filters_ok (fa_limits api) (fa_filters api)" "heads_ok api" "fa_limits api = mergePartialLimits lim"
    using new_ok run_ok [OF _ _ assms(1)] lim(1) by metis+
  have f: "int (length (fl_hashes f)) \<le> MaxFilterBuffer (mergePartialLimits lim) \<and> int (length (fl_logs f)) \<le> MaxFilterBuffer (mergePartialLimits lim)"
    if "map_of (fa_filters api) i = Some f"
    using ok(1) that unfolding filters_ok_def fits_def ok(3) by force
  have "\<not> ch_closed (fa_chans api s)" if "s \<in> fst ` set (fa_headSubs api)" using ok(2) that by (auto simp: heads_ok_def)
  then show ?thesis using ok(1,2) assms(2-4) f unfolding filters_ok_def heads_ok_def ok(3) lim(2-4) subs_of_def by auto
qed

section \<open>A concrete API\<close>

definition demo_decoders :: decoders where
  "demo_decoders = \<lparr>dec_md = (\<lambda>_. None), dec_logs = (\<lambda>_. None), dec_tx = (\<lambda>_. None)\<rparr>"

definition demo_block :: "u8 \<Rightarrow> block" where
  "demo_block h = \<lparr>bk_number = 1, bk_hash = [h], bk_parent = [], bk_timestamp = 0, bk_txs = []\<rparr>"

lemma demo_block_hash: "BytesToHash (bk_hash (demo_block h)) = of_nat (unat h)"
  by (simp add: demo_block_def BytesToHash_def unbe_def)

text \<open>One filter may exist, its buffer holds two entries; a second installation is refused.\<close>

definition small_limits :: limits where
  "small_limits = \<lparr>MaxFilters = 1, MaxSubscriptionsPerConn = 1, MaxSubscriptionsGlobal = 1, MaxFilterBuffer = 2\<rparr>"

definition demo_api :: filterapi where
  "demo_api = fa_run demo_decoders (\<lambda>_. None) (newFilterAPI 300 small_limits) [FInstall ''a'' 0 BlocksSubscription no_crit]"

definition demo_filter :: filt where
  "demo_filter = \<lparr>fl_typ = BlocksSubscription, fl_expiresAt = 300, fl_hashes = [], fl_crit = no_crit, fl_logs = []\<rparr>"

lemmas fa_eval = demo_api_def newFilterAPI_def small_limits_def mergePartialLimits_def install_def ok_or_def demo_filter_def

lemma demo_api_filter: "map_of (fa_filters demo_api) ''a'' = Some demo_filter" "MaxFilterBuffer (fa_limits demo_api) = 2"
  by (simp_all add: fa_eval)

theorem Filter_changes_witness:
  "\<exists>api'. GetFilterChanges (fa_run demo_decoders (\<lambda>_. None) demo_api
      [FBlock (demo_block 1), FInstall ''b'' 5 LogsSubscription no_crit, FBlock (demo_block 2), FSweep 10, FBlock (demo_block 3)]) ''a'' 20 =
    (Inr (Hashes [2, 3]), api')"
proof -
  let ?ops = "[FBlock (demo_block 1), FInstall ''b'' 5 LogsSubscription no_crit, FBlock (demo_block 2), FSweep 10, FBlock (demo_block 3)]"
  have "crit_ok (fl_crit demo_filter)" "list_all (quiet ''a'' (fl_expiresAt demo_filter)) ?ops" "20 < fl_expiresAt demo_filter"
    "fl_typ demo_filter \<noteq> UnknownSubscription" by (simp_all add: demo_filter_def no_crit_def crit_ok_def)
  from Filter_changes [OF demo_api_def demo_api_filter(1) this]
  obtain api' where "GetFilterChanges (fa_run demo_decoders (\<lambda>_. None) demo_api ?ops) ''a'' 20 =
      (Inr (let n = nat (MaxFilterBuffer (fa_limits demo_api)); bs = blocks_of ?ops in
            if fl_typ demo_filter = BlocksSubscription then Hashes (lastn n (fl_hashes demo_filter @ map (\<lambda>b. BytesToHash (bk_hash b)) bs))
            else Logs (lastn n (fl_logs demo_filter @ concat (map (\<lambda>b. filter (crit_matches (fl_crit demo_filter)) (logsFromBlock demo_decoders b)) bs)))), api')"
    by blast
  then show ?thesis by (simp add: demo_api_filter(2) demo_filter_def lastn_def demo_block_hash)
qed

theorem Filter_limits_witness:
  "length (fa_filters (fa_run demo_decoders (\<lambda>_. None) (newFilterAPI 300 small_limits)
      [FInstall ''a'' 0 BlocksSubscription no_crit, FInstall ''b'' 0 LogsSubscription no_crit, FSubscribe (Some 7) 4, FSubscribe (Some 7) 4])) = 1 \<and>
   int (length (fa_headSubs (fa_run demo_decoders (\<lambda>_. None) (newFilterAPI 300 small_limits)
      [FInstall ''a'' 0 BlocksSubscription no_crit, FInstall ''b'' 0 LogsSubscription no_crit, FSubscribe (Some 7) 4, FSubscribe (Some 7) 4]))) \<le> 1"
proof
  let ?ops = "[FInstall ''a'' 0 BlocksSubscription no_crit, FInstall ''b'' 0 LogsSubscription no_crit, FSubscribe (Some 7) 4, FSubscribe (Some 7) 4]"
  show "length (fa_filters (fa_run demo_decoders (\<lambda>_. None) (newFilterAPI 300 small_limits) ?ops)) = 1"
    by (simp add: fa_eval SubscribeHeadsForConn_def)
  show "int (length (fa_headSubs (fa_run demo_decoders (\<lambda>_. None) (newFilterAPI 300 small_limits) ?ops))) \<le> 1"
    using Filter_limits [OF refl, of small_limits demo_decoders "\<lambda>_. None" 300 ?ops] by (simp add: small_limits_def)
qed

end
