(* ===== verification/EndorseClient.thy ===== *)
theory EndorseClient
  imports FxPrelude
begin

text \<open>
  The gateway's endorsement client (\<open>gateway/core/endorse.go\<close>, \<open>CallError\<close> of \<open>common/callerror.go\<close>, the statuses of
  \<open>common/proposal.go\<close>): collecting endorsements of a transaction, read-only calls, and gas estimation.

  A call of the local endorser is an argument: a function of the gas limit, since the block and the message
  are fixed during an estimation.  The search of \<open>EstimateGas\<close> has no bound of its own, so it is a
  \<open>partial_function\<close>, with \<open>None\<close> for a search that never ends.  \<open>ExecuteTransaction\<close> takes what each endorser
  answered, in the order of the endorsers; that one failure cancels the calls still running shows in these
  answers.  Encoding the transaction is go-ethereum code and building the invocation is SDK code: both are
  arguments.
\<close>

section \<open>Outcomes\<close>

definition StatusOK :: int where "StatusOK = 200"
definition StatusEVMRevert :: int where "StatusEVMRevert = 201"
definition StatusExecFailure :: int where "StatusExecFailure = 202"
definition StatusTxRejected :: int where "StatusTxRejected = 400"


datatype call_err = CallError (ce_status: int) (ce_message: string) (ce_data: bytes) | Transport string

fun Reverted :: "call_err \<Rightarrow> bool" where
  "Reverted (CallError s _ _) = (s = StatusEVMRevert)"
| "Reverted (Transport _) = False"

datatype gw_error = RevertError string bytes | ExecutionError string | GenericError string

type_synonym local_call = "u64 \<Rightarrow> bytes \<times> u64 \<times> call_err option"

section \<open>Calls and gas estimation\<close>

text \<open>\<open>EndorsementClient.call\<close>: the payload, the gas and the error.\<close>

definition client_call :: "local_call \<Rightarrow> u64 \<Rightarrow> bytes \<times> u64 \<times> gw_error option" where
  "client_call call g =
     (case call g of (payload, gas, err) \<Rightarrow>
        (case err of
           None \<Rightarrow> (payload, gas, None)
         | Some (Transport e) \<Rightarrow> ([], gas, Some (GenericError (''process call: '' @ e)))
         | Some (CallError s msg data) \<Rightarrow>
             if Reverted (CallError s msg data) then
               (if length data = 0 then ([], gas, None) else ([], gas, Some (RevertError msg data)))
             else if s = StatusExecFailure \<or> s = StatusTxRejected then ([], gas, Some (ExecutionError msg))
             else ([], gas, Some (GenericError (''query response was not successful, error code '' @ dec s @ '', msg '' @ msg)))))"

definition CallContract :: "local_call \<Rightarrow> u64 \<Rightarrow> bytes \<times> gw_error option" where
  "CallContract call g = (case client_call call g of (payload, _, err) \<Rightarrow> (payload, err))"

definition estimateGasCeiling :: u64 where
  "estimateGasCeiling = 10000000"

definition sstoreSentryBuffer :: u64 where
  "sstoreSentryBuffer = 2301"

definition probeGas :: "local_call \<Rightarrow> u64 \<Rightarrow> gw_error + u64 \<times> bool" where
  "probeGas call gas =
     (case call gas of (_, maxUsedGas, err) \<Rightarrow>
        (case err of
           None \<Rightarrow> Inr (maxUsedGas, True)
         | Some (Transport e) \<Rightarrow> Inl (GenericError (''process call: '' @ e))
         | Some (CallError s msg data) \<Rightarrow>
             if Reverted (CallError s msg data) \<and> length data > 0 then Inl (RevertError msg data)
             else Inr (maxUsedGas, False)))"

partial_function (option) gas_search :: "local_call \<Rightarrow> u64 \<Rightarrow> (gw_error + u64) option" where
  "gas_search call guess =
     (if guess < estimateGasCeiling
      then case probeGas call guess of
             Inl e \<Rightarrow> Some (Inl e)
           | Inr (_, ok) \<Rightarrow> if ok then Some (Inr guess) else gas_search call (guess * 2)
      else Some (Inr estimateGasCeiling))"

definition EstimateGas :: "local_call \<Rightarrow> (gw_error + u64) option" where
  "EstimateGas call =
     (case probeGas call estimateGasCeiling of
        Inl e \<Rightarrow> Some (Inl e)
      | Inr (maxUsedGas, ok) \<Rightarrow>
          if \<not> ok then Some (Inl (GenericError (''gas required exceeds allowance ('' @ dec_nat (unat estimateGasCeiling) @ '')'')))
          else gas_search call (maxUsedGas + sstoreSentryBuffer))"

section \<open>Endorsement\<close>

text \<open>
  What \<open>Execute\<close> of an endorser returned: a Go error, with whether \<open>isCancellation\<close> holds of it, or a response.
  Wrapping keeps a cancellation recognisable; an error made from a response's message is never one.
\<close>

datatype answer = Failure (is_cancelled: bool) string | Response (an_status: int) (an_message: string) (an_payload: bytes)

type_synonym endorse_err = "bool \<times> string"

definition isCancellation :: "endorse_err \<Rightarrow> bool" where
  "isCancellation e = fst e"

definition processEndorsement :: "answer \<Rightarrow> answer option \<times> endorse_err option" where
  "processEndorsement a =
     (case a of
        Failure c e \<Rightarrow> (None, Some (c, ''call endorser: '' @ e))
      | Response s msg _ \<Rightarrow>
          if s = StatusOK \<or> s = StatusEVMRevert \<or> s = StatusExecFailure then (Some a, None)
          else (None, Some (False, ''process EVM transaction: '' @ msg)))"

fun first_real_error :: "endorse_err option list \<Rightarrow> endorse_err option" where
  "first_real_error [] = None"
| "first_real_error (None # es) = first_real_error es"
| "first_real_error (Some e # es) = (if \<not> isCancellation e then Some e else first_real_error es)"

fun first_error :: "endorse_err option list \<Rightarrow> endorse_err option" where
  "first_error [] = None"
| "first_error (None # es) = first_error es"
| "first_error (Some e # es) = Some e"

record 'p endorsement =
  Proposal :: 'p
  Responses :: "answer option list"

definition ExecuteTransaction :: "bytes result \<Rightarrow> (bytes list \<Rightarrow> 'p result) \<Rightarrow> answer list \<Rightarrow> 'p endorsement result" where
  "ExecuteTransaction marshalled createInvocation answers =
     (case marshalled of
        Inl e \<Rightarrow> Inl e
      | Inr ethTxBytes \<Rightarrow>
          (case createInvocation [ethTxBytes] of
             Inl e \<Rightarrow> Inl e
           | Inr proposal \<Rightarrow>
               let res = map (fst \<circ> processEndorsement) answers;
                   errs = map (snd \<circ> processEndorsement) answers in
               (case first_real_error errs of
                  Some e \<Rightarrow> Inl (snd e)
                | None \<Rightarrow>
                    (case first_error errs of
                       Some e \<Rightarrow> Inl (snd e)
                     | None \<Rightarrow> Inr \<lparr>Proposal = proposal, Responses = res\<rparr>))))"

section \<open>Properties\<close>

lemma gas_search_ends:
  assumes "2301 \<le> unat guess"
  shows "\<exists>r. gas_search call guess = Some r \<and>
    (\<forall>g. r = Inr g \<longrightarrow> g = estimateGasCeiling \<or> (guess \<le> g \<and> g < estimateGasCeiling \<and> snd (snd (call g)) = None))"
  using assms
proof (induction "10000000 - unat guess" arbitrary: guess rule: less_induct)
  case less
  show ?case
  proof (cases "guess < estimateGasCeiling")
    case False
    then show ?thesis by (subst gas_search.simps) simp
  next
    case True
    then have lt: "unat guess < 10000000" by (simp add: estimateGasCeiling_def word_less_nat_alt)
    show ?thesis
    proof (cases "probeGas call guess")
      case (Inl e)
      then show ?thesis using True by (subst gas_search.simps) simp
    next
      case (Inr p)
      obtain u ok where p: "p = (u, ok)" by (cases p)
      show ?thesis
      proof (cases ok)
        case ok: True
        then have "snd (snd (call guess)) = None"
          using Inr p by (auto simp: probeGas_def split: prod.splits option.splits call_err.splits if_splits)
        then show ?thesis using Inr p ok True by (subst gas_search.simps) simp
      next
        case False
        have dbl: "unat (guess * 2) = unat guess * 2" using lt by (simp add: unat_word_ariths)
        have "10000000 - unat (guess * 2) < 10000000 - unat guess" "2301 \<le> unat (guess * 2)" using lt less.prems dbl by simp_all
        from less.hyps [OF this] obtain r where r: "gas_search call (guess * 2) = Some r"
          "\<forall>g. r = Inr g \<longrightarrow> g = estimateGasCeiling \<or> (guess * 2 \<le> g \<and> g < estimateGasCeiling \<and> snd (snd (call g)) = None)" by blast
        have "guess \<le> guess * 2" using dbl by (simp add: word_le_nat_alt)
        moreover have "gas_search call guess = Some r" using Inr p False True r(1) by (subst gas_search.simps) simp
        ultimately show ?thesis using r(2) by fastforce
      qed
    qed
  qed
qed


text \<open>A call that uses 30000 gas but needs 50000 in reserve.\<close>

definition hungry_call :: local_call where
  "hungry_call g = (if g < 50000 then ([], g, Some (CallError StatusExecFailure ''out of gas'' [])) else ([], 30000, None))"


text \<open>What an answer contributes: nothing to report, a cancellation, or another error.\<close>

definition endorsed :: "answer \<Rightarrow> bool" where
  "endorsed a = (case a of Failure _ _ \<Rightarrow> False | Response s _ _ \<Rightarrow> s \<in> {StatusOK, StatusEVMRevert, StatusExecFailure})"

definition cancelled :: "answer \<Rightarrow> bool" where
  "cancelled a = (case a of Failure c _ \<Rightarrow> c | Response _ _ _ \<Rightarrow> False)"

definition complaint :: "answer \<Rightarrow> string" where
  "complaint a = (case a of Failure _ e \<Rightarrow> ''call endorser: '' @ e | Response _ m _ \<Rightarrow> ''process EVM transaction: '' @ m)"

lemma processEndorsement_alt:
  "processEndorsement a = (if endorsed a then (Some a, None) else (None, Some (cancelled a, complaint a)))"
  by (cases a) (auto simp: processEndorsement_def endorsed_def cancelled_def complaint_def)

lemma first_real_error_find:
  "first_real_error (map (snd \<circ> processEndorsement) as) =
     map_option (\<lambda>a. (cancelled a, complaint a)) (find (\<lambda>a. \<not> endorsed a \<and> \<not> cancelled a) as)"
  by (induction "as") (auto simp: processEndorsement_alt isCancellation_def)

lemma first_error_find:
  "first_error (map (snd \<circ> processEndorsement) as) =
     map_option (\<lambda>a. (cancelled a, complaint a)) (find (\<lambda>a. \<not> endorsed a) as)"
  by (induction "as") (auto simp: processEndorsement_alt)

lemma find_split:
  assumes "P x" "list_all (\<lambda>u. \<not> P u) us"
  shows "find P (us @ x # vs) = Some x"
  using assms by (induction us) auto

lemma ExecuteTransaction_find:
  assumes "createInvocation [tx] = Inr p"
  shows "ExecuteTransaction (Inr tx) createInvocation answers =
    (case find (\<lambda>a. \<not> endorsed a \<and> \<not> cancelled a) answers of
       Some a \<Rightarrow> Inl (complaint a)
     | None \<Rightarrow>
         (case find (\<lambda>a. \<not> endorsed a) answers of
            Some a \<Rightarrow> Inl (complaint a)
          | None \<Rightarrow> Inr \<lparr>Proposal = p, Responses = map (fst \<circ> processEndorsement) answers\<rparr>))"
  by (simp add: ExecuteTransaction_def Let_def assms first_real_error_find first_error_find split: option.split)

text \<open>
  C20. All endorsers or the error that matters.  Once the invocation is built, \<open>ExecuteTransaction\<close> returns the
  responses of all endorsers, in their order, when each answered success, revert or failed execution.  When an
  endorser failed for another reason than a cancellation, the result is the error of the first such endorser,
  wherever the cancellations it caused stand.  Only when all failures are cancellations is one returned, the
  first.
\<close>

theorem ExecuteTransaction_outcome:
  assumes inv: "createInvocation [tx] = Inr p"
  shows "(list_all endorsed answers \<longrightarrow>
      ExecuteTransaction (Inr tx) createInvocation answers = Inr \<lparr>Proposal = p, Responses = map Some answers\<rparr>) \<and>
    (answers = us @ a # vs \<and> \<not> endorsed a \<and> \<not> cancelled a \<and> list_all (\<lambda>u. endorsed u \<or> cancelled u) us \<longrightarrow>
      ExecuteTransaction (Inr tx) createInvocation answers = Inl (complaint a)) \<and>
    (answers = us @ a # vs \<and> list_all (\<lambda>u. endorsed u \<or> cancelled u) answers \<and> \<not> endorsed a \<and> list_all endorsed us \<longrightarrow>
      ExecuteTransaction (Inr tx) createInvocation answers = Inl (complaint a))"
  (is "(_ \<longrightarrow> ?ok) \<and> (?real \<longrightarrow> ?bad) \<and> (?canc \<longrightarrow> ?bad)")
proof (intro conjI impI)
  note run = ExecuteTransaction_find [of createInvocation tx p answers, OF inv]
  show ?ok if ok: "list_all endorsed answers"
  proof -
    have "find (\<lambda>a. \<not> endorsed a) answers = None" "find (\<lambda>a. \<not> endorsed a \<and> \<not> cancelled a) answers = None"
      using ok by (auto simp: find_None_iff list_all_iff)
    moreover have "map (fst \<circ> processEndorsement) answers = map Some answers"
      using ok by (auto simp: list_all_iff processEndorsement_alt)
    ultimately show ?thesis by (simp add: run)
  qed
  show ?bad if real: ?real
  proof -
    have "find (\<lambda>a. \<not> endorsed a \<and> \<not> cancelled a) (us @ a # vs) = Some a"
      using real by (intro find_split) (auto simp: list_all_iff)
    then show ?thesis using real run by simp
  qed
  show ?bad if canc: ?canc
  proof -
    have "find (\<lambda>a. \<not> endorsed a \<and> \<not> cancelled a) answers = None"
      using canc by (auto simp: find_None_iff list_all_iff)
    moreover have "find (\<lambda>a. \<not> endorsed a) (us @ a # vs) = Some a"
      using canc by (intro find_split) (auto simp: list_all_iff)
    ultimately show ?thesis using canc run by simp
  qed
qed

theorem ExecuteTransaction_outcome_witness:
  "ExecuteTransaction (Inr []) (\<lambda>_. Inr ()) [Failure True ''canceled'', Response StatusTxRejected ''nonce too low'' []] =
     Inl ''process EVM transaction: nonce too low''"
  using ExecuteTransaction_outcome [of "\<lambda>_. Inr ()" "[]" "()" "[Failure True ''canceled'', Response StatusTxRejected ''nonce too low'' []]"
      "[Failure True ''canceled'']" "Response StatusTxRejected ''nonce too low'' []" "[]"]
  by (simp add: endorsed_def cancelled_def complaint_def StatusTxRejected_def StatusOK_def StatusEVMRevert_def StatusExecFailure_def)

end
